(* ===== verification/Bop_Prelude.thy ===== *)
theory Bop_Prelude
  imports Main "HOL-Library.Word" "HOL-Library.Tree"
begin

text \<open>
  Shared vocabulary of the development: the machine types of the C sources, the ways in
  which a C function can fail to return, the enumerations and the memory range of
  \<^verbatim>\<open>bop_api.h\<close>, byte-addressed memory with \<^verbatim>\<open>memcpy\<close>, and the generic lemmas on
  words, sorted lists and results that the component theories use.

  Addresses and sizes are 64-bit words, so every addition of the sources wraps here as it
  does there.  The end of a range, \<open>base + rsize\<close>, is written \<open>rend\<close>; a range is \<open>valid\<close>
  when it is not empty and does not wrap around, which over words is just \<open>base < rend\<close>.
\<close>

unbundle bit_operations_syntax

declare set_inorder [simp del]


section \<open>Machine types\<close>

type_synonym addr_t = "64 word"
type_synonym size_t = "64 word"
type_synonym uint = "32 word"
type_synonym byte = "8 word"
type_synonym block = "byte list"
type_synonym memory = "addr_t \<Rightarrow> byte"
type_synonym mspace = nat

section \<open>Results\<close>

text \<open>
  A call that does not return normally ends in an \<open>abort_cause\<close>: a failing \<^verbatim>\<open>assert\<close>
  (the Makefile does not define \<^verbatim>\<open>NDEBUG\<close>), an access through a null pointer or outside a
  block, or a loop that never ends.
\<close>

datatype abort_cause = AssertFailed | BadAccess | Diverges

type_synonym 'a res = "abort_cause + 'a"

definition res_bind :: "'a res \<Rightarrow> ('a \<Rightarrow> 'b res) \<Rightarrow> 'b res" where
  "res_bind m f = (case m of Inl e \<Rightarrow> Inl e | Inr x \<Rightarrow> f x)"

lemma res_bind_simps [simp]:
  "res_bind (Inl e) f = Inl e"
  "res_bind (Inr x) f = f x"
  by (simp_all add: res_bind_def)

lemma res_bind_eq_Inr: "res_bind m f = Inr y \<longleftrightarrow> (\<exists>x. m = Inr x \<and> f x = Inr y)"
  by (cases m) simp_all

lemma res_bind_eq_InrE [elim]:
  assumes "res_bind m f = Inr y"
  obtains x where "m = Inr x" and "f x = Inr y"
  using assms by (auto simp: res_bind_eq_Inr)

fun res_fold :: "('a \<Rightarrow> 's \<Rightarrow> 's res) \<Rightarrow> 'a list \<Rightarrow> 's \<Rightarrow> 's res" where
  "res_fold f [] s = Inr s"
| "res_fold f (x # xs) s = res_bind (f x s) (res_fold f xs)"

lemma res_fold_append:
  "res_fold f (xs @ ys) s = res_bind (res_fold f xs s) (res_fold f ys)"
proof (induction xs arbitrary: s)
  case Nil
  then show ?case by simp
next
  case (Cons x xs)
  then show ?case by (cases "f x s") simp_all
qed

text \<open>An invariant that every step of a fold establishes without aborting.\<close>

section \<open>Enumerations of bop\_api.h\<close>

datatype task_status_t = SEQ | UNDY | MAIN | SPEC

datatype ppr_pos_t = PPR | GAP | PSEQ

datatype bop_mode_t = SERIAL | PARALLEL

section \<open>Memory ranges\<close>

text \<open>
  \<^verbatim>\<open>mem_range_t\<close>.  The field \<open>rec\<close> is a pointer: \<open>None\<close> is the null pointer, \<open>Some bs\<close> a
  pointer to a block that holds the bytes \<open>bs\<close>.  (The C field \<^verbatim>\<open>size\<close> is \<open>rsize\<close> here.)
\<close>

record mem_range_t =
  base :: addr_t
  rsize :: size_t
  rec :: "block option"
  task :: uint

definition rend :: "mem_range_t \<Rightarrow> addr_t" where
  "rend r = base r + rsize r"

definition valid :: "mem_range_t \<Rightarrow> bool" where
  "valid r \<longleftrightarrow> base r < rend r"

definition range_bytes :: "mem_range_t \<Rightarrow> addr_t set" where
  "range_bytes r = {base r ..< rend r}"

definition bytes :: "mem_range_t list \<Rightarrow> addr_t set" where
  "bytes rs = (\<Union>r \<in> set rs. range_bytes r)"

lemma bytes_simps [simp]:
  "bytes [] = {}"
  "bytes (r # rs) = range_bytes r \<union> bytes rs"
  "bytes (rs @ rs') = bytes rs \<union> bytes rs'"
  by (auto simp: bytes_def)

lemma mem_bytes: "a \<in> bytes rs \<longleftrightarrow> (\<exists>r \<in> set rs. base r \<le> a \<and> a < rend r)"
  by (auto simp: bytes_def range_bytes_def)

lemma mem_range_bytes [simp]: "a \<in> range_bytes r \<longleftrightarrow> base r \<le> a \<and> a < rend r"
  by (simp add: range_bytes_def)

lemma rend_update_simps [simp]:
  "rend (r\<lparr>rec := v\<rparr>) = rend r"
  "rend (r\<lparr>task := t\<rparr>) = rend r"
  "rend (r\<lparr>base := b, rsize := e - b\<rparr>) = e"
  "rend (r\<lparr>rsize := e - base r\<rparr>) = e"
  "rend \<lparr>base = b, rsize = s, rec = v, task = t\<rparr> = b + s"
  by (simp_all add: rend_def)

text \<open>
  The two orders a tree keeps between its ranges, read from left to right: \<open>ordered\<close> ranges are
  valid and pairwise disjoint, ranges \<open>apart\<close> do not even touch.
\<close>

definition ordered :: "mem_range_t list \<Rightarrow> bool" where
  "ordered rs \<longleftrightarrow> sorted_wrt (\<lambda>r r'. rend r \<le> base r') rs \<and> (\<forall>r \<in> set rs. valid r)"

definition apart :: "mem_range_t list \<Rightarrow> bool" where
  "apart rs \<longleftrightarrow> sorted_wrt (\<lambda>r r'. rend r < base r') rs \<and> (\<forall>r \<in> set rs. valid r)"

abbreviation base_sorted :: "mem_range_t list \<Rightarrow> bool" where
  "base_sorted rs \<equiv> sorted_wrt (\<lambda>r r'. base r < base r') rs"

lemma apart_imp_ordered: "apart rs \<Longrightarrow> ordered rs"
  by (auto simp: apart_def ordered_def elim: sorted_wrt_mono_rel [rotated])

lemma ordered_imp_base_sorted:
  assumes "ordered rs"
  shows "base_sorted rs"
proof (rule sorted_wrt_mono_rel [of _ "\<lambda>r r'. rend r \<le> base r'"])
  show "base r < base r'" if "r \<in> set rs" "r' \<in> set rs" "rend r \<le> base r'" for r r'
    using that assms by (auto simp: ordered_def valid_def)
  show "sorted_wrt (\<lambda>r r'. rend r \<le> base r') rs"
    using assms by (simp add: ordered_def)
qed

lemma apart_Nil [simp]: "apart []"
  by (simp add: apart_def)

lemma ordered_Nil [simp]: "ordered []"
  by (simp add: ordered_def)

lemma apart_Cons: "apart (r # rs) \<longleftrightarrow> valid r \<and> (\<forall>r' \<in> set rs. rend r < base r') \<and> apart rs"
  by (auto simp: apart_def)

lemma ordered_Cons: "ordered (r # rs) \<longleftrightarrow> valid r \<and> (\<forall>r' \<in> set rs. rend r \<le> base r') \<and> ordered rs"
  by (auto simp: ordered_def)

lemma apart_append:
  "apart (rs @ rs') \<longleftrightarrow> apart rs \<and> apart rs' \<and> (\<forall>r \<in> set rs. \<forall>r' \<in> set rs'. rend r < base r')"
  by (auto simp: apart_def sorted_wrt_append)

lemma ordered_append:
  "ordered (rs @ rs') \<longleftrightarrow> ordered rs \<and> ordered rs' \<and> (\<forall>r \<in> set rs. \<forall>r' \<in> set rs'. rend r \<le> base r')"
  by (auto simp: ordered_def sorted_wrt_append)

lemmas sep_simps = apart_Cons apart_append ordered_Cons ordered_append

lemma apart_filter: "apart rs \<Longrightarrow> apart (filter P rs)"
  by (auto simp: apart_def sorted_wrt_filter)

lemma apart_valid: "apart rs \<Longrightarrow> r \<in> set rs \<Longrightarrow> base r < rend r"
  by (simp add: apart_def valid_def)

lemma ordered_valid: "ordered rs \<Longrightarrow> r \<in> set rs \<Longrightarrow> base r < rend r"
  by (simp add: ordered_def valid_def)

lemma apart_cases:
  "apart rs \<Longrightarrow> x \<in> set rs \<Longrightarrow> y \<in> set rs \<Longrightarrow> x = y \<or> rend x < base y \<or> rend y < base x"
  by (induction rs) (auto simp: sep_simps)

lemma ordered_cases:
  "ordered rs \<Longrightarrow> x \<in> set rs \<Longrightarrow> y \<in> set rs \<Longrightarrow> x = y \<or> rend x \<le> base y \<or> rend y \<le> base x"
  by (induction rs) (auto simp: sep_simps)

end
