(* ===== verification/Range_Tree.thy ===== *)
theory Range_Tree
  imports Bop_Prelude
begin

text \<open>
  The splay tree of \<^verbatim>\<open>range_tree/dtree.c\<close>: traversal, top-down splaying, the overlap test,
  absorption of neighbours and \<^verbatim>\<open>map_add_range\<close>.

  A tree of \<^verbatim>\<open>range_node_t\<close> is owned by one map and its nodes are never shared, so it is the
  library's binary tree over ranges: \<open>Leaf\<close> is the null pointer, \<open>Node lc r rc\<close> a node.  The
  pointer into the root that the operations return is modelled by the range it points to.
  Nodes come from an mspace; an allocation is taken to succeed.
\<close>

section \<open>State\<close>

type_synonym range_node_t = "mem_range_t tree"

record map_t =
  is_hash :: bool
  residence :: "mspace option"
  root :: range_node_t
  msize :: size_t
  mname :: string

abbreviation ranges :: "map_t \<Rightarrow> mem_range_t list" where
  "ranges m \<equiv> inorder (root m)"

definition init_empty_map :: "mspace option \<Rightarrow> string \<Rightarrow> map_t" where
  "init_empty_map res nm =
     \<lparr>is_hash = False, residence = res, root = Leaf, msize = 0, mname = nm\<rparr>"

definition new_range_set :: "mspace option \<Rightarrow> string \<Rightarrow> map_t" where
  "new_range_set res nm = init_empty_map res nm"

section \<open>Traversal\<close>

fun subtree_foreach :: "range_node_t \<Rightarrow> (mem_range_t \<Rightarrow> 's \<Rightarrow> 's) \<Rightarrow> 's \<Rightarrow> 's" where
  "subtree_foreach Leaf func s = s"
| "subtree_foreach (Node lc r rc) func s =
     subtree_foreach rc func (func r (subtree_foreach lc func s))"

definition map_foreach :: "map_t \<Rightarrow> (mem_range_t \<Rightarrow> 's \<Rightarrow> 's) \<Rightarrow> 's \<Rightarrow> 's" where
  "map_foreach m func s = subtree_foreach (root m) func s"

fun subtree_inject :: "range_node_t \<Rightarrow> 's \<Rightarrow> ('s \<Rightarrow> mem_range_t \<Rightarrow> 's) \<Rightarrow> 's" where
  "subtree_inject Leaf acc func = acc"
| "subtree_inject (Node lc r rc) acc func =
     subtree_inject rc (func (subtree_inject lc acc func) r) func"

definition map_inject :: "map_t \<Rightarrow> 's \<Rightarrow> ('s \<Rightarrow> mem_range_t \<Rightarrow> 's) \<Rightarrow> 's" where
  "map_inject m acc func = subtree_inject (root m) acc func"

text \<open>
  \<^verbatim>\<open>to_array_block\<close> stores a range at the next free index of the array; the array is the list of
  the ranges stored so far.  The length is returned in an \<^verbatim>\<open>unsigned\<close>, which keeps the low 32
  bits of the map's \<^verbatim>\<open>size_t\<close> counter.
\<close>

definition to_array_block :: "mem_range_t list \<Rightarrow> mem_range_t \<Rightarrow> mem_range_t list" where
  "to_array_block rgs r = rgs @ [r]"

definition map_to_array :: "map_t \<Rightarrow> mem_range_t list \<times> uint" where
  "map_to_array m =
     (let sz = ucast (msize m) :: uint in
      if sz = 0 then ([], sz) else (map_inject m [] to_array_block, sz))"

text \<open>The loop \<^verbatim>\<open>for (i = 0; i < num; i ++)\<close> over that array visits these ranges.\<close>

definition array_ranges :: "map_t \<Rightarrow> mem_range_t list" where
  "array_ranges m = (let (rgs, num) = map_to_array m in take (unat num) rgs)"

section \<open>Splaying\<close>

text \<open>
  \<^verbatim>\<open>splay\<close> walks down from the root and hangs the nodes it passes on two trees under the local
  node \<^verbatim>\<open>N\<close>.  The left tree grows at the end of its right spine (\<^verbatim>\<open>l->rc = t; l = t\<close>), the right
  tree at the end of its left spine.  A spine is the list of its nodes, last one first, each
  without the child that is still to be filled in; \<open>assemble_l\<close> and \<open>assemble_r\<close> fill it.
\<close>

type_synonym l_spine = "(range_node_t \<times> mem_range_t) list"
type_synonym r_spine = "(mem_range_t \<times> range_node_t) list"

fun assemble_l :: "l_spine \<Rightarrow> range_node_t \<Rightarrow> range_node_t" where
  "assemble_l [] t = t"
| "assemble_l ((lc, r) # ls) t = assemble_l ls (Node lc r t)"

fun assemble_r :: "r_spine \<Rightarrow> range_node_t \<Rightarrow> range_node_t" where
  "assemble_r [] t = t"
| "assemble_r ((r, rc) # rs) t = assemble_r rs (Node t r rc)"

fun rotate_lc :: "addr_t \<Rightarrow> range_node_t \<Rightarrow> range_node_t" where
  "rotate_lc key (Node (Node a y b) x c) =
     (if key < base y then Node a y (Node b x c) else Node (Node a y b) x c)"
| "rotate_lc key t = t"

fun rotate_rc :: "addr_t \<Rightarrow> range_node_t \<Rightarrow> range_node_t" where
  "rotate_rc key (Node a x (Node b y c)) =
     (if key > base y then Node (Node a x b) y c else Node a x (Node b y c))"
| "rotate_rc key t = t"

lemma size_rotate_lc [simp]: "size (rotate_lc key t) = size t"
  by (cases "(key, t)" rule: rotate_lc.cases) auto

lemma size_rotate_rc [simp]: "size (rotate_rc key t) = size t"
  by (cases "(key, t)" rule: rotate_rc.cases) auto

definition splay_end :: "range_node_t \<Rightarrow> l_spine \<Rightarrow> r_spine \<Rightarrow> range_node_t" where
  "splay_end t l r =
     (case t of Leaf \<Rightarrow> Leaf
      | Node lc x rc \<Rightarrow> Node (assemble_l l lc) x (assemble_r r rc))"

function splay_loop :: "addr_t \<Rightarrow> range_node_t \<Rightarrow> l_spine \<Rightarrow> r_spine \<Rightarrow> range_node_t" where
  "splay_loop key t l r =
     (case t of Leaf \<Rightarrow> Leaf
      | Node _ x _ \<Rightarrow>
        if key < base x then
          (case rotate_lc key t of Leaf \<Rightarrow> Leaf
           | Node lc y rc \<Rightarrow>
             if lc = Leaf then splay_end (Node lc y rc) l r
             else splay_loop key lc l ((y, rc) # r))
        else if key > base x then
          (case rotate_rc key t of Leaf \<Rightarrow> Leaf
           | Node lc y rc \<Rightarrow>
             if rc = Leaf then splay_end (Node lc y rc) l r
             else splay_loop key rc ((lc, y) # l) r)
        else splay_end t l r)"
  by pat_completeness auto
termination
proof (relation "measure (\<lambda>(key, t, l, r). size t)", simp, goal_cases)
  case (1 key t l r a x b lc y rc)
  then have "size t = size (Node lc y rc)" by (metis size_rotate_lc)
  then show ?case by simp
next
  case (2 key t l r a x b lc y rc)
  then have "size t = size (Node lc y rc)" by (metis size_rotate_rc)
  then show ?case by simp
qed

declare splay_loop.simps [simp del]

definition splay :: "range_node_t \<Rightarrow> addr_t \<Rightarrow> range_node_t" where
  "splay t key = splay_loop key t [] []"

section \<open>Overlap of two ranges\<close>

text \<open>The two out-parameters are the result when it is true.\<close>

definition overlap :: "mem_range_t \<Rightarrow> mem_range_t \<Rightarrow> (addr_t \<times> size_t) option" where
  "overlap b r =
     (if base b \<le> base r then
        if base b + rsize b > base r then
          if base b + rsize b \<le> base r + rsize r
          then Some (base r, base b + rsize b - base r)
          else Some (base r, rsize r)
        else None
      else
        if base r + rsize r > base b then
          if base r + rsize r \<le> base b + rsize b
          then Some (base b, base r + rsize r - base b)
          else Some (base b, rsize b)
        else None)"

definition new_range :: "addr_t \<Rightarrow> size_t \<Rightarrow> block option \<Rightarrow> mem_range_t" where
  "new_range b s obj = \<lparr>base = b, rsize = s, rec = obj, task = 0\<rparr>"

definition new_node :: "addr_t \<Rightarrow> size_t \<Rightarrow> block option \<Rightarrow> range_node_t" where
  "new_node b s obj = Node Leaf (new_range b s obj) Leaf"

definition union_ranges :: "mem_range_t \<Rightarrow> mem_range_t \<Rightarrow> addr_t \<times> size_t" where
  "union_ranges r1 r2 =
     (let ubase = min (base r1) (base r2)
      in (ubase, max (base r1 + rsize r1) (base r2 + rsize r2) - ubase))"

section \<open>Freeing and absorbing subtrees\<close>

text \<open>These functions count the freed nodes down in the map's size, which is their last argument.\<close>

fun free_subtree :: "range_node_t \<Rightarrow> size_t \<Rightarrow> size_t" where
  "free_subtree Leaf sz = sz"
| "free_subtree (Node lc r rc) sz = free_subtree rc (free_subtree lc sz) - 1"

fun absorb_left :: "range_node_t \<Rightarrow> mem_range_t \<Rightarrow> size_t \<Rightarrow> range_node_t \<times> mem_range_t \<times> size_t" where
  "absorb_left Leaf rg sz = (Leaf, rg, sz)"
| "absorb_left (Node lc r rc) rg sz =
     (if base rg > base r + rsize r then
        let (rc', rg', sz') = absorb_left rc rg sz in (Node lc r rc', rg', sz')
      else
        let oldbase = base rg;
            newbase = min (base r) (base rg);
            rg1 = rg\<lparr>base := newbase, rsize := oldbase + rsize rg - newbase\<rparr>
        in absorb_left lc rg1 (free_subtree (Node Leaf r rc) sz))"

fun absorb_right :: "range_node_t \<Rightarrow> mem_range_t \<Rightarrow> size_t \<Rightarrow> range_node_t \<times> mem_range_t \<times> size_t" where
  "absorb_right Leaf rg sz = (Leaf, rg, sz)"
| "absorb_right (Node lc r rc) rg sz =
     (if base rg + rsize rg < base r then
        let (lc', rg', sz') = absorb_right lc rg sz in (Node lc' r rc, rg', sz')
      else
        let rb = max (base rg + rsize rg) (base r + rsize r);
            rg1 = rg\<lparr>rsize := rb - base rg\<rparr>
        in absorb_right rc rg1 (free_subtree (Node lc r Leaf) sz))"

section \<open>Adding a range\<close>

definition map_add_range ::
    "map_t \<Rightarrow> addr_t \<Rightarrow> size_t \<Rightarrow> block option \<Rightarrow> (map_t \<times> mem_range_t) res" where
  "map_add_range m b s obj =
     (if \<not> s > 0 then Inl AssertFailed
      else let n = new_range b s obj in
      if root m = Leaf then Inr (m\<lparr>root := new_node b s obj, msize := 1\<rparr>, n)
      else case splay (root m) b of
        Leaf \<Rightarrow> Inl BadAccess
      | Node lc tp rc \<Rightarrow>
        let has_overlap = (overlap n tp \<noteq> None);
            bordering = (if base n < base tp then base n + rsize n = base tp
                         else base tp + rsize tp = base n)
        in if has_overlap \<or> bordering then
             let (ubase, usize) = union_ranges n tp;
                 tp1 = tp\<lparr>base := ubase, rsize := usize\<rparr>;
                 (lc', tp2, sz1) = absorb_left lc tp1 (msize m);
                 (rc', tp3, sz2) = absorb_right rc tp2 sz1
             in Inr (m\<lparr>root := Node lc' tp3 rc', msize := sz2\<rparr>, tp3)
           else if b < base tp then
             let (l', n', sz) = absorb_left lc n (msize m + 1)
             in Inr (m\<lparr>root := Node l' n' (Node Leaf tp rc), msize := sz\<rparr>, n')
           else if b > base tp then
             let (r', n', sz) = absorb_right rc n (msize m + 1)
             in Inr (m\<lparr>root := Node (Node lc tp Leaf) n' r', msize := sz\<rparr>, n')
           else Inr (m\<lparr>root := Node lc tp rc\<rparr>, tp))"


section \<open>Traversal is in order\<close>

lemma subtree_foreach_fold: "subtree_foreach t func s = fold func (inorder t) s"
  by (induction t arbitrary: s) simp_all

lemma subtree_inject_foldl: "subtree_inject t acc func = foldl func acc (inorder t)"
  by (induction t arbitrary: acc) simp_all

lemma map_foreach_fold: "map_foreach m func s = fold func (ranges m) s"
  by (simp add: map_foreach_def subtree_foreach_fold)

lemma map_inject_foldl: "map_inject m acc func = foldl func acc (ranges m)"
  by (simp add: map_inject_def subtree_inject_foldl)

lemma foldl_to_array_block: "foldl to_array_block acc rs = acc @ rs"
  by (induction rs arbitrary: acc) (simp_all add: to_array_block_def)

section \<open>Splaying keeps the ranges and splits them at the key\<close>

definition l_ranges :: "l_spine \<Rightarrow> mem_range_t list" where
  "l_ranges l = concat (rev (map (\<lambda>(lc, r). inorder lc @ [r]) l))"

definition r_ranges :: "r_spine \<Rightarrow> mem_range_t list" where
  "r_ranges rs = concat (map (\<lambda>(r, rc). r # inorder rc) rs)"

lemma l_ranges_simps [simp]:
  "l_ranges [] = []"
  "l_ranges ((lc, r) # l) = l_ranges l @ inorder lc @ [r]"
  by (simp_all add: l_ranges_def)

lemma r_ranges_simps [simp]:
  "r_ranges [] = []"
  "r_ranges ((r, rc) # rs) = r # inorder rc @ r_ranges rs"
  by (simp_all add: r_ranges_def)

lemma inorder_assemble_l [simp]: "inorder (assemble_l l t) = l_ranges l @ inorder t"
  by (induction l t rule: assemble_l.induct) auto

lemma inorder_assemble_r [simp]: "inorder (assemble_r r t) = inorder t @ r_ranges r"
  by (induction r t rule: assemble_r.induct) auto

lemma inorder_rotate_lc [simp]: "inorder (rotate_lc key t) = inorder t"
  by (cases "(key, t)" rule: rotate_lc.cases) auto

lemma inorder_rotate_rc [simp]: "inorder (rotate_rc key t) = inorder t"
  by (cases "(key, t)" rule: rotate_rc.cases) auto

text \<open>A rotation keeps the root on its side of the key.\<close>

lemma rotate_lc_Node:
  assumes "key < base x"
  obtains lc y rc where "rotate_lc key (Node a x b) = Node lc y rc" and "key < base y"
    and "inorder (Node a x b) = inorder lc @ y # inorder rc"
    and "size lc < size (Node a x b)"
  using assms by (cases a; cases "key < base (value a)") auto

lemma rotate_rc_Node:
  assumes "base x < key"
  obtains lc y rc where "rotate_rc key (Node a x b) = Node lc y rc" and "base y < key"
    and "inorder (Node a x b) = inorder lc @ y # inorder rc"
    and "size rc < size (Node a x b)"
  using assms by (cases b; cases "base (value b) < key") auto

text \<open>
  One pass of the splay loop, as an induction rule: a property of the final tree follows from
  the three ways in which the loop ends and the two ways in which it goes on.
\<close>

lemma splay_loop_induct [consumes 1, case_names Found Less_end Less Greater_end Greater]:
  assumes "t \<noteq> Leaf"
    and found: "\<And>a x b l r. key = base x \<Longrightarrow> P (Node a x b) l r (splay_end (Node a x b) l r)"
    and less_end: "\<And>t y rc l r. key < base y \<Longrightarrow> inorder t = y # inorder rc \<Longrightarrow>
      P t l r (splay_end (Node Leaf y rc) l r)"
    and less: "\<And>t lc y rc l r t'. key < base y \<Longrightarrow> inorder t = inorder lc @ y # inorder rc \<Longrightarrow>
      P lc l ((y, rc) # r) t' \<Longrightarrow> P t l r t'"
    and greater_end: "\<And>t lc y l r. base y < key \<Longrightarrow> inorder t = inorder lc @ [y] \<Longrightarrow>
      P t l r (splay_end (Node lc y Leaf) l r)"
    and greater: "\<And>t lc y rc l r t'. base y < key \<Longrightarrow> inorder t = inorder lc @ y # inorder rc \<Longrightarrow>
      P rc ((lc, y) # l) r t' \<Longrightarrow> P t l r t'"
  shows "P t l r (splay_loop key t l r)"
  using assms(1)
proof (induction "size t" arbitrary: t l r rule: less_induct)
  case less
  obtain a x b where t: "t = Node a x b"
    using less.prems by (cases t) auto
  consider "key < base x" | "base x < key" | "key = base x" by fastforce
  then show ?case
  proof cases
    case 1
    obtain lc y rc where *: "rotate_lc key t = Node lc y rc" "key < base y"
      "inorder t = inorder lc @ y # inorder rc" "size lc < size t"
      using rotate_lc_Node [OF 1] unfolding t by metis
    then have "splay_loop key t l r =
        (if lc = Leaf then splay_end (Node lc y rc) l r else splay_loop key lc l ((y, rc) # r))"
      using 1 t by (subst splay_loop.simps) simp
    then show ?thesis
      using * less.hyps [of lc l "(y, rc) # r"] assms(3) [of y t rc l r] assms(4) [of y t lc rc l r]
      by (cases "lc = Leaf") auto
  next
    case 2
    obtain lc y rc where *: "rotate_rc key t = Node lc y rc" "base y < key"
      "inorder t = inorder lc @ y # inorder rc" "size rc < size t"
      using rotate_rc_Node [OF 2] unfolding t by metis
    then have "splay_loop key t l r =
        (if rc = Leaf then splay_end (Node lc y rc) l r else splay_loop key rc ((lc, y) # l) r)"
      using 2 t by (subst splay_loop.simps) auto
    then show ?thesis
      using * less.hyps [of rc "(lc, y) # l" r] greater_end [of y t lc l r] greater [of y t lc rc l r]
      by (cases "rc = Leaf") auto
  next
    case 3
    then have "splay_loop key t l r = splay_end t l r"
      using t by (subst splay_loop.simps) simp
    then show ?thesis using 3 t found by simp
  qed
qed

lemma inorder_splay_loop:
  "t \<noteq> Leaf \<Longrightarrow> inorder (splay_loop key t l r) = l_ranges l @ inorder t @ r_ranges r"
  by (induction key t l r rule: splay_loop_induct) (simp_all add: splay_end_def)

lemma splay_Leaf [simp]: "splay Leaf key = Leaf"
  by (simp add: splay_def splay_loop.simps)

lemma inorder_splay [simp]: "inorder (splay t key) = inorder t"
proof (cases "t = Leaf")
  case False
  then show ?thesis by (simp add: splay_def inorder_splay_loop)
qed simp

lemma splay_eq_Leaf_iff [simp]: "splay t key = Leaf \<longleftrightarrow> t = Leaf"
  by (metis eq_inorder_Nil inorder_splay)

lemma size_splay [simp]: "size (splay t key) = size t"
  by (metis inorder_splay length_inorder)

fun splits_at :: "addr_t \<Rightarrow> range_node_t \<Rightarrow> bool" where
  "splits_at key Leaf = True"
| "splits_at key (Node lc x rc) =
     ((\<forall>r \<in> set (inorder lc). base r < key) \<and> (\<forall>r \<in> set (inorder rc). key < base r))"

lemma splay_loop_splits:
  "t \<noteq> Leaf \<Longrightarrow> base_sorted (inorder t) \<Longrightarrow>
   \<forall>x \<in> set (l_ranges l). base x < key \<Longrightarrow> \<forall>x \<in> set (r_ranges r). key < base x \<Longrightarrow>
   splits_at key (splay_loop key t l r)"
  by (induction key t l r rule: splay_loop_induct)
    (fastforce simp: splay_end_def sorted_wrt_append ball_Un)+

lemma splay_splits: "base_sorted (inorder t) \<Longrightarrow> splits_at key (splay t key)"
  using splay_loop_splits [of t "[]" key "[]"] by (cases "t = Leaf") (simp_all add: splay_def [of t])

text \<open>What a client learns from a splay of a tree whose ranges are ordered.\<close>

lemma splay_NodeE:
  assumes "splay t key = Node lc x rc" and "ordered (inorder t)"
  obtains "inorder t = inorder lc @ x # inorder rc"
    and "\<forall>r \<in> set (inorder lc). base r < key \<and> rend r \<le> base x"
    and "\<forall>r \<in> set (inorder rc). key < base r \<and> rend x \<le> base r"
    and "base x < rend x"
proof
  show *: "inorder t = inorder lc @ x # inorder rc"
    using inorder_splay [of t key] assms(1) by simp
  have "splits_at key (Node lc x rc)"
    using splay_splits [OF ordered_imp_base_sorted [OF assms(2)], of key] assms(1) by simp
  then show "\<forall>r \<in> set (inorder lc). base r < key \<and> rend r \<le> base x"
    and "\<forall>r \<in> set (inorder rc). key < base r \<and> rend x \<le> base r" and "base x < rend x"
    using assms(2) by (auto simp: * sep_simps valid_def)
qed

section \<open>The overlap test\<close>

lemma overlap_None_iff:
  assumes "valid b" and "valid r"
  shows "overlap b r = None \<longleftrightarrow> rend b \<le> base r \<or> rend r \<le> base b"
  using assms by (auto simp: overlap_def valid_def simp flip: rend_def)

lemma overlap_SomeD:
  assumes "overlap b r = Some (ob, os)"
  shows "ob = max (base b) (base r)" and "ob + os = min (rend b) (rend r)"
  using assms by (auto simp: overlap_def split: if_splits simp flip: rend_def)

lemma overlap_valid:
  assumes "overlap b r = Some (ob, os)" and "valid b" and "valid r"
  shows "ob < ob + os"
  unfolding overlap_SomeD [OF assms(1)]
  using assms by (auto simp: overlap_def valid_def split: if_splits simp flip: rend_def)

section \<open>Absorption\<close>

lemma free_subtree_size: "free_subtree t sz = sz - of_nat (size t)"
  by (induction t arbitrary: sz) simp_all

lemma absorb_left_size:
  "absorb_left t rg sz = (t', rg', sz') \<Longrightarrow> sz' = sz + of_nat (size t') - of_nat (size t)"
proof (induction t rg sz arbitrary: t' rg' sz' rule: absorb_left.induct)
  case (2 lc r rc rg sz)
  then show ?case
    by (force simp: free_subtree_size Let_def algebra_simps split: if_splits prod.splits)
qed simp

lemma absorb_right_size:
  "absorb_right t rg sz = (t', rg', sz') \<Longrightarrow> sz' = sz + of_nat (size t') - of_nat (size t)"
proof (induction t rg sz arbitrary: t' rg' sz' rule: absorb_right.induct)
  case (2 lc r rc rg sz)
  then show ?case
    by (force simp: free_subtree_size Let_def algebra_simps split: if_splits prod.splits)
qed simp

text \<open>
  Absorbing into a range \<open>rg\<close> from the left keeps the ranges that end before it begins, drops the
  ones that reach it, and moves the beginning of \<open>rg\<close> down to the lowest of those.
\<close>

definition lowered :: "mem_range_t list \<Rightarrow> mem_range_t \<Rightarrow> mem_range_t \<Rightarrow> bool" where
  "lowered xs rg rg' \<longleftrightarrow>
     rend rg' = rend rg \<and> rec rg' = rec rg \<and> task rg' = task rg \<and> base rg' \<le> base rg \<and>
     (\<forall>x \<in> set xs. base rg \<le> rend x \<longrightarrow> base rg' \<le> base x) \<and>
     (base rg' = base rg \<or> (\<exists>x \<in> set xs. base rg \<le> rend x \<and> base rg' = base x))"

definition raised :: "mem_range_t list \<Rightarrow> mem_range_t \<Rightarrow> mem_range_t \<Rightarrow> bool" where
  "raised xs rg rg' \<longleftrightarrow>
     base rg' = base rg \<and> rec rg' = rec rg \<and> task rg' = task rg \<and> rend rg \<le> rend rg' \<and>
     (\<forall>x \<in> set xs. base x \<le> rend rg \<longrightarrow> rend x \<le> rend rg') \<and>
     (rend rg' = rend rg \<or> (\<exists>x \<in> set xs. base x \<le> rend rg \<and> rend rg' = rend x))"

lemma absorb_left_spec:
  assumes "absorb_left t rg sz = (t', rg', sz')"
    and "apart (inorder t)" and "\<forall>x \<in> set (inorder t). base x < base rg"
  shows "inorder t' = filter (\<lambda>x. rend x < base rg) (inorder t) \<and> lowered (inorder t) rg rg'"
  using assms
proof (induction t rg sz arbitrary: t' rg' sz' rule: absorb_left.induct)
  case (1 rg sz)
  then show ?case by (simp add: lowered_def)
next
  case (2 lc r rc rg sz)
  have r: "base r < base rg" and lc: "\<forall>x \<in> set (inorder lc). rend x < base r \<and> base x < base r"
    and rc: "\<forall>x \<in> set (inorder rc). rend r < base x \<and> base x < base rg"
    using "2.prems"(2,3) apart_valid by (fastforce simp: sep_simps)+
  show ?case
  proof (cases "base rg > rend r")
    case True
    then obtain rc1 where rec: "absorb_left rc rg sz = (rc1, rg', sz')" and t': "t' = Node lc r rc1"
      using "2.prems"(1) by (auto simp: rend_def split: prod.splits)
    have "inorder rc1 = filter (\<lambda>x. rend x < base rg) (inorder rc) \<and> lowered (inorder rc) rg rg'"
      using "2.IH"(1) [OF _ rec] True rc "2.prems"(2) by (simp add: rend_def sep_simps)
    moreover have "filter (\<lambda>x. rend x < base rg) (inorder lc) = inorder lc"
      using lc r by (force simp: filter_id_conv)
    ultimately show ?thesis using True lc r by (auto simp: t' lowered_def)
  next
    case False
    define rg1 where "rg1 = rg\<lparr>base := base r, rsize := rend rg - base r\<rparr>"
    have rec: "absorb_left lc rg1 (free_subtree (Node Leaf r rc) sz) = (t', rg', sz')"
      using "2.prems"(1) False r by (simp add: rg1_def rend_def min_def Let_def split: if_splits)
    have rg1: "rg1 = rg\<lparr>base := min (base r) (base rg),
        rsize := base rg + rsize rg - min (base r) (base rg)\<rparr>"
      using r by (simp add: rg1_def rend_def min_def)
    have "\<not> base r + rsize r < base rg" and "apart (inorder lc)"
      and "\<forall>x \<in> set (inorder lc). base x < base rg1"
      using False "2.prems"(2) lc by (simp_all add: rend_def sep_simps rg1_def)
    then have "inorder t' = filter (\<lambda>x. rend x < base rg1) (inorder lc) \<and> lowered (inorder lc) rg1 rg'"
      using "2.IH"(2) [OF _ refl refl rg1 rec] by blast
    then have *: "inorder t' = filter (\<lambda>x. rend x < base r) (inorder lc) \<and> lowered (inorder lc) rg1 rg'"
      by (simp add: rg1_def)
    have "rc = Leaf"
      using rc False by (cases "inorder rc") auto
    moreover have "filter (\<lambda>x. rend x < base rg) (inorder lc) = inorder lc"
      "filter (\<lambda>x. rend x < base r) (inorder lc) = inorder lc"
      using lc r by (force simp: filter_id_conv)+
    moreover have "base rg' = base r \<and> rend rg' = rend rg \<and> rec rg' = rec rg \<and> task rg' = task rg"
    proof -
      have "\<not> base r \<le> rend x" if "x \<in> set (inorder lc)" for x
        using bspec [OF lc that] by auto
      then show ?thesis using conjunct2 [OF *] unfolding lowered_def rg1_def by auto
    qed
    moreover have "\<forall>x \<in> set (inorder lc). \<not> base rg \<le> rend x"
      using lc r by fastforce
    ultimately show ?thesis using conjunct1 [OF *] False r by (auto simp: lowered_def)
  qed
qed

lemma raised_step:
  assumes "raised ys (rg\<lparr>rsize := max (rend rg) (rend r) - base rg\<rparr>) rg'"
    and "base r \<le> rend rg" and xs: "\<forall>x \<in> set xs. rend x < base r"
    and ys: "\<forall>y \<in> set ys. rend r < base y"
  shows "raised (xs @ r # ys) rg rg'"
proof -
  let ?e = "max (rend rg) (rend r)"
  have R: "base rg' = base rg" "rec rg' = rec rg" "task rg' = task rg" "?e \<le> rend rg'"
    "\<And>y. y \<in> set ys \<Longrightarrow> base y \<le> ?e \<Longrightarrow> rend y \<le> rend rg'"
    "rend rg' = ?e \<or> (\<exists>y \<in> set ys. base y \<le> ?e \<and> rend rg' = rend y)"
    using assms(1) by (simp_all add: raised_def)
  have "rend x \<le> rend rg'" if "x \<in> set xs" for x
    using bspec [OF xs that] assms(2) R(4) by (auto simp: max_def split: if_splits)
  moreover have "base y \<le> rend rg" if "y \<in> set ys" "base y \<le> ?e" for y
    using bspec [OF ys that(1)] that(2) by (auto simp: max_def split: if_splits)
  ultimately show ?thesis
    using R assms(2) by (auto simp: raised_def max_def split: if_splits)
qed

lemma absorb_right_spec:
  assumes "absorb_right t rg sz = (t', rg', sz')"
    and "apart (inorder t)"
  shows "inorder t' = filter (\<lambda>x. rend rg < base x) (inorder t) \<and> raised (inorder t) rg rg'"
  using assms
proof (induction t rg sz arbitrary: t' rg' sz' rule: absorb_right.induct)
  case (1 rg sz)
  then show ?case by (simp add: raised_def)
next
  case (2 lc r rc rg sz)
  have lc: "\<forall>x \<in> set (inorder lc). rend x < base r \<and> base x < base r"
    and rc: "\<forall>x \<in> set (inorder rc). rend r < base x" and r: "base r < rend r"
    using "2.prems"(2) apart_valid by (fastforce simp: sep_simps valid_def)+
  show ?case
  proof (cases "rend rg < base r")
    case True
    then obtain lc1 where rec: "absorb_right lc rg sz = (lc1, rg', sz')" and t': "t' = Node lc1 r rc"
      using "2.prems"(1) by (auto simp: rend_def split: prod.splits)
    have "inorder lc1 = filter (\<lambda>x. rend rg < base x) (inorder lc) \<and> raised (inorder lc) rg rg'"
      using "2.IH"(1) [OF _ rec] True "2.prems"(2) by (simp add: rend_def sep_simps)
    moreover have "filter (\<lambda>x. rend rg < base x) (inorder rc) = inorder rc"
      using rc r True by (force simp: filter_id_conv)
    ultimately show ?thesis using True rc r by (auto simp: t' raised_def)
  next
    case False
    define rg1 where "rg1 = rg\<lparr>rsize := max (rend rg) (rend r) - base rg\<rparr>"
    have rec: "absorb_right rc rg1 (free_subtree (Node lc r Leaf) sz) = (t', rg', sz')"
      using "2.prems"(1) False by (simp add: rg1_def rend_def Let_def split: if_splits)
    have *: "inorder t' = filter (\<lambda>x. max (rend rg) (rend r) < base x) (inorder rc) \<and>
        raised (inorder rc) rg1 rg'"
      using "2.IH"(2) [of "max (rend rg) (rend r)" rg1] rec False "2.prems"(2)
      by (auto simp: rend_def sep_simps rg1_def)
    have "filter (\<lambda>x. max (rend rg) (rend r) < base x) (inorder rc) =
        filter (\<lambda>x. rend rg < base x) (inorder rc)"
      using rc by (intro filter_cong) auto
    moreover have "filter (\<lambda>x. rend rg < base x) (inorder lc) = []"
      using lc False by (auto simp: filter_empty_conv)
    moreover have "raised (inorder (Node lc r rc)) rg rg'"
      using raised_step [of "inorder rc" rg r rg' "inorder lc"] * False lc rc by (simp add: rg1_def)
    ultimately show ?thesis using * False by simp
  qed
qed

section \<open>What map\_add\_range does to the ranges\<close>

definition touches :: "addr_t \<Rightarrow> addr_t \<Rightarrow> mem_range_t \<Rightarrow> bool" where
  "touches b e x \<longleftrightarrow> b \<le> rend x \<and> base x \<le> e"

text \<open>
  Adding \<open>[b, e)\<close> replaces the ranges that touch it by one range \<open>r'\<close>.  That range begins at the
  lowest beginning and covers the end of every range it replaces, with one exception: the end of a
  range that begins below \<open>b\<close> and ends above \<open>e\<close> may be lost.
\<close>

definition add_spec ::
    "mem_range_t list \<Rightarrow> addr_t \<Rightarrow> addr_t \<Rightarrow> mem_range_t list \<Rightarrow> mem_range_t \<Rightarrow> bool" where
  "add_spec rs b e rs' r' \<longleftrightarrow>
     rs' = filter (\<lambda>x. rend x < b) rs @ r' # filter (\<lambda>x. e < base x) rs \<and>
     base r' \<le> b \<and> e \<le> rend r' \<and>
     (\<forall>x \<in> set rs. touches b e x \<longrightarrow> base r' \<le> base x) \<and>
     (\<forall>x \<in> set rs. touches b e x \<longrightarrow> rend x \<le> rend r' \<or> base x < b \<and> e < rend x) \<and>
     (base r' = b \<or> (\<exists>x \<in> set rs. touches b e x \<and> base r' = base x)) \<and>
     (rend r' = e \<or> (\<exists>x \<in> set rs. touches b e x \<and> rend r' = rend x))"

lemma add_spec_left:
  assumes rs: "rs = inorder lc @ tp # inorder rc" "apart rs" "\<forall>x \<in> set (inorder lc). base x < b"
    and n: "base n = b" "rend n = e" "b < e" and tp: "e < base tp"
    and ab: "absorb_left lc n sz = (l', n', sz')"
  shows "add_spec rs b e (inorder l' @ n' # tp # inorder rc) n'"
proof -
  have l': "inorder l' = filter (\<lambda>x. rend x < b) (inorder lc)" and low: "lowered (inorder lc) n n'"
    using absorb_left_spec [OF ab] rs n by (simp_all add: sep_simps)
  have R: "base tp < rend tp" "\<forall>x \<in> set (inorder rc). base tp < base x \<and> base x < rend x"
    using rs apart_valid [of rs] by (fastforce simp: sep_simps valid_def)+
  have L: "\<not> e < base x" if "x \<in> set (inorder lc)" for x
    using that rs(3) n(3) by fastforce
  have "filter (\<lambda>x. rend x < b) (tp # inorder rc) = []"
    using R tp n by (fastforce simp: filter_empty_conv)
  moreover have "filter (\<lambda>x. e < base x) rs = tp # inorder rc"
    using R tp L by (force simp: rs(1) filter_empty_conv filter_id_conv)
  moreover have "\<not> touches b e x" if "x \<in> set (tp # inorder rc)" for x
    using that R tp by (fastforce simp: touches_def)
  ultimately show ?thesis
    using l' low n L rs(3) unfolding add_spec_def lowered_def
    by (auto simp: rs(1) touches_def not_less)
qed

lemma add_spec_right:
  assumes rs: "rs = inorder lc @ tp # inorder rc" "apart rs" "\<forall>x \<in> set (inorder rc). b < base x"
    and n: "base n = b" "rend n = e" "b < e" and tp: "rend tp < b"
    and ab: "absorb_right rc n sz = (r', n', sz')"
  shows "add_spec rs b e (inorder lc @ tp # n' # inorder r') n'"
proof -
  have r': "inorder r' = filter (\<lambda>x. e < base x) (inorder rc)" and up: "raised (inorder rc) n n'"
    using absorb_right_spec [OF ab] rs n by (simp_all add: sep_simps)
  have L: "base tp < rend tp" "\<forall>x \<in> set (inorder lc). base x < rend x \<and> rend x < base tp"
    using rs apart_valid [of rs] by (fastforce simp: sep_simps valid_def)+
  have R: "\<not> rend x < b" if "x \<in> set (inorder rc)" for x
    using that rs(3) apart_valid [OF rs(2), of x] by (force simp: rs(1))
  have "rend x < b" if "x \<in> set (inorder lc)" for x
    using that L tp by fastforce
  then have "filter (\<lambda>x. rend x < b) rs = inorder lc @ [tp]"
    using tp R by (simp add: rs(1) filter_empty_conv filter_id_conv)
  moreover have "filter (\<lambda>x. e < base x) (inorder lc @ [tp]) = []"
    using L tp n by (force simp: filter_empty_conv)
  moreover have T: "x \<in> set rs \<and> touches b e x \<longleftrightarrow> x \<in> set (inorder rc) \<and> base x \<le> e" for x
  proof -
    have "\<not> touches b e x" if "x \<in> set (inorder lc @ [tp])"
      using that L tp by (fastforce simp: touches_def)
    then show ?thesis using R [of x] by (auto simp: rs(1) touches_def not_less)
  qed
  have B: "(\<forall>x \<in> set rs. touches b e x \<longrightarrow> P x) \<longleftrightarrow> (\<forall>x \<in> set (inorder rc). base x \<le> e \<longrightarrow> P x)"
    "(\<exists>x \<in> set rs. touches b e x \<and> P x) \<longleftrightarrow> (\<exists>x \<in> set (inorder rc). base x \<le> e \<and> P x)" for P
    using T by blast+
  have "\<forall>x \<in> set (inorder rc). b \<le> base x" using rs(3) by (auto intro: less_imp_le)
  ultimately show ?thesis
    using r' up n unfolding add_spec_def raised_def B by (auto simp: rs(1))
qed

lemma add_spec_merge:
  assumes rs: "rs = inorder lc @ tp # inorder rc" "apart rs"
    "\<forall>x \<in> set (inorder lc). base x < b" "\<forall>x \<in> set (inorder rc). b < base x"
    and tp: "b < e" "touches b e tp" "base tp1 = min b (base tp)" "rend tp1 = max e (rend tp)"
    and abl: "absorb_left lc tp1 sz = (lc', tp2, sz1)"
    and abr: "absorb_right rc tp2 sz1 = (rc', tp3, sz2)"
  shows "add_spec rs b e (inorder lc' @ tp3 # inorder rc') tp3"
proof -
  have L: "\<And>x. x \<in> set (inorder lc) \<Longrightarrow> base x < b \<and> base x < base tp \<and> rend x < base tp"
    and R: "\<And>x. x \<in> set (inorder rc) \<Longrightarrow> b < base x \<and> rend tp < base x \<and> base x < rend x"
    and t: "base tp < rend tp"
    using rs apart_valid [of rs] by (fastforce simp: sep_simps valid_def)+
  have left: "inorder lc' = filter (\<lambda>x. rend x < base tp1) (inorder lc)" "lowered (inorder lc) tp1 tp2"
    using absorb_left_spec [OF abl] rs L tp(3) by (simp_all add: sep_simps)
  have right: "inorder rc' = filter (\<lambda>x. rend tp2 < base x) (inorder rc)" "raised (inorder rc) tp2 tp3"
    using absorb_right_spec [OF abr] rs by (simp_all add: sep_simps)
  have "inorder lc' @ tp3 # inorder rc' = filter (\<lambda>x. rend x < b) rs @ tp3 # filter (\<lambda>x. e < base x) rs"
  proof -
    have "inorder lc' = filter (\<lambda>x. rend x < b) (inorder lc)"
      unfolding left(1) using L tp(3) by (intro filter_cong) auto
    moreover have "inorder rc' = filter (\<lambda>x. e < base x) (inorder rc)"
      unfolding right(1) using left(2) R tp(4) by (intro filter_cong) (auto simp: lowered_def)
    moreover have "filter (\<lambda>x. rend x < b) (tp # inorder rc) = []"
      using R t tp(2) by (fastforce simp: filter_empty_conv touches_def)
    moreover have "filter (\<lambda>x. e < base x) (inorder lc @ [tp]) = []"
      using L tp(1,2) by (fastforce simp: filter_empty_conv touches_def)
    ultimately show ?thesis by (simp add: rs(1) split: if_splits)
  qed
  moreover
  have "base tp1 \<le> rend x \<longleftrightarrow> touches b e x" if "x \<in> set (inorder lc)" for x
    using L [OF that] tp(1,3) by (auto simp: touches_def min_def)
  then have lo: "base tp3 \<le> b" "base tp3 \<le> base tp" "rend tp2 = rend tp1"
    "\<forall>x \<in> set (inorder lc). touches b e x \<longrightarrow> base tp3 \<le> base x"
    "base tp3 = b \<or> base tp3 = base tp \<or> (\<exists>x \<in> set (inorder lc). touches b e x \<and> base tp3 = base x)"
    using left(2) right(2) tp(3) unfolding lowered_def raised_def min_def by (metis order_trans linear)+
  moreover
  have "base x \<le> rend tp2 \<longleftrightarrow> touches b e x" if "x \<in> set (inorder rc)" for x
    using R [OF that] tp(1,4) lo(3) by (auto simp: touches_def max_def)
  then have hi: "e \<le> rend tp3" "rend tp \<le> rend tp3"
    "\<forall>x \<in> set (inorder rc). touches b e x \<longrightarrow> rend x \<le> rend tp3"
    "rend tp3 = e \<or> rend tp3 = rend tp \<or> (\<exists>x \<in> set (inorder rc). touches b e x \<and> rend tp3 = rend x)"
    using right(2) tp(4) lo(3) unfolding raised_def max_def by (metis order_trans linear)+
  moreover have "base tp3 \<le> base x" if "x \<in> set (inorder rc)" for x
    using R [OF that] lo(1) by auto
  moreover have "rend x \<le> rend tp3" if "x \<in> set (inorder lc)" for x
    using L [OF that] hi(2) t by auto
  ultimately show ?thesis
    using tp(2) unfolding add_spec_def rs(1) by auto
qed

text \<open>The consequences of the specification, independent of the tree.\<close>

lemma add_spec_apart:
  assumes "add_spec rs b e rs' r'" and "apart rs" and "b < e"
  shows "apart rs'"
proof -
  have S: "rs' = filter (\<lambda>x. rend x < b) rs @ r' # filter (\<lambda>x. e < base x) rs" "base r' \<le> b" "e \<le> rend r'"
    "base r' = b \<or> (\<exists>x \<in> set rs. touches b e x \<and> base r' = base x)"
    "rend r' = e \<or> (\<exists>x \<in> set rs. touches b e x \<and> rend r' = rend x)"
    using assms(1) unfolding add_spec_def by blast+
  have "rend x < base r'" if "x \<in> set rs" "rend x < b" for x
    using S(4) that apart_cases [OF assms(2) that(1)] apart_valid [OF assms(2) that(1)]
    by (fastforce simp: touches_def)
  moreover have "rend r' < base x" if "x \<in> set rs" "e < base x" for x
    using S(5) that apart_cases [OF assms(2) that(1)] apart_valid [OF assms(2) that(1)]
    by (fastforce simp: touches_def)
  moreover have "rend x < base y" if "rend x < b" "e < base y" for x y
    using that assms(3) by simp
  ultimately show ?thesis
    using assms(2,3) S(1-3) by (auto simp: sep_simps valid_def intro: apart_filter)
qed

lemma add_spec_covers:
  assumes "add_spec rs b e rs' r'"
  shows "{b ..< e} \<subseteq> bytes rs'" and "{b ..< e} \<subseteq> range_bytes r'"
  using assms by (auto simp: add_spec_def mem_bytes)

lemma add_spec_bytes_subset:
  assumes "add_spec rs b e rs' r'"
  shows "bytes rs' \<subseteq> bytes rs \<union> {b ..< e}"
proof -
  have "range_bytes r' \<subseteq> bytes rs \<union> {b ..< e}"
  proof
    fix a assume a: "a \<in> range_bytes r'"
    consider "a < b" | "b \<le> a" "a < e" | "e \<le> a" by fastforce
    then show "a \<in> bytes rs \<union> {b ..< e}"
    proof cases
      case 1
      with a assms obtain x where "x \<in> set rs" "touches b e x" "base r' = base x"
        unfolding add_spec_def by auto
      with a 1 show ?thesis by (force simp: mem_bytes touches_def)
    next
      case 2
      then show ?thesis by simp
    next
      case 3
      with a assms obtain x where "x \<in> set rs" "touches b e x" "rend r' = rend x"
        unfolding add_spec_def by auto
      with a 3 show ?thesis by (auto simp: mem_bytes touches_def intro!: bexI [of _ x])
    qed
  qed
  moreover have "bytes (filter P rs) \<subseteq> bytes rs" for P by (auto simp: mem_bytes)
  ultimately show ?thesis using assms unfolding add_spec_def by auto
qed

lemma add_spec_bytes:
  assumes "add_spec rs b e rs' r'" and "\<forall>x \<in> set rs. \<not> (base x < b \<and> e < rend x)"
  shows "bytes rs' = bytes rs \<union> {b ..< e}"
proof
  show "bytes rs' \<subseteq> bytes rs \<union> {b ..< e}" by (rule add_spec_bytes_subset [OF assms(1)])
  have "range_bytes x \<subseteq> bytes rs'" if "x \<in> set rs" for x
  proof (cases "touches b e x")
    case True
    with that assms have "base r' \<le> base x" "rend x \<le> rend r'" unfolding add_spec_def by auto
    then have "range_bytes x \<subseteq> range_bytes r'" by auto
    with assms(1) show ?thesis unfolding add_spec_def by auto
  next
    case False
    then have "rend x < b \<or> e < base x" by (auto simp: touches_def)
    with that assms(1) have "x \<in> set rs'" unfolding add_spec_def by auto
    then show ?thesis by (auto simp: bytes_def)
  qed
  then have "bytes rs \<subseteq> bytes rs'" by (auto simp: bytes_def)
  with add_spec_covers(1) [OF assms(1)] show "bytes rs \<union> {b ..< e} \<subseteq> bytes rs'" by simp
qed

section \<open>The map invariant, and that map\_add\_range keeps it\<close>

definition map_ok :: "map_t \<Rightarrow> bool" where
  "map_ok m \<longleftrightarrow> apart (ranges m) \<and> msize m = of_nat (length (ranges m))"

lemma map_ok_init [simp]: "map_ok (init_empty_map res nm)"
  by (simp add: map_ok_def init_empty_map_def)

text \<open>The three branches taken once the tree is splayed, told apart by the root that came up.\<close>

definition merges :: "addr_t \<Rightarrow> size_t \<Rightarrow> mem_range_t \<Rightarrow> bool" where
  "merges b s tp \<longleftrightarrow> overlap (new_range b s None) tp \<noteq> None \<or>
     (if b < base tp then b + s = base tp else base tp + rsize tp = b)"

lemma merges_iff:
  assumes "b < b + s" and "base tp < rend tp"
  shows "merges b s tp \<longleftrightarrow> touches b (b + s) tp"
  using assms overlap_None_iff [of "new_range b s None" tp]
  by (auto simp: merges_def new_range_def valid_def touches_def simp flip: rend_def)

lemma new_range_simps [simp]:
  "base (new_range b s obj) = b" "rsize (new_range b s obj) = s" "rend (new_range b s obj) = b + s"
  "rec (new_range b s obj) = obj" "task (new_range b s obj) = 0"
  by (simp_all add: new_range_def rend_def)

lemma overlap_new_range: "overlap (new_range b s obj) tp = overlap (new_range b s None) tp"
  by (simp add: overlap_def)

lemma map_add_range_Node:
  assumes "splay (root m) b = Node lc tp rc" and "s > 0"
  shows "map_add_range m b s obj =
    (if merges b s tp then
       let (lc', tp2, sz1) = absorb_left lc
             (tp\<lparr>base := min b (base tp), rsize := max (b + s) (rend tp) - min b (base tp)\<rparr>) (msize m);
           (rc', tp3, sz2) = absorb_right rc tp2 sz1
       in Inr (m\<lparr>root := Node lc' tp3 rc', msize := sz2\<rparr>, tp3)
     else if b < base tp then
       let (l', n', sz) = absorb_left lc (new_range b s obj) (msize m + 1)
       in Inr (m\<lparr>root := Node l' n' (Node Leaf tp rc), msize := sz\<rparr>, n')
     else if b > base tp then
       let (r', n', sz) = absorb_right rc (new_range b s obj) (msize m + 1)
       in Inr (m\<lparr>root := Node (Node lc tp Leaf) n' r', msize := sz\<rparr>, n')
     else Inr (m\<lparr>root := Node lc tp rc\<rparr>, tp))"
proof -
  have "root m \<noteq> Leaf" using assms(1) by (metis splay_Leaf tree.distinct(1))
  then show ?thesis
    using assms
    by (simp add: map_add_range_def merges_def union_ranges_def rend_def overlap_new_range [of b s obj]
        Let_def cong: if_cong)
qed

lemma map_add_range_spec:
  assumes "apart (ranges m)" and "b < b + s"
  obtains m' r' where "map_add_range m b s obj = Inr (m', r')"
    and "add_spec (ranges m) b (b + s) (ranges m') r'"
    and "m' = m\<lparr>root := root m', msize := msize m'\<rparr>"
    and "msize m = of_nat (size (root m)) \<Longrightarrow> msize m' = of_nat (size (root m'))"
proof (cases "splay (root m) b")
  have s: "s > 0" using assms(2) by (auto simp: word_neq_0_conv [symmetric])
  case Leaf
  then have "root m = Leaf" by simp
  then show thesis
    using that [of "m\<lparr>root := new_node b s obj, msize := 1\<rparr>" "new_range b s obj"] s
    by (simp add: map_add_range_def new_node_def add_spec_def)
next
  have s: "s > 0" using assms(2) by (auto simp: word_neq_0_conv [symmetric])
  case (Node lc tp rc)
  have sz: "size (root m) = Suc (size lc + size rc)"
    using size_splay [of "root m" b] Node by simp
  from Node apart_imp_ordered [OF assms(1)]
  have ino: "ranges m = inorder lc @ tp # inorder rc" and v: "base tp < rend tp"
    and L: "\<forall>x \<in> set (inorder lc). base x < b" and R: "\<forall>x \<in> set (inorder rc). b < base x"
    by (rule splay_NodeE, blast)+
  note add = map_add_range_Node [OF Node s, unfolded merges_iff [OF assms(2) v]]
  consider (merge) "touches b (b + s) tp"
    | (left) "\<not> touches b (b + s) tp" "b + s < base tp"
    | (right) "\<not> touches b (b + s) tp" "rend tp < b"
    unfolding touches_def by (meson not_le)
  then show thesis
  proof cases
    case merge
    define tp1 where "tp1 = tp\<lparr>base := min b (base tp), rsize := max (b + s) (rend tp) - min b (base tp)\<rparr>"
    obtain lc' tp2 sz1 where l: "absorb_left lc tp1 (msize m) = (lc', tp2, sz1)" by (metis prod_cases3)
    obtain rc' tp3 sz2 where r: "absorb_right rc tp2 sz1 = (rc', tp3, sz2)" by (metis prod_cases3)
    have "base tp1 = min b (base tp)" "rend tp1 = max (b + s) (rend tp)" by (simp_all add: tp1_def)
    then have "add_spec (ranges m) b (b + s) (inorder lc' @ tp3 # inorder rc') tp3"
      by (rule add_spec_merge [OF ino assms(1) L R assms(2) merge _ _ l r])
    moreover have "map_add_range m b s obj = Inr (m\<lparr>root := Node lc' tp3 rc', msize := sz2\<rparr>, tp3)"
      using add merge l r by (simp add: tp1_def [symmetric])
    moreover have "sz2 = of_nat (size (Node lc' tp3 rc'))" if "msize m = of_nat (size (root m))"
      using absorb_left_size [OF l] absorb_right_size [OF r] sz that by simp
    ultimately show thesis
      using that [of "m\<lparr>root := Node lc' tp3 rc', msize := sz2\<rparr>" tp3] by simp
  next
    case left
    obtain l' n' sz' where l: "absorb_left lc (new_range b s obj) (msize m + 1) = (l', n', sz')"
      by (metis prod_cases3)
    have "add_spec (ranges m) b (b + s) (inorder l' @ n' # tp # inorder rc) n'"
      by (rule add_spec_left [OF ino assms(1) L _ _ assms(2) left(2) l]) simp_all
    moreover have "b < base tp" using left(2) assms(2) by simp
    then have "map_add_range m b s obj = Inr (m\<lparr>root := Node l' n' (Node Leaf tp rc), msize := sz'\<rparr>, n')"
      using add left(1) l by simp
    moreover have "sz' = of_nat (size (Node l' n' (Node Leaf tp rc)))" if "msize m = of_nat (size (root m))"
      using absorb_left_size [OF l] sz that by simp
    ultimately show thesis
      using that [of "m\<lparr>root := Node l' n' (Node Leaf tp rc), msize := sz'\<rparr>" n'] by simp
  next
    case right
    obtain r' n' sz' where r: "absorb_right rc (new_range b s obj) (msize m + 1) = (r', n', sz')"
      by (metis prod_cases3)
    have "add_spec (ranges m) b (b + s) (inorder lc @ tp # n' # inorder r') n'"
      by (rule add_spec_right [OF ino assms(1) R _ _ assms(2) right(2) r]) simp_all
    moreover have "base tp < b" "\<not> b < base tp" using right(2) v by simp_all
    then have "map_add_range m b s obj = Inr (m\<lparr>root := Node (Node lc tp Leaf) n' r', msize := sz'\<rparr>, n')"
      using add right(1) r by simp
    moreover have "sz' = of_nat (size (Node (Node lc tp Leaf) n' r'))" if "msize m = of_nat (size (root m))"
      using absorb_right_size [OF r] sz that by simp
    ultimately show thesis
      using that [of "m\<lparr>root := Node (Node lc tp Leaf) n' r', msize := sz'\<rparr>" n'] by simp
  qed
qed

lemma map_add_range_ok:
  assumes "map_ok m" and "b < b + s"
  obtains m' r' where "map_add_range m b s obj = Inr (m', r')" and "map_ok m'"
    and "add_spec (ranges m) b (b + s) (ranges m') r'"
    and "m' = m\<lparr>root := root m', msize := msize m'\<rparr>"
  using assms map_add_range_spec [of m b s obj] add_spec_apart
  by (metis length_inorder map_ok_def)

text \<open>A range above all others and apart from them is appended as it is.\<close>

lemma map_add_range_append:
  assumes "map_ok m" and "b < b + s" and "\<forall>x \<in> set (ranges m). rend x < b"
  obtains m' where "map_add_range m b s obj = Inr (m', new_range b s obj)" and "map_ok m'"
    and "ranges m' = ranges m @ [new_range b s obj]"
    and "m' = m\<lparr>root := root m', msize := msize m'\<rparr>"
proof -
  obtain m' r' where m': "map_add_range m b s obj = Inr (m', r')" "map_ok m'"
    "add_spec (ranges m) b (b + s) (ranges m') r'" "m' = m\<lparr>root := root m', msize := msize m'\<rparr>"
    using map_add_range_ok [OF assms(1,2)] .
  have s: "s > 0" using assms(2) by (auto simp: word_neq_0_conv [symmetric])
  have "r' = new_range b s obj"
  proof (cases "splay (root m) b")
    case Leaf
    then show ?thesis using m'(1) s by (auto simp: map_add_range_def split: if_splits)
  next
    case (Node lc tp rc)
    from Node have "ordered (ranges m)" using assms(1) by (simp add: map_ok_def apart_imp_ordered)
    with Node have ino: "ranges m = inorder lc @ tp # inorder rc" and "base tp < rend tp"
      and R: "\<forall>x \<in> set (inorder rc). b < base x \<and> rend tp \<le> base x"
      by (rule splay_NodeE, blast)+
    moreover from this have tp: "\<not> touches b (b + s) tp" "base tp < b" "\<not> b < base tp"
      using assms(3) by (auto simp: touches_def)
    moreover have "rc = Leaf"
    proof (rule ccontr)
      assume "rc \<noteq> Leaf"
      then obtain x where "x \<in> set (inorder rc)" by (cases rc) auto
      moreover from this have "rend x < b" "base x < rend x"
        using assms(1,3) ino apart_valid [of "ranges m" x] by (auto simp: map_ok_def)
      ultimately show False using R by fastforce
    qed
    ultimately show ?thesis
      using m'(1) map_add_range_Node [OF Node s, of obj] merges_iff [OF assms(2), of tp] by simp
  qed
  moreover have "filter (\<lambda>x. rend x < b) (ranges m) = ranges m" using assms(3) by simp
  moreover have "\<not> b + s < base x" if "x \<in> set (ranges m)" for x
    using that assms apart_valid [of "ranges m" x] by (fastforce simp: map_ok_def)
  then have "filter (\<lambda>x. b + s < base x) (ranges m) = []" by (simp add: filter_empty_conv)
  ultimately show thesis using m' that by (simp add: add_spec_def)
qed

end
