(* ===== verification/Range_Ops.thy ===== *)
theory Range_Ops
  imports Range_Tree
begin

text \<open>
  The operations of \<^verbatim>\<open>range_tree/dtree.c\<close> on whole maps: search, the lowest overlap,
  intersection, union, cloning, subtraction, removal and clearing.

  A map argument of the sources is never null at the call sites, so it is a value here; the array
  that \<^verbatim>\<open>map_to_array\<close> allocates is the list it is filled with.  The two \<^verbatim>\<open>do ... while\<close> loops
  take a fuel argument, one more than the number of bytes of the range they walk through: each
  pass consumes at least one byte, so on a valid range the fuel is never used up.
\<close>

section \<open>Clearing, sizes and searching\<close>

definition map_clear :: "map_t \<Rightarrow> map_t" where
  "map_clear m = m\<lparr>root := Leaf, msize := 0\<rparr>"

fun subtree_size :: "range_node_t \<Rightarrow> addr_t" where
  "subtree_size Leaf = 0"
| "subtree_size (Node lc r rc) = rsize r + subtree_size lc + subtree_size rc"

definition map_size_in_bytes :: "map_t \<Rightarrow> addr_t" where
  "map_size_in_bytes m = subtree_size (root m)"

fun rightmost :: "range_node_t \<Rightarrow> mem_range_t option" where
  "rightmost Leaf = None"
| "rightmost (Node lc r rc) = (if rc = Leaf then Some r else rightmost rc)"

text \<open>The result is the map, whose root has changed, and the range found.\<close>

definition map_contains :: "map_t \<Rightarrow> addr_t \<Rightarrow> (map_t \<times> mem_range_t option) res" where
  "map_contains m addr =
     (if root m = Leaf then Inr (m, None)
      else let m1 = m\<lparr>root := splay (root m) addr\<rparr> in
      case root m1 of
        Leaf \<Rightarrow> Inl BadAccess
      | Node lc tp rc \<Rightarrow>
        if addr < base tp then
          (case rightmost lc of
             None \<Rightarrow> Inr (m1, None)
           | Some r \<Rightarrow>
             if \<not> base r \<le> addr then Inl AssertFailed
             else if base r + rsize r > addr then Inr (m1, Some r)
             else Inr (m1, None))
        else if base tp + rsize tp > addr then Inr (m1, Some tp)
        else Inr (m1, None))"

definition map_add_key_val :: "map_t \<Rightarrow> addr_t \<Rightarrow> block option \<Rightarrow> (map_t \<times> mem_range_t) res" where
  "map_add_key_val m key obj =
     (if \<not> is_hash m then Inl AssertFailed else map_add_range m key 1 obj)"

definition map_search_key :: "map_t \<Rightarrow> addr_t \<Rightarrow> (map_t \<times> block option) res" where
  "map_search_key m addr =
     (if \<not> is_hash m then Inl AssertFailed
      else res_bind (map_contains m addr) (\<lambda>(m', k).
        case k of Some r \<Rightarrow> Inr (m', rec r) | None \<Rightarrow> Inr (m', None)))"

section \<open>Overlap of a map and a range\<close>

fun subtree_overlaps :: "range_node_t \<Rightarrow> mem_range_t \<Rightarrow> (addr_t \<times> size_t) option" where
  "subtree_overlaps Leaf inp = None"
| "subtree_overlaps (Node lc r rc) inp =
     (if base r + rsize r \<le> base inp then subtree_overlaps rc inp
      else if base r > base inp + rsize inp then subtree_overlaps lc inp
      else case (if base r > base inp
                 then subtree_overlaps lc (new_range (base inp) (base r - base inp) None)
                 else None) of
             Some c \<Rightarrow> Some c
           | None \<Rightarrow> overlap r inp)"

definition map_overlaps :: "map_t \<Rightarrow> mem_range_t \<Rightarrow> (addr_t \<times> size_t) option" where
  "map_overlaps m inp = subtree_overlaps (root m) inp"

section \<open>Set operations\<close>

fun intersect_loop :: "nat \<Rightarrow> map_t \<Rightarrow> mem_range_t \<Rightarrow> map_t \<Rightarrow> map_t res" where
  "intersect_loop 0 ref_map rg m = Inl Diverges"
| "intersect_loop (Suc fuel) ref_map rg m =
     (case map_overlaps ref_map rg of
        None \<Rightarrow> Inr m
      | Some (obase, osize) \<Rightarrow>
        res_bind (map_add_range m obase osize (rec rg)) (\<lambda>(m', _).
          let old_bound = base rg + rsize rg;
              nbase = obase + osize;
              rg' = rg\<lparr>base := nbase, rsize := old_bound - nbase\<rparr>
          in if rsize rg' \<noteq> 0 then intersect_loop fuel ref_map rg' m' else Inr m'))"

definition map_intersect :: "map_t \<Rightarrow> map_t \<Rightarrow> map_t res" where
  "map_intersect base_map ref_map =
     (if root base_map = Leaf then Inr base_map
      else let rgs = array_ranges base_map; m = map_clear base_map in
      if root ref_map = Leaf then Inr m
      else res_fold (\<lambda>rg. intersect_loop (Suc (unat (rsize rg))) ref_map rg) rgs m)"

definition map_union :: "map_t \<Rightarrow> map_t \<Rightarrow> map_t res" where
  "map_union base_map ref_map =
     (if root ref_map = Leaf then Inr base_map
      else res_fold (\<lambda>rg m. res_bind (map_add_range m (base rg) (rsize rg) (rec rg)) (\<lambda>(m', _). Inr m'))
             (array_ranges ref_map) base_map)"

definition map_clone :: "map_t \<Rightarrow> mspace option \<Rightarrow> map_t res" where
  "map_clone source space =
     (let sp = (if space = None then residence source else space)
      in map_union (new_range_set sp ''clone'') source)"

fun subtract_loop :: "nat \<Rightarrow> map_t \<Rightarrow> mem_range_t \<Rightarrow> map_t \<Rightarrow> (mem_range_t \<times> map_t) res" where
  "subtract_loop 0 copy_map rg m = Inl Diverges"
| "subtract_loop (Suc fuel) copy_map rg m =
     (case map_overlaps copy_map rg of
        None \<Rightarrow> Inr (rg, m)
      | Some (obase, osize) \<Rightarrow>
        res_bind
          (if obase > base rg
           then res_bind (map_add_range m (base rg) (obase - base rg) (rec rg)) (\<lambda>(m', _). Inr m')
           else Inr m)
          (\<lambda>m'.
            let old_bound = base rg + rsize rg;
                nbase = obase + osize;
                rg' = rg\<lparr>base := nbase, rsize := old_bound - nbase\<rparr>
            in if rsize rg' \<noteq> 0 then subtract_loop fuel copy_map rg' m' else Inr (rg', m')))"

definition subtract_range :: "map_t \<Rightarrow> mem_range_t \<Rightarrow> map_t \<Rightarrow> map_t res" where
  "subtract_range copy_map rg m =
     res_bind (subtract_loop (Suc (unat (rsize rg))) copy_map rg m) (\<lambda>(rg', m').
       if rsize rg' \<noteq> 0
       then res_bind (map_add_range m' (base rg') (rsize rg') (rec rg')) (\<lambda>(m'', _). Inr m'')
       else Inr m')"

definition map_subtract :: "map_t \<Rightarrow> map_t \<Rightarrow> map_t res" where
  "map_subtract base_map ref_map =
     (if root ref_map = Leaf then Inr base_map
      else if root base_map = Leaf then Inr base_map
      else
        res_bind (map_union (new_range_set (residence base_map) ''map_subtract_temp'') base_map)
          (\<lambda>copy. res_bind (map_intersect copy ref_map)
            (\<lambda>copy_map. res_fold (subtract_range copy_map) (array_ranges base_map) (map_clear base_map))))"

section \<open>Removing a node\<close>

definition map_remove_node :: "map_t \<Rightarrow> addr_t \<Rightarrow> map_t res" where
  "map_remove_node m node_base =
     (if root m = Leaf then Inl AssertFailed
      else case splay (root m) node_base of
        Leaf \<Rightarrow> Inl BadAccess
      | Node lc rt rc \<Rightarrow>
        if base rt \<noteq> node_base then Inl AssertFailed
        else
          let x = (if lc = Leaf then rc
                   else case splay lc node_base of
                     Leaf \<Rightarrow> Leaf
                   | Node xl xr _ \<Rightarrow> Node xl xr rc)
          in Inr (m\<lparr>root := x, msize := msize m - 1\<rparr>))"

section \<open>Arrays\<close>

lemma array_ranges_eq:
  assumes "map_ok m" and "length (ranges m) < 2 ^ 32"
  shows "array_ranges m = ranges m"
proof -
  have sz: "(ucast (msize m) :: uint) = of_nat (length (ranges m))"
    using assms(1) by (simp add: map_ok_def unsigned_of_nat word_of_nat_eq_iff)
  have n: "unat (of_nat (length (ranges m)) :: uint) = length (ranges m)"
    using assms(2) by (simp add: unat_of_nat take_bit_eq_mod)
  show ?thesis
  proof (cases "ranges m = []")
    case True
    then show ?thesis using sz by (simp add: array_ranges_def map_to_array_def)
  next
    case False
    then have "(of_nat (length (ranges m)) :: uint) \<noteq> 0"
      using n by (metis length_0_conv unat_0)
    then show ?thesis
      using sz n by (simp add: array_ranges_def map_to_array_def map_inject_foldl foldl_to_array_block)
  qed
qed

section \<open>Searching for an address\<close>

lemma rightmost_eq: "rightmost t = (if t = Leaf then None else Some (last (inorder t)))"
  by (induction t) auto

lemma map_contains_spec:
  assumes "ordered (ranges m)"
  obtains t' res where "map_contains m a = Inr (m\<lparr>root := t'\<rparr>, res)"
    and "inorder t' = ranges m"
    and "\<And>r. res = Some r \<Longrightarrow> r \<in> set (ranges m) \<and> a \<in> range_bytes r"
    and "res = None \<Longrightarrow> a \<notin> bytes (ranges m)"
proof (cases "splay (root m) a")
  case Leaf
  then have "root m = Leaf" by simp
  then show thesis using that [of Leaf None] by (simp add: map_contains_def)
next
  case (Node lc tp rc)
  then have root: "root m \<noteq> Leaf" by (metis splay_Leaf tree.distinct(1))
  from Node assms have ino: "ranges m = inorder lc @ tp # inorder rc"
    and L: "\<forall>r \<in> set (inorder lc). base r < a \<and> rend r \<le> base tp"
    and R: "\<forall>r \<in> set (inorder rc). a < base r \<and> rend tp \<le> base r"
    by (rule splay_NodeE, blast)+
  note that' = that [of "Node lc tp rc", unfolded ino]
  show thesis
  proof (cases "a < base tp")
    case False
    then have "a \<notin> bytes (inorder lc)" "a \<notin> bytes (inorder rc)"
      using L R by (fastforce simp: mem_bytes)+
    moreover have "map_contains m a =
        Inr (m\<lparr>root := Node lc tp rc\<rparr>, if rend tp > a then Some tp else None)"
      using Node root False by (simp add: map_contains_def rend_def)
    ultimately show thesis using False by (intro that') (auto split: if_splits)
  next
    case True
    then have right: "a \<notin> bytes (tp # inorder rc)"
      using R by (fastforce simp: mem_bytes)
    show thesis
    proof (cases "lc = Leaf")
      case True
      then show thesis
        using that' [of None] Node root \<open>a < base tp\<close> right by (simp add: map_contains_def)
    next
      case False
      then obtain xs x where lc: "inorder lc = xs @ [x]"
        by (metis eq_inorder_Nil append_butlast_last_id)
      then have x: "base x < a" and "\<forall>y \<in> set xs. rend y \<le> base x"
        using L assms ino by (simp_all add: sep_simps)
      then have "a \<notin> bytes xs" and "base x \<le> a"
        by (auto simp: mem_bytes dest!: bspec)
      moreover have "map_contains m a =
          Inr (m\<lparr>root := Node lc tp rc\<rparr>, if rend x > a then Some x else None)"
        using Node root \<open>a < base tp\<close> less_imp_le [OF x] False lc
        by (simp add: map_contains_def rightmost_eq rend_def Let_def)
      ultimately show thesis using right lc by (intro that') (auto split: if_splits)
    qed
  qed
qed

section \<open>The lowest overlap\<close>

definition lowest_overlap :: "addr_t set \<Rightarrow> mem_range_t \<Rightarrow> addr_t \<Rightarrow> addr_t \<Rightarrow> bool" where
  "lowest_overlap A inp ob oe \<longleftrightarrow>
     base inp \<le> ob \<and> ob < oe \<and> oe \<le> rend inp \<and> {ob ..< oe} \<subseteq> A \<and> {base inp ..< ob} \<inter> A = {}"

lemma overlap_lowest:
  assumes "overlap r inp = Some (ob, os)" and "valid r" and "valid inp"
  shows "lowest_overlap (range_bytes r) inp ob (ob + os)"
  using overlap_SomeD [OF assms(1)] overlap_valid [OF assms]
  by (auto simp: lowest_overlap_def max_def split: if_splits)

lemma subtree_overlaps_spec:
  assumes "ordered (inorder t)" and "valid inp"
  shows "case subtree_overlaps t inp of
      None \<Rightarrow> range_bytes inp \<inter> bytes (inorder t) = {}
    | Some (ob, os) \<Rightarrow> lowest_overlap (bytes (inorder t)) inp ob (ob + os)"
  using assms
proof (induction t inp rule: subtree_overlaps.induct)
  case (1 inp)
  then show ?case by simp
next
  case (2 lc r rc inp)
  have r: "valid r" and L: "\<And>x. x \<in> set (inorder lc) \<Longrightarrow> base x < rend x \<and> rend x \<le> base r"
    and R: "\<And>x. x \<in> set (inorder rc) \<Longrightarrow> rend r \<le> base x \<and> base x < rend x"
    using "2.prems"(1) ordered_valid [OF "2.prems"(1)] by (auto simp: sep_simps)
  have Lb: "a < base r" if "a \<in> bytes (inorder lc)" for a
    using that L by (fastforce simp: mem_bytes)
  have Rb: "rend r \<le> a" if "a \<in> bytes (inorder rc)" for a
    using that R by (fastforce simp: mem_bytes)
  have rb: "base r < rend r" "base inp < rend inp" using r "2.prems"(2) by (simp_all add: valid_def)
  consider (right) "rend r \<le> base inp" | (left) "\<not> rend r \<le> base inp" "base r > rend inp"
    | (mid) "\<not> rend r \<le> base inp" "\<not> base r > rend inp" by blast
  then show ?case
  proof cases
    case right
    then have IH: "case subtree_overlaps rc inp of
      None \<Rightarrow> range_bytes inp \<inter> bytes (inorder rc) = {}
    | Some (ob, os) \<Rightarrow> lowest_overlap (bytes (inorder rc)) inp ob (ob + os)"
      using "2.IH"(1) "2.prems" by (simp add: rend_def sep_simps)
    have "a \<notin> bytes (inorder lc)" "a \<notin> range_bytes r" if "base inp \<le> a" for a
      using that right Lb [of a] rb by auto
    then show ?thesis
      using IH right by (auto simp: lowest_overlap_def rend_def split: option.splits)
  next
    case left
    then have IH: "case subtree_overlaps lc inp of
      None \<Rightarrow> range_bytes inp \<inter> bytes (inorder lc) = {}
    | Some (ob, os) \<Rightarrow> lowest_overlap (bytes (inorder lc)) inp ob (ob + os)"
      using "2.IH"(2) "2.prems" by (simp add: rend_def sep_simps)
    have "a \<notin> bytes (inorder rc)" "a \<notin> range_bytes r" if "a < rend inp" for a
      using that left Rb [of a] rb by auto
    then show ?thesis
      using IH left by (auto simp: lowest_overlap_def rend_def split: option.splits)
  next
    case mid
    define head where "head = new_range (base inp) (base r - base inp) None"
    have head: "base head = base inp" "rend head = base r" by (simp_all add: head_def)
    have IH: "case subtree_overlaps lc head of
      None \<Rightarrow> range_bytes head \<inter> bytes (inorder lc) = {}
    | Some (ob, os) \<Rightarrow> lowest_overlap (bytes (inorder lc)) head ob (ob + os)" if "base inp < base r"
      using "2.IH"(3) mid that "2.prems"(1) unfolding head_def
      by (simp add: sep_simps valid_def flip: rend_def)
    have step: "subtree_overlaps (Node lc r rc) inp =
        (case if base inp < base r then subtree_overlaps lc head else None of
           Some c \<Rightarrow> Some c | None \<Rightarrow> overlap r inp)"
      using mid by (simp add: rend_def head_def)
    show ?thesis
    proof (cases "if base inp < base r then subtree_overlaps lc head else None")
      case (Some c)
      then have "base inp < base r" "subtree_overlaps lc head = Some c" by (simp_all split: if_splits)
      moreover from this IH obtain ob os where c: "c = (ob, os)"
        and low: "lowest_overlap (bytes (inorder lc)) head ob (ob + os)" by (cases c) auto
      moreover have "a \<notin> bytes (inorder rc)" "a \<notin> range_bytes r" if "a < base r" for a
        using that Rb [of a] rb by auto
      ultimately show ?thesis
        using step mid head unfolding Some by (auto simp: lowest_overlap_def)
    next
      case None
      have lc: "a \<notin> bytes (inorder lc)" if "base inp \<le> a" for a
        using that None IH Lb [of a] head by (fastforce split: if_splits)
      show ?thesis
      proof (cases "overlap r inp")
        case None
        then have "rend inp \<le> base r" using mid overlap_None_iff [OF r "2.prems"(2)] by auto
        then have "a \<notin> bytes (inorder rc)" "a \<notin> range_bytes r" if "a < rend inp" for a
          using that Rb [of a] rb by auto
        then show ?thesis using lc step \<open>(if _ then _ else None) = None\<close> None by auto
      next
        case (Some c)
        then obtain ob os where c: "overlap r inp = Some (ob, os)" by (cases c) auto
        then have "lowest_overlap (range_bytes r) inp ob (ob + os)"
          using overlap_lowest r "2.prems"(2) by blast
        moreover from this have "ob < rend r" by (auto simp: lowest_overlap_def)
        then have "a \<notin> bytes (inorder rc)" if "a < ob" for a using that Rb [of a] by auto
        ultimately show ?thesis
          using lc step c \<open>(if _ then _ else None) = None\<close> by (auto simp: lowest_overlap_def)
      qed
    qed
  qed
qed

section \<open>Folding operations over ascending ranges\<close>

text \<open>
  The loops below only ever add a range whose beginning is above every byte the map holds, where
  \<^verbatim>\<open>map_add_range\<close> adds exactly the bytes of that range.
\<close>

abbreviation map_bytes :: "map_t \<Rightarrow> addr_t set" where
  "map_bytes m \<equiv> bytes (ranges m)"

definition below :: "addr_t \<Rightarrow> map_t \<Rightarrow> bool" where
  "below k m \<longleftrightarrow> (\<forall>a \<in> map_bytes m. a < k)"

definition same_map :: "map_t \<Rightarrow> map_t \<Rightarrow> bool" where
  "same_map m m' \<longleftrightarrow> m' = m\<lparr>root := root m', msize := msize m'\<rparr>"

lemma same_map_refl [simp]: "same_map m m"
  by (simp add: same_map_def)

lemma same_map_trans: "same_map m m' \<Longrightarrow> same_map m' m'' \<Longrightarrow> same_map m m''"
  unfolding same_map_def by (metis map_t.surjective map_t.update_convs(3,4))

lemma rend_le_of_bytes:
  assumes "base x < rend x" and "\<forall>a \<in> range_bytes x. a < k"
  shows "rend x \<le> k"
proof (rule ccontr)
  assume "\<not> rend x \<le> k"
  then have "base x \<le> k \<longrightarrow> k \<in> range_bytes x" by auto
  moreover have "base x \<in> range_bytes x" using assms(1) by auto
  ultimately show False using assms(2) by fastforce
qed

lemma below_rend:
  assumes "below k m" and "map_ok m" and "x \<in> set (ranges m)"
  shows "rend x \<le> k"
proof (rule rend_le_of_bytes)
  show "base x < rend x" using assms apart_valid by (auto simp: map_ok_def)
  show "\<forall>a \<in> range_bytes x. a < k" using assms by (auto simp: below_def bytes_def)
qed

lemma map_add_range_above:
  assumes "map_ok m" and "below b m" and "b < b + s"
  obtains m' r' where "map_add_range m b s obj = Inr (m', r')" and "map_ok m'" and "same_map m m'"
    and "map_bytes m' = map_bytes m \<union> {b ..< b + s}" and "below (b + s) m'"
proof -
  obtain m' r' where m': "map_add_range m b s obj = Inr (m', r')" "map_ok m'"
    "add_spec (ranges m) b (b + s) (ranges m') r'" "same_map m m'"
    using map_add_range_ok [OF assms(1,3)] by (metis same_map_def)
  have "\<forall>x \<in> set (ranges m). \<not> (base x < b \<and> b + s < rend x)"
    using below_rend [OF assms(2,1)] assms(3) by fastforce
  then have "map_bytes m' = map_bytes m \<union> {b ..< b + s}"
    by (rule add_spec_bytes [OF m'(3)])
  with m' assms(2,3) show thesis by (intro that) (force simp: below_def)+
qed

lemma map_overlaps_spec:
  assumes "ordered (ranges m)" and "valid inp"
  shows "map_overlaps m inp = None \<Longrightarrow> range_bytes inp \<inter> map_bytes m = {}"
    and "map_overlaps m inp = Some (ob, os) \<Longrightarrow> lowest_overlap (map_bytes m) inp ob (ob + os)"
  using subtree_overlaps_spec [OF assms] by (auto simp: map_overlaps_def)

text \<open>The rest of a range once its lowest overlap has been dealt with.\<close>

lemma rest_of_range:
  assumes "lowest_overlap A rg ob oe"
  defines "rg' \<equiv> rg\<lparr>base := oe, rsize := base rg + rsize rg - oe\<rparr>"
  shows "rsize rg' = 0 \<longleftrightarrow> oe = rend rg" and "rend rg' = rend rg"
    and "rsize rg' \<noteq> 0 \<Longrightarrow> valid rg' \<and> unat (rsize rg') < unat (rsize rg)"
    and "range_bytes rg \<inter> A = {ob ..< oe} \<union> (range_bytes rg' \<inter> A)"
    and "range_bytes rg - A = {base rg ..< ob} \<union> (range_bytes rg' - A)"
proof -
  have l: "base rg \<le> ob" "ob < oe" "oe \<le> rend rg" "{ob ..< oe} \<subseteq> A" "{base rg ..< ob} \<inter> A = {}"
    using assms(1) by (simp_all add: lowest_overlap_def)
  show "rsize rg' = 0 \<longleftrightarrow> oe = rend rg" by (auto simp: rg'_def rend_def)
  show e: "rend rg' = rend rg" by (simp add: rg'_def rend_def)
  show "valid rg' \<and> unat (rsize rg') < unat (rsize rg)" if "rsize rg' \<noteq> 0"
  proof -
    have lt: "oe < rend rg" using that l by (auto simp: rg'_def rend_def)
    then have "rend rg - oe < rend rg - base rg"
      using l by (simp add: word_less_nat_alt unat_sub_if' word_le_nat_alt split: if_splits)
    then show ?thesis using lt e by (simp add: valid_def rg'_def word_less_nat_alt rend_def)
  qed
  have *: "base rg' = oe" by (simp add: rg'_def)
  show "range_bytes rg \<inter> A = {ob ..< oe} \<union> (range_bytes rg' \<inter> A)"
    using l e * by (auto simp: subset_iff disjoint_iff)
  show "range_bytes rg - A = {base rg ..< ob} \<union> (range_bytes rg' - A)"
    using l e * by (auto simp: subset_iff disjoint_iff) (meson not_le)
qed

text \<open>
  What the bodies of the three loops over a map's array have in common: given a reference map that
  satisfies \<open>pre\<close> and a valid range above every byte of the map being built, the body succeeds and
  adds the bytes \<open>adds ref_map rg\<close>, all of them in that range.
\<close>

locale ascending_step =
  fixes pre :: "map_t \<Rightarrow> bool"
    and step :: "map_t \<Rightarrow> mem_range_t \<Rightarrow> map_t \<Rightarrow> map_t res"
    and adds :: "map_t \<Rightarrow> mem_range_t \<Rightarrow> addr_t set"
  assumes adds_subset: "adds ref_map rg \<subseteq> range_bytes rg"
    and step_adds: "pre ref_map \<Longrightarrow> valid rg \<Longrightarrow> map_ok m \<Longrightarrow> below (base rg) m \<Longrightarrow>
      \<exists>m'. step ref_map rg m = Inr m' \<and> map_ok m' \<and> same_map m m' \<and>
        map_bytes m' = map_bytes m \<union> adds ref_map rg"
begin

lemma fold_adds:
  "ordered rgs \<Longrightarrow> pre ref_map \<Longrightarrow> map_ok m \<Longrightarrow> \<forall>rg \<in> set rgs. below (base rg) m \<Longrightarrow>
   \<exists>m'. res_fold (step ref_map) rgs m = Inr m' \<and> map_ok m' \<and> same_map m m' \<and>
     map_bytes m' = map_bytes m \<union> (\<Union>rg \<in> set rgs. adds ref_map rg)"
proof (induction rgs arbitrary: m)
  case Nil
  then show ?case by simp
next
  case (Cons rg rgs)
  then obtain m1 where m1: "step ref_map rg m = Inr m1" "map_ok m1" "same_map m m1"
    "map_bytes m1 = map_bytes m \<union> adds ref_map rg"
    using step_adds [of ref_map rg m] by (auto simp: sep_simps)
  have "below (base rg') m1" if "rg' \<in> set rgs" for rg'
    unfolding below_def
  proof
    fix a assume "a \<in> map_bytes m1"
    then consider "a \<in> map_bytes m" | "a < rend rg" using m1(4) adds_subset [of ref_map rg] by auto
    then show "a < base rg'"
      using that Cons.prems(1,4) by cases (auto simp: below_def sep_simps intro: less_le_trans)
  qed
  then obtain m' where "res_fold (step ref_map) rgs m1 = Inr m'" "map_ok m'" "same_map m1 m'"
    "map_bytes m' = map_bytes m1 \<union> (\<Union>rg \<in> set rgs. adds ref_map rg)"
    using Cons.IH [of m1] Cons.prems m1 by (auto simp: sep_simps)
  with m1 show ?case using same_map_trans by (auto simp: Un_assoc)
qed

lemma fold_from_empty:
  assumes "map_ok src" and "length (ranges src) < 2 ^ 32" and "pre ref_map"
    and "map_ok m" and "root m = Leaf"
  shows "\<exists>m'. res_fold (step ref_map) (array_ranges src) m = Inr m' \<and> map_ok m' \<and> same_map m m' \<and>
     map_bytes m' = (\<Union>rg \<in> set (ranges src). adds ref_map rg)"
  using fold_adds [of "ranges src" ref_map m] assms
  by (auto simp: array_ranges_eq map_ok_def apart_imp_ordered below_def)

end

lemma map_ok_clear [simp]: "map_ok (map_clear m)" "ranges (map_clear m) = []" "root (map_clear m) = Leaf"
  by (simp_all add: map_clear_def map_ok_def)

lemma same_map_clear: "same_map (map_clear m) m' \<Longrightarrow> same_map m m'"
  unfolding same_map_def map_clear_def by (metis map_t.surjective map_t.update_convs(3,4))

section \<open>Intersection\<close>

lemma intersect_loop_spec:
  assumes "ordered (ranges ref_map)" and "valid rg" and "map_ok m" and "below (base rg) m"
    and "unat (rsize rg) < fuel"
  shows "\<exists>m'. intersect_loop fuel ref_map rg m = Inr m' \<and> map_ok m' \<and> same_map m m' \<and>
    map_bytes m' = map_bytes m \<union> (range_bytes rg \<inter> map_bytes ref_map)"
  using assms(2-5)
proof (induction fuel arbitrary: rg m)
  case 0
  then show ?case by simp
next
  case (Suc fuel)
  show ?case
  proof (cases "map_overlaps ref_map rg")
    case None
    then show ?thesis using map_overlaps_spec(1) [OF assms(1) Suc.prems(1)] Suc.prems by simp
  next
    case (Some c)
    obtain ob os where c: "c = (ob, os)" by (cases c)
    define rg' where "rg' = rg\<lparr>base := ob + os, rsize := base rg + rsize rg - (ob + os)\<rparr>"
    have low: "lowest_overlap (map_bytes ref_map) rg ob (ob + os)"
      using map_overlaps_spec(2) [OF assms(1) Suc.prems(1)] Some c by simp
    note rest = rest_of_range [OF low, folded rg'_def]
    have "below ob m" "ob < ob + os"
      using low Suc.prems(3) by (auto simp: lowest_overlap_def below_def)
    then obtain m1 r1 where m1: "map_add_range m ob os (rec rg) = Inr (m1, r1)" "map_ok m1"
      "same_map m m1" "map_bytes m1 = map_bytes m \<union> {ob ..< ob + os}" "below (ob + os) m1"
      using map_add_range_above [OF Suc.prems(2)] by metis
    have loop: "intersect_loop (Suc fuel) ref_map rg m =
        (if rsize rg' \<noteq> 0 then intersect_loop fuel ref_map rg' m1 else Inr m1)"
      using Some c m1(1) by (simp add: rg'_def Let_def)
    show ?thesis
    proof (cases "rsize rg' = 0")
      case True
      then have "range_bytes rg' = {}" using rest(2) by (auto simp: rend_def)
      then show ?thesis using True loop m1 rest(4) by auto
    next
      case False
      then obtain m' where "intersect_loop fuel ref_map rg' m1 = Inr m'" "map_ok m'" "same_map m1 m'"
        "map_bytes m' = map_bytes m1 \<union> (range_bytes rg' \<inter> map_bytes ref_map)"
        using Suc.IH [of rg' m1] rest(3) m1 Suc.prems(4) by (auto simp: rg'_def)
      then show ?thesis using False loop m1 rest(4) same_map_trans by (auto simp: Un_assoc)
    qed
  qed
qed

interpretation intersecting: ascending_step "\<lambda>ref_map. ordered (ranges ref_map)"
    "\<lambda>ref_map rg. intersect_loop (Suc (unat (rsize rg))) ref_map rg"
    "\<lambda>ref_map rg. range_bytes rg \<inter> map_bytes ref_map"
  by unfold_locales (simp, rule intersect_loop_spec, simp_all)

lemma map_intersect_spec:
  assumes "map_ok m" and "length (ranges m) < 2 ^ 32" and "ordered (ranges ref_map)"
  obtains m' where "map_intersect m ref_map = Inr m'" and "map_ok m'" and "same_map m m'"
    and "map_bytes m' = map_bytes m \<inter> map_bytes ref_map"
proof (cases "root m = Leaf \<or> root ref_map = Leaf")
  case True
  then show thesis
    using that [of m] that [of "map_clear m"] assms(1) same_map_clear
    by (cases "root m = Leaf") (auto simp: map_intersect_def)
next
  case False
  from intersecting.fold_from_empty [OF assms, of "map_clear m"]
  obtain m' where m': "map_intersect m ref_map = Inr m'" "map_ok m'" "same_map (map_clear m) m'"
    "map_bytes m' = (\<Union>rg \<in> set (ranges m). range_bytes rg \<inter> map_bytes ref_map)"
    using False by (auto simp: map_intersect_def)
  then have "map_bytes m' = map_bytes m \<inter> map_bytes ref_map" by (auto simp: bytes_def)
  with m' show thesis using that same_map_clear by blast
qed

section \<open>Union and cloning\<close>

text \<open>Uniting a map with an empty one copies the ranges, and so does a clone.\<close>

lemma map_union_append:
  assumes "apart (ranges m @ rgs)" and "map_ok m"
  shows "\<exists>m'. res_fold (\<lambda>rg m. res_bind (map_add_range m (base rg) (rsize rg) (rec rg)) (\<lambda>(m', _). Inr m'))
      rgs m = Inr m' \<and> map_ok m' \<and> same_map m m' \<and>
    ranges m' = ranges m @ map (\<lambda>rg. rg\<lparr>task := 0\<rparr>) rgs"
  using assms
proof (induction rgs arbitrary: m)
  case Nil
  then show ?case by simp
next
  case (Cons rg rgs)
  have rg: "base rg < base rg + rsize rg" "\<forall>x \<in> set (ranges m). rend x < base rg"
    using Cons.prems(1) by (auto simp: sep_simps valid_def rend_def)
  have eq: "new_range (base rg) (rsize rg) (rec rg) = rg\<lparr>task := 0\<rparr>"
    by (simp add: new_range_def)
  obtain m1 where m1: "map_add_range m (base rg) (rsize rg) (rec rg) = Inr (m1, rg\<lparr>task := 0\<rparr>)"
    "map_ok m1" "ranges m1 = ranges m @ [rg\<lparr>task := 0\<rparr>]" "same_map m m1"
    using map_add_range_append [OF Cons.prems(2) rg, of "rec rg"] unfolding eq same_map_def by metis
  have "apart (ranges m1 @ rgs)"
    using Cons.prems(1) by (auto simp: m1(3) sep_simps valid_def)
  then show ?case
    using Cons.IH [OF _ m1(2)] m1 same_map_trans by auto
qed

lemma map_union_empty:
  assumes "map_ok m" and "length (ranges m) < 2 ^ 32" and "map_ok e" and "root e = Leaf"
  obtains m' where "map_union e m = Inr m'" and "map_ok m'" and "same_map e m'"
    and "ranges m' = map (\<lambda>rg. rg\<lparr>task := 0\<rparr>) (ranges m)"
proof (cases "root m = Leaf")
  case True
  then show thesis using that [of e] assms by (simp add: map_union_def)
next
  case False
  have "apart (ranges e @ ranges m)" using assms by (simp add: map_ok_def)
  from map_union_append [OF this assms(3)] obtain m' where
    "map_union e m = Inr m'" "map_ok m'" "same_map e m'"
    "ranges m' = map (\<lambda>rg. rg\<lparr>task := 0\<rparr>) (ranges m)"
    using False assms by (auto simp: map_union_def array_ranges_eq)
  then show thesis by (rule that)
qed

lemma bytes_map_task [simp]: "bytes (map (\<lambda>rg. rg\<lparr>task := t\<rparr>) rs) = bytes rs"
  by (auto simp: mem_bytes)

lemma map_clone_spec:
  assumes "map_ok m" and "length (ranges m) < 2 ^ 32"
  obtains m' where "map_clone m space = Inr m'" and "map_ok m'"
    and "ranges m' = map (\<lambda>rg. rg\<lparr>task := 0\<rparr>) (ranges m)"
  using map_union_empty [OF assms, of "new_range_set (if space = None then residence m else space) ''clone''"]
  by (auto simp: map_clone_def new_range_set_def Let_def) (auto simp: init_empty_map_def)

section \<open>Subtraction\<close>

lemma subtract_loop_spec:
  assumes "ordered (ranges copy_map)" and "valid rg" and "map_ok m" and "below (base rg) m"
    and "unat (rsize rg) < fuel"
  shows "\<exists>rg' m'. subtract_loop fuel copy_map rg m = Inr (rg', m') \<and> map_ok m' \<and> same_map m m' \<and>
    below (base rg') m' \<and> (rsize rg' \<noteq> 0 \<longrightarrow> valid rg') \<and>
    map_bytes m' \<union> range_bytes rg' = map_bytes m \<union> (range_bytes rg - map_bytes copy_map)"
  using assms(2-5)
proof (induction fuel arbitrary: rg m)
  case 0
  then show ?case by simp
next
  case (Suc fuel)
  show ?case
  proof (cases "map_overlaps copy_map rg")
    case None
    then show ?thesis using map_overlaps_spec(1) [OF assms(1) Suc.prems(1)] Suc.prems by auto
  next
    case (Some c)
    obtain ob os where c: "c = (ob, os)" by (cases c)
    define rg' where "rg' = rg\<lparr>base := ob + os, rsize := base rg + rsize rg - (ob + os)\<rparr>"
    have low: "lowest_overlap (map_bytes copy_map) rg ob (ob + os)"
      using map_overlaps_spec(2) [OF assms(1) Suc.prems(1)] Some c by simp
    note rest = rest_of_range [OF low, folded rg'_def]
    have ob: "base rg \<le> ob" "ob < ob + os" using low by (auto simp: lowest_overlap_def)
    obtain m1 where m1: "(if ob > base rg
        then res_bind (map_add_range m (base rg) (ob - base rg) (rec rg)) (\<lambda>(m', _). Inr m')
        else Inr m) = Inr m1" "map_ok m1" "same_map m m1"
      "map_bytes m1 = map_bytes m \<union> {base rg ..< ob}" "below ob m1"
    proof (cases "ob > base rg")
      case True
      then obtain m1 r1 where "map_add_range m (base rg) (ob - base rg) (rec rg) = Inr (m1, r1)"
        "map_ok m1" "same_map m m1" "map_bytes m1 = map_bytes m \<union> {base rg ..< ob}" "below ob m1"
        using map_add_range_above [OF Suc.prems(2,3), of "ob - base rg" "rec rg"] by auto
      then show thesis using that [of m1] True by simp
    next
      case False
      then show thesis using that [of m] Suc.prems ob by simp
    qed
    have loop: "subtract_loop (Suc fuel) copy_map rg m =
        (if rsize rg' \<noteq> 0 then subtract_loop fuel copy_map rg' m1 else Inr (rg', m1))"
      using Some c m1(1) by (simp add: rg'_def Let_def)
    have b': "below (base rg') m1" using m1(5) ob(2) by (force simp: below_def rg'_def)
    show ?thesis
    proof (cases "rsize rg' = 0")
      case True
      then have "range_bytes rg' = {}" by (auto simp: rend_def)
      then show ?thesis using True loop m1 rest(5) b' by auto
    next
      case False
      then obtain rg2 m2 where "subtract_loop fuel copy_map rg' m1 = Inr (rg2, m2)"
        and m2: "map_ok m2" "same_map m1 m2" "below (base rg2) m2" "rsize rg2 \<noteq> 0 \<longrightarrow> valid rg2"
        "map_bytes m2 \<union> range_bytes rg2 = map_bytes m1 \<union> (range_bytes rg' - map_bytes copy_map)"
        using Suc.IH [of rg' m1] rest(3) m1(2) b' Suc.prems(4) by auto
      then have "subtract_loop (Suc fuel) copy_map rg m = Inr (rg2, m2)" using False loop by simp
      moreover have "same_map m m2" using m1(3) m2(2) by (rule same_map_trans)
      moreover have "map_bytes m2 \<union> range_bytes rg2 = map_bytes m \<union> (range_bytes rg - map_bytes copy_map)"
        unfolding m2(5) m1(4) rest(5) by blast
      ultimately show ?thesis using m2 by blast
    qed
  qed
qed

lemma subtract_range_spec:
  assumes "ordered (ranges copy_map)" and "valid rg" and "map_ok m" and "below (base rg) m"
  shows "\<exists>m'. subtract_range copy_map rg m = Inr m' \<and> map_ok m' \<and> same_map m m' \<and>
    map_bytes m' = map_bytes m \<union> (range_bytes rg - map_bytes copy_map)"
proof -
  obtain rg' m1 where loop: "subtract_loop (Suc (unat (rsize rg))) copy_map rg m = Inr (rg', m1)"
    and m1: "map_ok m1" "same_map m m1" "below (base rg') m1" "rsize rg' \<noteq> 0 \<longrightarrow> valid rg'"
    "map_bytes m1 \<union> range_bytes rg' = map_bytes m \<union> (range_bytes rg - map_bytes copy_map)"
    using subtract_loop_spec [OF assms] by blast
  show ?thesis
  proof (cases "rsize rg' = 0")
    case True
    then have "range_bytes rg' = {}" by (auto simp: rend_def)
    with True loop m1 show ?thesis by (auto simp: subtract_range_def)
  next
    case False
    then have "base rg' < base rg' + rsize rg'" using m1(4) by (simp add: valid_def rend_def)
    then obtain m2 r2 where "map_add_range m1 (base rg') (rsize rg') (rec rg') = Inr (m2, r2)"
      "map_ok m2" "same_map m1 m2" "map_bytes m2 = map_bytes m1 \<union> {base rg' ..< base rg' + rsize rg'}"
      using map_add_range_above [OF m1(1,3), of "rsize rg'" "rec rg'"] by metis
    with False loop m1 show ?thesis
      using same_map_trans by (auto simp: subtract_range_def range_bytes_def rend_def)
  qed
qed

interpretation subtracting: ascending_step "\<lambda>copy_map. ordered (ranges copy_map)" subtract_range
    "\<lambda>copy_map rg. range_bytes rg - map_bytes copy_map"
  by unfold_locales (auto intro: subtract_range_spec)

lemma map_subtract_spec:
  assumes "map_ok m" and "length (ranges m) < 2 ^ 32" and "ordered (ranges ref_map)"
  obtains m' where "map_subtract m ref_map = Inr m'" and "map_ok m'" and "same_map m m'"
    and "map_bytes m' = map_bytes m - map_bytes ref_map"
proof (cases "root m = Leaf \<or> root ref_map = Leaf")
  case True
  then show thesis using that [of m] assms(1) by (auto simp: map_subtract_def)
next
  case False
  define e where "e = new_range_set (residence m) ''map_subtract_temp''"
  have e: "map_ok e" "root e = Leaf" by (simp_all add: e_def new_range_set_def) (simp add: init_empty_map_def)
  obtain c1 where c1: "map_union e m = Inr c1" "map_ok c1"
    "ranges c1 = map (\<lambda>rg. rg\<lparr>task := 0\<rparr>) (ranges m)"
    using map_union_empty [OF assms(1,2) e] by blast
  moreover have "length (ranges c1) < 2 ^ 32"
    using assms(2) unfolding c1(3) by (simp only: length_map)
  ultimately obtain c2 where c2: "map_intersect c1 ref_map = Inr c2" "map_ok c2"
    "map_bytes c2 = map_bytes m \<inter> map_bytes ref_map"
    using map_intersect_spec [OF c1(2) _ assms(3)] by auto
  have "ordered (ranges c2)" using c2(2) by (simp add: map_ok_def apart_imp_ordered)
  from subtracting.fold_from_empty [OF assms(1,2) this, of "map_clear m"]
  obtain m' where m': "map_subtract m ref_map = Inr m'" "map_ok m'" "same_map (map_clear m) m'"
    "map_bytes m' = (\<Union>rg \<in> set (ranges m). range_bytes rg - map_bytes c2)"
    using False c1 c2 by (auto simp: map_subtract_def e_def [symmetric])
  then have "map_bytes m' = map_bytes m - map_bytes ref_map"
    unfolding c2(3) by (auto simp: bytes_def)
  with m' show thesis using that same_map_clear by blast
qed

section \<open>Removal\<close>

lemma splay_above_all:
  assumes "ordered (inorder t)" and "\<forall>r \<in> set (inorder t). base r < key" and "splay t key = Node lc x rc"
  shows "rc = Leaf"
proof -
  have "inorder t = inorder lc @ x # inorder rc" "\<forall>r \<in> set (inorder rc). key < base r"
    using assms(3,1) by (rule splay_NodeE, blast)+
  then show ?thesis using assms(2) by (cases rc) force+
qed

lemma map_remove_node_spec:
  assumes "map_ok m"
  shows "if nb \<in> base ` set (ranges m)
    then \<exists>m'. map_remove_node m nb = Inr m' \<and> map_ok m' \<and> same_map m m' \<and>
      ranges m' = filter (\<lambda>r. base r \<noteq> nb) (ranges m)
    else map_remove_node m nb = Inl AssertFailed"
proof (cases "splay (root m) nb")
  case Leaf
  then show ?thesis by (simp add: map_remove_node_def)
next
  case (Node lc rt rc)
  then have root: "root m \<noteq> Leaf" by (metis splay_Leaf tree.distinct(1))
  have ord: "ordered (ranges m)" using assms by (simp add: map_ok_def apart_imp_ordered)
  from Node this have ino: "ranges m = inorder lc @ rt # inorder rc"
    and L: "\<forall>r \<in> set (inorder lc). base r < nb" and R: "\<forall>r \<in> set (inorder rc). nb < base r"
    by (rule splay_NodeE, blast)+
  show ?thesis
  proof (cases "base rt = nb")
    case False
    then have "nb \<notin> base ` set (ranges m)" using ino L R by auto
    then show ?thesis using False Node root by (simp add: map_remove_node_def)
  next
    case True
    have "base r \<noteq> nb" if "r \<in> set (inorder lc) \<union> set (inorder rc)" for r
      using that L R by auto
    then have flt: "filter (\<lambda>r. base r \<noteq> nb) (ranges m) = inorder lc @ inorder rc"
      using True by (simp add: ino filter_id_conv)
    have "\<exists>t. map_remove_node m nb = Inr (m\<lparr>root := t, msize := msize m - 1\<rparr>) \<and>
        inorder t = inorder lc @ inorder rc"
    proof (cases "splay lc nb")
      case Leaf
      then show ?thesis using True Node root by (auto simp: map_remove_node_def)
    next
      fix xl xr xrc assume x: "splay lc nb = Node xl xr xrc"
      have "ordered (inorder lc)" using ord ino by (simp add: sep_simps)
      then have "xrc = Leaf" using L x by (rule splay_above_all)
      then have "inorder lc = inorder xl @ [xr]" using inorder_splay [of lc nb] x by simp
      then show ?thesis using True Node root x by (auto simp: map_remove_node_def)
    qed
    then obtain t where t: "map_remove_node m nb = Inr (m\<lparr>root := t, msize := msize m - 1\<rparr>)"
      "inorder t = filter (\<lambda>r. base r \<noteq> nb) (ranges m)" using flt by auto
    have "length (ranges m) = Suc (length (inorder t))" using t(2) flt ino by simp
    then have "map_ok (m\<lparr>root := t, msize := msize m - 1\<rparr>)"
      using assms t(2) apart_filter by (simp add: map_ok_def)
    then show ?thesis using t True ino by (simp add: same_map_def)
  qed
qed

end
