(* ===== verification/Range_Props.thy ===== *)
theory Range_Props
  imports Range_Ops
begin

text \<open>
  The contract of the range tree (\<^verbatim>\<open>range_tree/dtree.c\<close>) as its clients see it: which bytes a
  map denotes, and what each operation does to them.
\<close>

section \<open>Example maps\<close>

definition example_map :: map_t where
  "example_map = init_empty_map (Some 1) ''example''"

definition add_all :: "map_t \<Rightarrow> (addr_t \<times> size_t) list \<Rightarrow> map_t res" where
  "add_all m xs = res_fold (\<lambda>(b, s) m. res_bind (map_add_range m b s None) (\<lambda>(m', _). Inr m')) xs m"

definition two_ranges :: map_t where
  "two_ranges = example_map\<lparr>root := Node Leaf (new_range 0 100 None) (Node Leaf (new_range 200 10 None) Leaf),
     msize := 2\<rparr>"

lemmas add_eval =
  example_map_def init_empty_map_def new_range_set_def map_add_range_def splay_def splay_loop.simps
  splay_end_def new_node_def new_range_def overlap_def union_ranges_def Let_def

lemma two_ranges_reached: "add_all example_map [(200, 10), (0, 100)] = Inr two_ranges"
  by (simp add: add_all_def two_ranges_def add_eval)

lemma two_ranges_ranges [simp]:
  "ranges two_ranges = [new_range 0 100 None, new_range 200 10 None]"
  by (simp add: two_ranges_def)

lemma map_ok_two_ranges [simp]: "map_ok two_ranges"
  by (simp add: map_ok_def sep_simps valid_def) (simp add: two_ranges_def)

lemma few_two_ranges: "length (ranges two_ranges) < 2 ^ 32"
  by (simp add: two_ranges_def)

lemma ordered_two_ranges [simp]: "ordered (ranges two_ranges)"
  by (simp add: sep_simps valid_def)

section \<open>Properties\<close>

text \<open>
  C7: adding a range that is not empty and does not wrap around never fails, keeps the map's
  invariant (ranges valid, sorted, pairwise apart, counted by the size field), returns a range of
  the map that covers the new one, and adds no byte outside of it.
\<close>

theorem map_add_range_sound:
  assumes "map_ok m" and "b < b + s"
  shows "\<exists>m' r. map_add_range m b s obj = Inr (m', r) \<and> map_ok m' \<and> r \<in> set (ranges m') \<and>
    {b ..< b + s} \<subseteq> range_bytes r \<and> map_bytes m' \<subseteq> map_bytes m \<union> {b ..< b + s}"
proof -
  obtain m' r where m': "map_add_range m b s obj = Inr (m', r)" "map_ok m'"
    "add_spec (ranges m) b (b + s) (ranges m') r"
    using map_add_range_ok [OF assms] by blast
  moreover have "r \<in> set (ranges m')" using m'(3) by (simp add: add_spec_def)
  ultimately show ?thesis
    using add_spec_covers(2) [OF m'(3)] add_spec_bytes_subset [OF m'(3)] by blast
qed

theorem map_add_range_sound_witness:
  "\<exists>m' r. map_add_range two_ranges 90 20 None = Inr (m', r) \<and> map_ok m' \<and> r \<in> set (ranges m') \<and>
    {90 ..< 110} \<subseteq> range_bytes r \<and> map_bytes m' \<subseteq> map_bytes two_ranges \<union> {90 ..< 110}"
  using map_add_range_sound [of two_ranges 90 20 None] by simp

text \<open>
  C14: when no range of the map begins strictly before the new one and ends strictly after it, the
  map denotes exactly its old bytes together with the new ones.
\<close>

theorem map_add_range_exact:
  assumes "map_ok m" and "b < b + s"
    and "\<forall>x \<in> set (ranges m). \<not> (base x < b \<and> b + s < rend x)"
  shows "\<exists>m' r. map_add_range m b s obj = Inr (m', r) \<and> map_ok m' \<and>
    map_bytes m' = map_bytes m \<union> {b ..< b + s}"
  using map_add_range_ok [OF assms(1,2)] add_spec_bytes [OF _ assms(3)] by metis

theorem map_add_range_exact_witness:
  "\<exists>m' r. map_add_range two_ranges 90 120 None = Inr (m', r) \<and> map_ok m' \<and>
    map_bytes m' = map_bytes two_ranges \<union> {90 ..< 210}"
  using map_add_range_exact [of two_ranges 90 120 None] by simp

text \<open>
  Without that condition bytes can be lost: after adding \<open>[200, 210)\<close>, \<open>[0, 100)\<close> and \<open>[10, 20)\<close>
  the map no longer holds byte 50.  The new range was absorbed into its left neighbour, and
  \<^verbatim>\<open>absorb_left\<close> does not keep the end of a range it absorbs.
\<close>

theorem map_add_range_loses_bytes:
  "\<exists>m m'. add_all example_map [(200, 10), (0, 100)] = Inr m \<and> 50 \<in> map_bytes m \<and>
    add_all m [(10, 10)] = Inr m' \<and> map_ok m' \<and> 50 \<notin> map_bytes m'"
proof -
  define m' where "m' = two_ranges\<lparr>root := Node Leaf (new_range 0 20 None)
    (Node Leaf (new_range 200 10 None) Leaf)\<rparr>"
  have "add_all two_ranges [(10, 10)] = Inr m'"
    by (simp add: add_all_def two_ranges_def m'_def add_eval)
  moreover have "map_ok m'" "50 \<notin> map_bytes m'"
    by (simp_all add: map_ok_def m'_def sep_simps valid_def mem_bytes two_ranges_def)
  moreover have "50 \<in> map_bytes two_ranges" by (simp add: mem_bytes)
  ultimately show ?thesis using two_ranges_reached by blast
qed

text \<open>
  Splaying a tree of disjoint ranges keeps its ranges in their order, leaves only ranges that
  begin before the key to the left of the root and only ranges that begin after it to the right,
  and brings the range that begins at the key to the root if there is one.
\<close>

theorem splay_correct:
  assumes "ordered (inorder t)"
  shows "inorder (splay t key) = inorder t \<and> splits_at key (splay t key) \<and>
    (key \<in> base ` set (inorder t) \<longrightarrow> base (value (splay t key)) = key)"
proof -
  have "base (value (splay t key)) = key" if "key \<in> base ` set (inorder t)"
  proof (cases "splay t key")
    case Leaf
    with that show ?thesis by simp
  next
    case (Node lc x rc)
    from Node assms have "inorder t = inorder lc @ x # inorder rc"
      "\<forall>r \<in> set (inorder lc). base r < key" "\<forall>r \<in> set (inorder rc). key < base r"
      by (rule splay_NodeE, blast)+
    with that Node show ?thesis by auto
  qed
  then show ?thesis using splay_splits [OF ordered_imp_base_sorted [OF assms]] by simp
qed

theorem splay_correct_witness:
  "base (value (splay (root two_ranges) 200)) = 200"
  using splay_correct [OF ordered_two_ranges, of 200] by simp

text \<open>
  \<^verbatim>\<open>map_contains\<close> on a map of disjoint ranges returns the range that holds the address, or none
  if no range holds it, and keeps the ranges of the map.
\<close>

lemma map_contains_correct:
  assumes "ordered (ranges m)"
  shows "\<exists>m' res. map_contains m a = Inr (m', res) \<and> ranges m' = ranges m \<and>
    (case res of None \<Rightarrow> a \<notin> map_bytes m | Some r \<Rightarrow> r \<in> set (ranges m) \<and> a \<in> range_bytes r)"
proof -
  obtain t res where t: "map_contains m a = Inr (m\<lparr>root := t\<rparr>, res)" "inorder t = ranges m"
    "\<And>r. res = Some r \<Longrightarrow> r \<in> set (ranges m) \<and> a \<in> range_bytes r"
    "res = None \<Longrightarrow> a \<notin> map_bytes m"
    by (rule map_contains_spec [OF assms, of a]) blast
  moreover from this have "case res of None \<Rightarrow> a \<notin> map_bytes m
      | Some r \<Rightarrow> r \<in> set (ranges m) \<and> a \<in> range_bytes r" by (cases res) auto
  ultimately show ?thesis by (intro exI [of _ "m\<lparr>root := t\<rparr>"]) simp
qed

text \<open>
  C10: \<^verbatim>\<open>map_overlaps\<close> finds an overlap exactly when the map and the range share a byte, and then
  returns the lowest one: it lies in both, and no byte of the range below it is in the map.
\<close>

theorem map_overlaps_correct:
  assumes "ordered (ranges m)" and "valid inp"
  shows "case map_overlaps m inp of
      None \<Rightarrow> range_bytes inp \<inter> map_bytes m = {}
    | Some (ob, os) \<Rightarrow> ob < ob + os \<and> {ob ..< ob + os} \<subseteq> range_bytes inp \<inter> map_bytes m \<and>
        (\<forall>a \<in> range_bytes inp \<inter> map_bytes m. ob \<le> a)"
  using subtree_overlaps_spec [OF assms]
  by (auto simp: map_overlaps_def lowest_overlap_def disjoint_iff not_less [symmetric]
      split: option.splits)

theorem map_overlaps_correct_witness:
  "case map_overlaps two_ranges (new_range 50 500 None) of
      None \<Rightarrow> range_bytes (new_range 50 500 None) \<inter> map_bytes two_ranges = {}
    | Some (ob, os) \<Rightarrow> ob < ob + os \<and>
        {ob ..< ob + os} \<subseteq> range_bytes (new_range 50 500 None) \<inter> map_bytes two_ranges \<and>
        (\<forall>a \<in> range_bytes (new_range 50 500 None) \<inter> map_bytes two_ranges. ob \<le> a)"
  by (rule map_overlaps_correct) (rule ordered_two_ranges, simp add: valid_def)

text \<open>
  C9: \<^verbatim>\<open>map_intersect\<close> terminates and leaves in its first argument exactly the bytes common to both
  maps, as long as the number of ranges fits the \<^verbatim>\<open>unsigned\<close> loop bound.
\<close>

theorem map_intersect_correct:
  assumes "map_ok m" and "length (ranges m) < 2 ^ 32" and "ordered (ranges ref_map)"
  shows "\<exists>m'. map_intersect m ref_map = Inr m' \<and> map_ok m' \<and>
    map_bytes m' = map_bytes m \<inter> map_bytes ref_map"
  using map_intersect_spec [OF assms] by metis

theorem map_intersect_correct_witness:
  "\<exists>m'. map_intersect two_ranges two_ranges = Inr m' \<and> map_ok m' \<and>
    map_bytes m' = map_bytes two_ranges \<inter> map_bytes two_ranges"
  by (rule map_intersect_correct) (rule map_ok_two_ranges few_two_ranges ordered_two_ranges)+

text \<open>
  C8: \<^verbatim>\<open>map_subtract\<close> terminates and leaves in its first argument exactly the bytes that are not in
  the second one.
\<close>

theorem map_subtract_correct:
  assumes "map_ok m" and "length (ranges m) < 2 ^ 32" and "ordered (ranges ref_map)"
  shows "\<exists>m'. map_subtract m ref_map = Inr m' \<and> map_ok m' \<and>
    map_bytes m' = map_bytes m - map_bytes ref_map"
  using map_subtract_spec [OF assms] by metis

theorem map_subtract_correct_witness:
  "\<exists>m'. map_subtract two_ranges two_ranges = Inr m' \<and> map_ok m' \<and>
    map_bytes m' = map_bytes two_ranges - map_bytes two_ranges"
  by (rule map_subtract_correct) (rule map_ok_two_ranges few_two_ranges ordered_two_ranges)+

text \<open>
  \<^verbatim>\<open>map_remove_node\<close> removes exactly the range that begins at the given address and fails its
  assertion if there is none.
\<close>

theorem map_remove_node_correct:
  assumes "map_ok m"
  shows "if nb \<in> base ` set (ranges m)
    then \<exists>m'. map_remove_node m nb = Inr m' \<and> map_ok m' \<and>
      ranges m' = filter (\<lambda>r. base r \<noteq> nb) (ranges m)
    else map_remove_node m nb = Inl AssertFailed"
  using map_remove_node_spec [OF assms, of nb] by (auto split: if_splits)

theorem map_remove_node_correct_witness:
  "\<exists>m'. map_remove_node two_ranges 0 = Inr m' \<and> map_ok m' \<and> ranges m' = [new_range 200 10 None]"
  using map_remove_node_correct [OF map_ok_two_ranges, of 0] by simp

text \<open>
  On a map used as a hash table, two neighbouring keys are merged: after storing one record
  under key 8 and another under key 9, the search for key 9 returns the record of key 8.
\<close>

theorem hash_map_confuses_neighbours:
  "\<exists>m1 m2 m3 r1 r2.
    map_add_key_val (example_map\<lparr>is_hash := True\<rparr>) 8 (Some [1]) = Inr (m1, r1) \<and>
    map_add_key_val m1 9 (Some [2]) = Inr (m2, r2) \<and>
    map_search_key m2 9 = Inr (m3, Some [1])"
  by (simp add: map_add_key_val_def map_search_key_def map_contains_def add_eval)

end
