(* ===== verification/Range_Array.thy ===== *)
theory Range_Array
  imports Range_Ops
begin

text \<open>
  The last two operations of \<^verbatim>\<open>range_tree/dtree.c\<close>, which the runtime does not call: collecting the ranges that
  meet an interval (\<^verbatim>\<open>map_range_to_array\<close>) and printing a map (\<^verbatim>\<open>map_inspect\<close>).
\<close>

section \<open>Collecting ranges\<close>

text \<open>
  Going on to the next range: the root becomes the left child of the first node on its right.  The code
  does not ask whether there is one.
\<close>

definition advance :: "range_node_t \<Rightarrow> addr_t \<Rightarrow> range_node_t res" where
  "advance t b =
     (case t of
        Leaf \<Rightarrow> Inl BadAccess
      | Node lc x rc \<Rightarrow>
          (case splay rc b of
             Leaf \<Rightarrow> Inl BadAccess
           | Node _ y rc' \<Rightarrow> Inr (Node (Node lc x Leaf) y rc')))"

text \<open>The counting loop; each pass moves a node from the right to the left, so the size of the tree is enough fuel.\<close>

fun count_ranges :: "nat \<Rightarrow> range_node_t \<Rightarrow> addr_t \<Rightarrow> size_t \<Rightarrow> uint \<Rightarrow> (uint \<times> range_node_t) res" where
  "count_ranges fuel Leaf b sz n = Inl BadAccess"
| "count_ranges 0 (Node lc x rc) b sz n = Inl Diverges"
| "count_ranges (Suc k) (Node lc x rc) b sz n =
     (if base x < b + sz then
        res_bind (advance (Node lc x rc) b) (\<lambda>t. count_ranges k t b sz (n + 1))
      else Inr (n, Node lc x rc))"

text \<open>
  The second loop stores the addresses of the ranges one after the other from \<^verbatim>\<open>ranges\<close> on, which is the
  address of one pointer of the caller; \<open>room\<close> is how many pointers there are behind it.
\<close>

fun collect_ranges ::
  "nat \<Rightarrow> nat \<Rightarrow> nat \<Rightarrow> range_node_t \<Rightarrow> addr_t \<Rightarrow> (range_node_t \<times> mem_range_t list) res" where
  "collect_ranges room i 0 t b = Inr (t, [])"
| "collect_ranges room i (Suc k) Leaf b = Inl BadAccess"
| "collect_ranges room i (Suc k) (Node lc x rc) b =
     (if i \<ge> room then Inl BadAccess
      else
        res_bind (advance (Node lc x rc) b) (\<lambda>t1.
        res_bind (collect_ranges room (Suc i) k t1 b) (\<lambda>(t2, xs). Inr (t2, x # xs))))"

definition map_range_to_array ::
  "nat \<Rightarrow> map_t \<Rightarrow> addr_t \<Rightarrow> size_t \<Rightarrow> (map_t \<times> mem_range_t list \<times> uint) res" where
  "map_range_to_array room m b sz =
     (let t = splay (root m) b in
      case t of
        Leaf \<Rightarrow> Inl BadAccess
      | Node _ x _ \<Rightarrow>
          res_bind (if base x + rsize x > b then count_ranges (size t) t b sz 0 else Inr (0, t)) (\<lambda>(n, t1).
          res_bind (collect_ranges room 0 (unat n) (splay t1 b) b) (\<lambda>(t2, xs).
            Inr (m\<lparr>root := t2\<rparr>, xs, n))))"

section \<open>Printing\<close>

text \<open>
  What \<^verbatim>\<open>map_inspect\<close> prints: the size and the name of the map, and for each range its first address, its end,
  its page and its size.  Without a map it asks for the name of the map that is not there.
\<close>

definition PAGESIZEX :: nat where "PAGESIZEX = 12"

definition inspect_range :: "mem_range_t \<Rightarrow> addr_t \<times> addr_t \<times> addr_t \<times> size_t" where
  "inspect_range r = (base r, base r + rsize r, drop_bit PAGESIZEX (base r), rsize r)"

definition map_inspect :: "map_t option \<Rightarrow> ((size_t \<times> string) \<times> (addr_t \<times> addr_t \<times> addr_t \<times> size_t) list) res" where
  "map_inspect om =
     (case om of
        None \<Rightarrow> Inl BadAccess
      | Some m \<Rightarrow> Inr ((msize m, mname m), map inspect_range (array_ranges m)))"

section \<open>The walk runs off the end\<close>

lemma advance_shrinks:
  assumes "advance (Node lc x rc) b = Inr (Node lc' y rc')"
  shows "size rc' < size rc" "set_tree rc' \<subseteq> set_tree rc" "y \<in> set_tree rc"
proof -
  obtain l where s: "splay rc b = Node l y rc'"
    using assms by (auto simp: advance_def split: tree.splits)
  have "size (splay rc b) = size rc" "set_tree (splay rc b) = set_tree rc"
    by (simp_all only: size_splay flip: set_inorder) (simp only: inorder_splay)
  then show "size rc' < size rc" "set_tree rc' \<subseteq> set_tree rc" "y \<in> set_tree rc" unfolding s by auto
qed

lemma advance_cases:
  obtains "advance (Node lc x rc) b = Inl BadAccess"
  | lc' y rc' where "advance (Node lc x rc) b = Inr (Node lc' y rc')"
  by (cases "splay rc b") (auto simp: advance_def)

text \<open>The fuel is enough: the count ends or faults, but never runs out.\<close>

lemma count_ranges_ends: "size rc < fuel \<Longrightarrow> count_ranges fuel (Node lc x rc) b sz n \<noteq> Inl Diverges"
proof (induction fuel arbitrary: lc x rc n)
  case (Suc k)
  show ?case
  proof (cases lc x rc b rule: advance_cases)
    case (2 lc' y rc')
    then have "size rc' < k" using advance_shrinks(1) [OF 2] Suc.prems by simp
    then show ?thesis using Suc.IH 2 by simp
  qed simp
qed simp

lemma count_ranges_faults:
  assumes "size rc < fuel" and "\<forall>y \<in> insert x (set_tree rc). base y < b + sz"
  shows "count_ranges fuel (Node lc x rc) b sz n = Inl BadAccess"
  using assms
proof (induction fuel arbitrary: lc x rc n)
  case (Suc k)
  show ?case
  proof (cases lc x rc b rule: advance_cases)
    case 1
    then show ?thesis using Suc.prems by simp
  next
    case (2 lc' y rc')
    note a = advance_shrinks [OF 2]
    have "size rc' < k" "\<forall>z \<in> insert y (set_tree rc'). base z < b + sz" using a Suc.prems by auto
    then show ?thesis using Suc.IH 2 Suc.prems by simp
  qed
qed simp

text \<open>
  \<^verbatim>\<open>map_range_to_array\<close> faults whenever no range of the map begins behind the interval, whatever the caller
  provides: its loop looks for the next range without asking whether there is one.
\<close>
lemma range_to_array_faults:
  assumes "splay (root m) b = Node lc x rc" and "base x + rsize x > b"
    and "\<forall>y \<in> set (ranges m). base y < b + sz"
  shows "map_range_to_array room m b sz = Inl BadAccess"
proof -
  have set: "set_tree (Node lc x rc) = set (ranges m)"
    using assms(1) inorder_splay [of "root m" b] by (simp flip: set_inorder)
  have "count_ranges (size (Node lc x rc)) (Node lc x rc) b sz 0 = Inl BadAccess"
    by (rule count_ranges_faults) (use assms(3) set in auto)
  then show ?thesis using assms(1,2) by (simp add: map_range_to_array_def)
qed

end
