(* ===== verification/Task_Ranges.thy ===== *)
theory Task_Ranges
  imports Range_Ops
begin

text \<open>
  \<^verbatim>\<open>map_add_range_from_task\<close> of \<^verbatim>\<open>postwait.c\<close> with its helpers: maps whose ranges carry the index of
  the task that wrote them.  Unlike \<^verbatim>\<open>map_add_range\<close> it never merges ranges: it inserts a range that
  overlaps nothing, replaces one that is the same, and gives up on every other overlap it notices.

  Giving up means a call of \<^verbatim>\<open>BOP_abort_spec\<close> and a null result; here the result is \<open>None\<close> and the
  callers make the call.  At that point the tree has been splayed but \<^verbatim>\<open>map->root\<close> still points to
  the node that was the root before, so the map is left with the subtree under that node.
\<close>

section \<open>Model\<close>

fun subtree_at :: "addr_t \<Rightarrow> range_node_t \<Rightarrow> range_node_t" where
  "subtree_at b Leaf = Leaf"
| "subtree_at b (Node lc x rc) =
     (if b = base x then Node lc x rc
      else if b < base x then subtree_at b lc else subtree_at b rc)"

definition range_remove_overlap_return_leftover ::
    "mem_range_t \<Rightarrow> addr_t \<Rightarrow> size_t \<Rightarrow> mem_range_t \<times> range_node_t" where
  "range_remove_overlap_return_leftover rg obase osize =
     (let rg' = (if base rg < obase then rg\<lparr>rsize := obase - base rg\<rparr> else rg)
      in if base rg' + rsize rg' > obase + osize
         then (rg', Node Leaf
                ((new_range (obase + osize) (base rg' + rsize rg' - (obase + osize)) None)\<lparr>task := task rg'\<rparr>)
                Leaf)
         else (rg', Leaf))"

definition data_clone :: "block \<Rightarrow> size_t \<Rightarrow> block res" where
  "data_clone src sz = (if length src < unat sz then Inl BadAccess else Inr (take (unat sz) src))"

definition clone_opt :: "block option \<Rightarrow> size_t \<Rightarrow> block option res" where
  "clone_opt obj sz =
     (case obj of None \<Rightarrow> Inr None | Some src \<Rightarrow> res_bind (data_clone src sz) (\<lambda>d. Inr (Some d)))"

definition overlaps_root :: "mem_range_t \<Rightarrow> range_node_t \<Rightarrow> bool" where
  "overlaps_root n t = (case t of Leaf \<Rightarrow> False | Node _ x _ \<Rightarrow> overlap n x \<noteq> None)"

text \<open>The two assertions on the root of a subtree.\<close>

definition root_ends_by :: "range_node_t \<Rightarrow> addr_t \<Rightarrow> bool" where
  "root_ends_by t a = (case t of Leaf \<Rightarrow> True | Node _ x _ \<Rightarrow> base x + rsize x \<le> a)"

definition root_begins_at :: "range_node_t \<Rightarrow> addr_t \<Rightarrow> bool" where
  "root_begins_at t a = (case t of Leaf \<Rightarrow> True | Node _ x _ \<Rightarrow> a \<le> base x)"

definition map_add_range_from_task ::
    "map_t \<Rightarrow> addr_t \<Rightarrow> size_t \<Rightarrow> block option \<Rightarrow> uint \<Rightarrow> (map_t \<times> mem_range_t option) res" where
  "map_add_range_from_task m b s obj ppr_id =
     (if \<not> s > 0 then Inl AssertFailed
      else res_bind (clone_opt obj s) (\<lambda>dat.
        let n = (new_range b s dat)\<lparr>task := ppr_id\<rparr> in
        if root m = Leaf then Inr (m\<lparr>root := Node Leaf n Leaf, msize := 1\<rparr>, Some n)
        else case splay (root m) b of
          Leaf \<Rightarrow> Inl BadAccess
        | Node lc tp rc \<Rightarrow>
          let has_overlap = (overlap n tp \<noteq> None \<or> overlaps_root n lc) in
          if \<not> has_overlap then
            if base n < base tp then
              if \<not> root_ends_by lc (base n)
              then Inl AssertFailed
              else Inr (m\<lparr>root := Node lc n (Node Leaf tp rc), msize := msize m + 1\<rparr>, Some n)
            else
              if \<not> root_begins_at rc (base n + rsize n)
              then Inl AssertFailed
              else Inr (m\<lparr>root := Node (Node lc tp Leaf) n rc, msize := msize m + 1\<rparr>, Some n)
          else if base n = base tp \<and> rsize n = rsize tp then
            let tp' = (if task tp > ppr_id then tp else tp\<lparr>rec := rec n, task := ppr_id\<rparr>)
            in Inr (m\<lparr>root := Node lc tp' rc\<rparr>, Some tp')
          else Inr (m\<lparr>root := subtree_at (base (value (root m))) (Node lc tp rc)\<rparr>, None)))"

section \<open>Invariant and disjointness\<close>

text \<open>Ranges of different tasks may touch, so the map keeps disjoint ranges only.\<close>

definition tmap_ok :: "map_t \<Rightarrow> bool" where
  "tmap_ok m \<longleftrightarrow> ordered (ranges m) \<and> msize m = of_nat (length (ranges m))"

definition clear_of :: "addr_t \<Rightarrow> addr_t \<Rightarrow> mem_range_t \<Rightarrow> bool" where
  "clear_of b e x \<longleftrightarrow> e \<le> base x \<or> rend x \<le> b"

lemma map_ok_tmap: "map_ok m \<Longrightarrow> tmap_ok m"
  by (simp add: map_ok_def tmap_ok_def apart_imp_ordered)

lemma tmap_ok_clear [simp]: "tmap_ok (map_clear m)"
  by (rule map_ok_tmap) simp

lemma clear_of_bytes:
  assumes "b < e" and "valid x"
  shows "clear_of b e x \<longleftrightarrow> {b ..< e} \<inter> range_bytes x = {}"
proof
  assume "clear_of b e x"
  then show "{b ..< e} \<inter> range_bytes x = {}" by (auto simp: clear_of_def)
next
  assume d: "{b ..< e} \<inter> range_bytes x = {}"
  then have "max b (base x) \<notin> {b ..< e} \<inter> range_bytes x" by simp
  with assms show "clear_of b e x" by (auto simp: clear_of_def valid_def max_def split: if_splits)
qed

definition fresh_range :: "addr_t \<Rightarrow> size_t \<Rightarrow> block option \<Rightarrow> uint \<Rightarrow> mem_range_t" where
  "fresh_range b s dat t = (new_range b s dat)\<lparr>task := t\<rparr>"

lemma fresh_range_simps [simp]:
  "base (fresh_range b s dat t) = b" "rsize (fresh_range b s dat t) = s"
  "rend (fresh_range b s dat t) = b + s" "rec (fresh_range b s dat t) = dat"
  "task (fresh_range b s dat t) = t"
  by (simp_all add: fresh_range_def)

lemma overlap_clear:
  assumes "b < b + s" and "valid x"
  shows "overlap (fresh_range b s dat t) x = None \<longleftrightarrow> clear_of b (b + s) x"
  using assms overlap_None_iff [of "fresh_range b s dat t" x] by (auto simp: valid_def clear_of_def)

section \<open>A range that overlaps nothing is inserted\<close>

lemma add_from_task_clear:
  assumes "tmap_ok m" and "b < b + s" and "clone_opt obj s = Inr dat"
    and "\<forall>x \<in> set (ranges m). clear_of b (b + s) x"
  obtains m' pre post where
    "map_add_range_from_task m b s obj t = Inr (m', Some (fresh_range b s dat t))"
    and "tmap_ok m'" and "same_map m m'"
    and "ranges m = pre @ post" and "ranges m' = pre @ fresh_range b s dat t # post"
proof (cases "splay (root m) b")
  case Leaf
  then have r: "root m = Leaf" by simp
  have s: "s > 0" using assms(2) by (auto simp: word_neq_0_conv [symmetric])
  let ?m = "m\<lparr>root := Node Leaf (fresh_range b s dat t) Leaf, msize := 1\<rparr>"
  have "map_add_range_from_task m b s obj t = Inr (?m, Some (fresh_range b s dat t))"
    using r s assms(3) by (simp add: map_add_range_from_task_def fresh_range_def Let_def)
  moreover have "tmap_ok ?m" using assms(2) by (simp add: tmap_ok_def sep_simps valid_def)
  ultimately show ?thesis using that [of ?m "[]" "[]"] r by (simp add: same_map_def)
next
  case (Node lc tp rc)
  define n where "n = fresh_range b s dat t"
  have s: "s > 0" using assms(2) by (auto simp: word_neq_0_conv [symmetric])
  have ord: "ordered (ranges m)" using assms(1) by (simp add: tmap_ok_def)
  have i: "ranges m = inorder lc @ tp # inorder rc"
    and L: "\<forall>r \<in> set (inorder lc). base r < b \<and> rend r \<le> base tp"
    and R: "\<forall>r \<in> set (inorder rc). b < base r \<and> rend tp \<le> base r"
    and tp: "base tp < rend tp" by (rule splay_NodeE [OF Node ord], blast)+
  have v: "valid x" if "x \<in> set (ranges m)" for x using that ord by (simp add: ordered_def)
  have c: "clear_of b (b + s) x" if "x \<in> set (inorder lc) \<or> x = tp \<or> x \<in> set (inorder rc)" for x
    using that assms(4) i by auto
  have Lc: "rend r \<le> b" if "r \<in> set (inorder lc)" for r
    using c [of r] L that assms(2) by (auto simp: clear_of_def)
  have Rc: "b + s \<le> base r" if "r \<in> set (inorder rc)" for r
    using c [of r] R v [of r] that i by (auto simp: clear_of_def valid_def)
  have no: "overlap n tp = None" "\<not> overlaps_root n lc"
    using overlap_clear [OF assms(2) v] c i
    by (auto simp: n_def overlaps_root_def split: tree.splits)
  have root_ne: "root m \<noteq> Leaf" using Node by (metis splay_Leaf tree.distinct(1))
  have le: "root_ends_by lc (base n)"
    using Lc by (auto simp: root_ends_by_def n_def rend_def split: tree.splits)
  have re: "root_begins_at rc (base n + rsize n)"
    using Rc by (auto simp: root_begins_at_def n_def split: tree.splits)
  have nv: "valid n" "base n = b" "rend n = b + s" using assms(2) by (simp_all add: n_def valid_def)
  have lr: "rend r \<le> base r'" if "r \<in> set (inorder lc)" "r' \<in> set (inorder rc)" for r r'
    using ord that unfolding i by (simp add: sep_simps)
  have eq: "map_add_range_from_task m b s obj t =
      (if b < base tp
       then Inr (m\<lparr>root := Node lc n (Node Leaf tp rc), msize := msize m + 1\<rparr>, Some n)
       else Inr (m\<lparr>root := Node (Node lc tp Leaf) n rc, msize := msize m + 1\<rparr>, Some n))"
  proof -
    have "(new_range b s dat)\<lparr>task := t\<rparr> = n" by (simp add: n_def fresh_range_def)
    with s assms(3) root_ne Node no le re nv(2) show ?thesis
      by (simp add: map_add_range_from_task_def Let_def)
  qed
  have sz: "msize m + 1 = of_nat (Suc (length (ranges m)))"
    using assms(1) by (simp add: tmap_ok_def)
  show ?thesis
  proof (cases "b < base tp")
    case True
    then have "b + s \<le> base tp" using c [of tp] tp by (auto simp: clear_of_def)
    then have "ordered (inorder lc @ n # tp # inorder rc)"
      using ord unfolding i using nv Lc Rc by (auto simp: sep_simps)
    with True eq i sz show ?thesis
      by (intro that [of "m\<lparr>root := Node lc n (Node Leaf tp rc), msize := msize m + 1\<rparr>"
            "inorder lc" "tp # inorder rc"]) (simp_all add: tmap_ok_def same_map_def n_def)
  next
    case False
    then have "rend tp \<le> b" using c [of tp] assms(2) by (auto simp: clear_of_def)
    then have "ordered (inorder lc @ tp # n # inorder rc)"
      using ord unfolding i using nv Lc Rc by (auto simp: sep_simps)
    with False eq i sz show ?thesis
      by (intro that [of "m\<lparr>root := Node (Node lc tp Leaf) n rc, msize := msize m + 1\<rparr>"
            "inorder lc @ [tp]" "inorder rc"]) (simp_all add: tmap_ok_def same_map_def n_def)
  qed
qed

section \<open>A range that is already there is replaced by the later task\<close>

lemma add_from_task_same:
  assumes "tmap_ok m" and "clone_opt obj s = Inr dat"
    and "x \<in> set (ranges m)" and "base x = b" and "rsize x = s"
  obtains m' pre post where
    "ranges m = pre @ x # post"
    and "map_add_range_from_task m b s obj t =
      Inr (m', Some (if task x > t then x else x\<lparr>rec := dat, task := t\<rparr>))"
    and "ranges m' = pre @ (if task x > t then x else x\<lparr>rec := dat, task := t\<rparr>) # post"
    and "tmap_ok m'" and "same_map m m'"
proof -
  have ord: "ordered (ranges m)" using assms(1) by (simp add: tmap_ok_def)
  then have vx: "base x < rend x" using assms(3) by (simp add: ordered_valid)
  obtain lc tp rc where Node: "splay (root m) b = Node lc tp rc"
    using assms(3) by (cases "splay (root m) b") auto
  have i: "ranges m = inorder lc @ tp # inorder rc"
    and L: "\<forall>r \<in> set (inorder lc). base r < b \<and> rend r \<le> base tp"
    and R: "\<forall>r \<in> set (inorder rc). b < base r \<and> rend tp \<le> base r"
    by (rule splay_NodeE [OF Node ord], blast)+
  have tp: "tp = x" using assms(3,4) i L R by auto
  have s: "s > 0" using vx assms(5) by (auto simp: rend_def word_neq_0_conv [symmetric])
  have root_ne: "root m \<noteq> Leaf" using Node by (metis splay_Leaf tree.distinct(1))
  define x' where "x' = (if task x > t then x else x\<lparr>rec := dat, task := t\<rparr>)"
  have x': "base x' = base x" "rsize x' = rsize x" "rend x' = rend x" by (simp_all add: x'_def)
  have ov: "overlap ((new_range b s dat)\<lparr>task := t\<rparr>) tp \<noteq> None"
    using vx assms(4,5) by (simp add: overlap_def tp rend_def)
  then have eq: "map_add_range_from_task m b s obj t = Inr (m\<lparr>root := Node lc x' rc\<rparr>, Some x')"
    using s assms(2,4,5) root_ne Node by (auto simp: map_add_range_from_task_def tp x'_def Let_def)
  have "ordered (inorder lc @ x' # inorder rc)"
    using ord x' unfolding i tp by (simp add: sep_simps valid_def)
  then have "tmap_ok (m\<lparr>root := Node lc x' rc\<rparr>)"
    using assms(1) by (simp add: tmap_ok_def i)
  with eq i tp show ?thesis
    by (intro that [of "inorder lc" "inorder rc" "m\<lparr>root := Node lc x' rc\<rparr>"])
      (simp_all add: x'_def same_map_def)
qed

section \<open>Properties\<close>

definition add_list_from_task :: "map_t \<Rightarrow> (addr_t \<times> size_t) list \<Rightarrow> uint \<Rightarrow> map_t res" where
  "add_list_from_task m xs t =
     res_fold (\<lambda>(b, s) m. res_bind (map_add_range_from_task m b s None t) (\<lambda>(m', _). Inr m')) xs m"

lemmas from_task_eval = add_list_from_task_def map_add_range_from_task_def clone_opt_def data_clone_def
  overlaps_root_def root_ends_by_def root_begins_at_def splay_def splay_loop.simps splay_end_def
  new_node_def new_range_def overlap_def Let_def

text \<open>
  A range that shares no byte with the map is inserted as it is, with its data and the index of
  its task: the map keeps its other ranges and its invariant, and denotes its old bytes and the new
  ones.
\<close>

theorem add_from_task_inserts:
  assumes "tmap_ok m" and "b < b + s" and "map_bytes m \<inter> {b ..< b + s} = {}"
  shows "\<exists>m' r. map_add_range_from_task m b s None t = Inr (m', Some r) \<and> tmap_ok m' \<and>
    base r = b \<and> rsize r = s \<and> task r = t \<and>
    set (ranges m') = insert r (set (ranges m)) \<and> map_bytes m' = map_bytes m \<union> {b ..< b + s}"
proof -
  have "clear_of b (b + s) x" if "x \<in> set (ranges m)" for x
  proof -
    have "valid x" using that assms(1) by (simp add: tmap_ok_def ordered_def)
    moreover have "{b ..< b + s} \<inter> range_bytes x = {}" using that assms(3) by (auto simp: bytes_def)
    ultimately show ?thesis using clear_of_bytes [OF assms(2)] by blast
  qed
  then have clear: "\<forall>x \<in> set (ranges m). clear_of b (b + s) x" by blast
  have none: "clone_opt None s = Inr None" by (simp add: clone_opt_def)
  obtain m' pre post where m': "map_add_range_from_task m b s None t = Inr (m', Some (fresh_range b s None t))"
    "tmap_ok m'" "same_map m m'" "ranges m = pre @ post" "ranges m' = pre @ fresh_range b s None t # post"
    by (rule add_from_task_clear [OF assms(1,2) none clear, of t])
  then show ?thesis
    by (intro exI [of _ m'] exI [of _ "fresh_range b s None t"]) (auto simp: range_bytes_def)
qed

theorem add_from_task_inserts_witness:
  "\<exists>m' r. map_add_range_from_task (init_empty_map None []) 8 4 None 1 = Inr (m', Some r) \<and> task r = 1"
  using add_from_task_inserts [of "init_empty_map None []" 8 4 1] 
  by (simp add: map_ok_tmap) (metis bytes_simps(1) inorder.simps(1) inf_bot_left init_empty_map_def map_t.select_convs(3))

text \<open>
  An overlap can go unnoticed.  After task 1 has written \<open>[0, 10)\<close>, \<open>[500, 510)\<close>, \<open>[100, 200)\<close> and
  \<open>[300, 310)\<close> in this order, \<open>[150, 160)\<close> is inserted although it lies inside of \<open>[100, 200)\<close>: only
  the root and its left child are tested.  The map then no longer has disjoint ranges.
\<close>

theorem add_from_task_misses_overlap:
  "\<exists>m m'. add_list_from_task (init_empty_map None []) [(0, 10), (500, 10), (100, 100), (300, 10)] 1 = Inr m \<and>
    tmap_ok m \<and> add_list_from_task m [(150, 10)] 2 = Inr m' \<and> \<not> tmap_ok m'"
  by (simp add: from_task_eval init_empty_map_def tmap_ok_def sep_simps valid_def rend_def)

end
