(* ===== verification/Bop_State.thy ===== *)
theory Bop_State
  imports Range_Ops
begin

text \<open>
  The global variables of one process of the runtime, in one record, and the outcome of a call
  that works on them.

  The fields are grouped by the source file that declares the variable.  Some of them live in
  shared memory in the program (\<^verbatim>\<open>write_union\<close>, \<^verbatim>\<open>patches\<close>, the switch board, the sync data, the
  output buffers); a record is the view of one process, and \<open>share\<close> carries the shared fields
  from one process to another.
\<close>

section \<open>Outcome of a call\<close>

text \<open>
  A call on the process state returns, ends the process (\<^verbatim>\<open>_exit\<close>), aborts it (a failed assertion, a
  bad access, a loop without end), or waits for another process.
\<close>

datatype ('s, 'a) outcome =
    Returned 'a 's
  | Exited int 's
  | Aborted abort_cause
  | Blocked 's

type_synonym ('s, 'a) prog = "'s \<Rightarrow> ('s, 'a) outcome"

definition ret :: "'a \<Rightarrow> ('s, 'a) prog" where
  "ret x s = Returned x s"

definition seq :: "('s, 'a) prog \<Rightarrow> ('a \<Rightarrow> ('s, 'b) prog) \<Rightarrow> ('s, 'b) prog" where
  "seq m f s =
     (case m s of
        Returned x s' \<Rightarrow> f x s'
      | Exited c s' \<Rightarrow> Exited c s'
      | Aborted e \<Rightarrow> Aborted e
      | Blocked s' \<Rightarrow> Blocked s')"

definition lift_res :: "('s \<Rightarrow> 'a res) \<Rightarrow> ('s, 'a) prog" where
  "lift_res f s = (case f s of Inl e \<Rightarrow> Aborted e | Inr x \<Rightarrow> Returned x s)"

definition update_res :: "('s \<Rightarrow> 's res) \<Rightarrow> ('s, unit) prog" where
  "update_res f s = (case f s of Inl e \<Rightarrow> Aborted e | Inr s' \<Rightarrow> Returned () s')"

definition assertion :: "('s \<Rightarrow> bool) \<Rightarrow> ('s, unit) prog" where
  "assertion P s = (if P s then Returned () s else Aborted AssertFailed)"

fun seq_all :: "('s, unit) prog list \<Rightarrow> ('s, unit) prog" where
  "seq_all [] s = Returned () s"
| "seq_all (p # ps) s = seq p (\<lambda>_. seq_all ps) s"

lemma seq_simps [simp]:
  "m s = Returned x s' \<Longrightarrow> seq m f s = f x s'"
  "m s = Exited c s' \<Longrightarrow> seq m f s = Exited c s'"
  "m s = Aborted e \<Longrightarrow> seq m f s = Aborted e"
  "m s = Blocked s' \<Longrightarrow> seq m f s = Blocked s'"
  by (simp_all add: seq_def)

lemma seq_eq_Returned:
  "seq m f s = Returned y t \<longleftrightarrow> (\<exists>x s'. m s = Returned x s' \<and> f x s' = Returned y t)"
  by (cases "m s") simp_all

lemma seq_ReturnedE [elim]:
  assumes "seq m f s = Returned y t"
  obtains x s' where "m s = Returned x s'" and "f x s' = Returned y t"
  using assms by (auto simp: seq_eq_Returned)

lemma ret_simp [simp]: "ret x s = Returned x s"
  by (simp add: ret_def)

lemma seq_assoc: "seq (seq m f) g s = seq m (\<lambda>x. seq (f x) g) s"
  by (cases "m s") (simp_all add: seq_def)

lemma seq_all_append: "seq_all (ps @ qs) s = seq (seq_all ps) (\<lambda>_. seq_all qs) s"
proof (induction ps arbitrary: s)
  case Nil
  then show ?case by simp
next
  case (Cons p ps)
  then show ?case by (cases "p s") (simp_all add: seq_def)
qed

section \<open>Records of the source files\<close>

text \<open>
  \<^verbatim>\<open>channel_t\<close> of \<^verbatim>\<open>postwait.c\<close>.  The chain pointers point into the array of channels, so they are
  indices, with \<open>None\<close> for null.
\<close>

record channel_t =
  ch_id :: addr_t
  ch_data :: map_t
  ch_sender :: uint
  is_posted :: bool
  cc_first :: "nat option"
  cc_next :: "nat option"

text \<open>
  \<^verbatim>\<open>sync_status_t\<close> and \<^verbatim>\<open>sync_data_t\<close> of \<^verbatim>\<open>bop_ppr_sync.c\<close>.  A lock is a byte that is 0 when free and
  1 when held: a boolean that is true when it is held.
\<close>

record sync_status_t =
  spec_checked :: bool
  spec_correct :: int
  data_committed :: bool

record sync_data_t =
  sd_lock :: bool
  alloc_size :: int
  group_size :: int
  partial_size :: int
  sync_status :: "sync_status_t list"
  undy_created :: bool
  undy_pid :: int
  undy_conceded :: bool

text \<open>
  \<^verbatim>\<open>stats_t\<close> of \<^verbatim>\<open>bop_api.h\<close> without the start time.  The counters are C integers; their overflow is
  not modelled.
\<close>

record stats_t =
  num_by_spec :: int
  num_by_main :: int
  num_by_undy :: int
  data_copied :: int
  data_posted :: int

text \<open>
  \<^verbatim>\<open>output_buffer\<close> of \<^verbatim>\<open>bop_io.c\<close>.  The field \<^verbatim>\<open>data\<close> points to a block of \<^verbatim>\<open>alloc\<close> characters, or is
  null.
\<close>

record output_buffer =
  ob_alloc :: size_t
  ob_used :: size_t
  ob_data :: "string option"

text \<open>
  The signals the sources name, and what \<^verbatim>\<open>waitpid\<close> reports of a child: how it ended or stopped.
\<close>

datatype signal_t =
    SIGUSR1 | SIGUSR2 | SIGKILL | SIGINT | SIGABRT | SIGSEGV | SIGBUS | SIGCHLD | SIGTTIN | SigOther int

datatype wait_status =
    WExited int
  | WSignaled signal_t
  | WStopped signal_t
  | WContinued
  | WOther int

section \<open>The state of a process\<close>

record bop_state =
  \<comment> \<open>bop_ppr.c\<close>
  task_status :: task_status_t
  ppr_pos :: ppr_pos_t
  bop_mode :: bop_mode_t
  spec_order :: int
  ppr_index :: int
  ppr_static_id :: int
  undy_ppr_count :: int
  bop_stats :: stats_t
  monitor_group :: int
  is_monitoring :: bool
  monitor_process_id :: int
  errored :: bool
  bopgroup :: int
  \<comment> \<open>the operating system's view: pid, process group, blocked signals, signals sent, and the
      events that \<^verbatim>\<open>waitpid\<close> will report before it returns -1\<close>
  my_pid :: int
  my_pgrp :: int
  sig_blocked :: "signal_t set"
  sent :: "(int \<times> signal_t) list"
  children :: "(int \<times> wait_status) list"
  \<comment> \<open>utils.c\<close>
  bop_verbose :: int
  \<comment> \<open>bop_ppr_sync.c (shared)\<close>
  sync_data :: "sync_data_t option"
  \<comment> \<open>the memory of the process\<close>
  mem :: memory
  \<comment> \<open>bop_merge.c; the last three are shared\<close>
  read_map :: map_t
  write_map :: map_t
  conflict_addr :: addr_t
  merge_ready :: bool
  patches :: "map_t list"
  num_patches :: uint
  write_union :: map_t
  \<comment> \<open>postwait.c; the switch board is shared\<close>
  received :: map_t
  received_n_used :: map_t
  local_ch_id :: addr_t
  local_ch_data :: map_t
  pw_ready :: bool
  channels :: "channel_t list"
  sb_lock :: bool
  \<comment> \<open>bop_ordered.c\<close>
  ordered_writes :: map_t
  in_ordered_region :: bool
  ordered_region_id :: addr_t
  \<comment> \<open>bop_io.c; the buffers are shared, the last field is what was printed\<close>
  io_mspace :: "mspace option"
  output_buffers :: "output_buffer list option"
  undy_buffer :: output_buffer
  num_buffers :: uint
  given_to_workers :: bool
  stdout :: string

type_synonym 'a bop = "(bop_state, 'a) prog"

definition share :: "bop_state \<Rightarrow> bop_state \<Rightarrow> bop_state" where
  "share src dst = dst\<lparr>sync_data := sync_data src, patches := patches src,
     num_patches := num_patches src, write_union := write_union src,
     channels := channels src, sb_lock := sb_lock src,
     output_buffers := output_buffers src\<rparr>"

text \<open>The values of the static initialisers, before the constructor runs; \<open>m\<close> is the initial memory.\<close>

definition no_map :: map_t where
  "no_map = init_empty_map None []"

definition program_start :: "memory \<Rightarrow> bop_state" where
  "program_start m =
     \<lparr>task_status = SEQ, ppr_pos = GAP, bop_mode = PARALLEL, spec_order = 0, ppr_index = 0,
      ppr_static_id = 0, undy_ppr_count = 0,
      bop_stats = \<lparr>num_by_spec = 0, num_by_main = 0, num_by_undy = 0, data_copied = 0, data_posted = 0\<rparr>,
      monitor_group = 0, is_monitoring = False, monitor_process_id = 0, errored = False, bopgroup = 0,
      my_pid = 1, my_pgrp = 1, sig_blocked = {}, sent = [], children = [], bop_verbose = 0,
      sync_data = None, mem = m,
      read_map = no_map, write_map = no_map, conflict_addr = 0, merge_ready = False,
      patches = [], num_patches = 0, write_union = no_map,
      received = no_map, received_n_used = no_map, local_ch_id = 0, local_ch_data = no_map,
      pw_ready = False, channels = [], sb_lock = False,
      ordered_writes = no_map, in_ordered_region = False, ordered_region_id = 0,
      io_mspace = None, output_buffers = None,
      undy_buffer = \<lparr>ob_alloc = 0, ob_used = 0, ob_data = None\<rparr>, num_buffers = 0,
      given_to_workers = False, stdout = []\<rparr>"

end
