(* ===== verification/Sync.thy ===== *)
theory Sync
  imports Bop_State
begin

text \<open>
  \<^verbatim>\<open>bop_ppr_sync.c\<close> and the locks of \<^verbatim>\<open>atomic.h\<close>: the shared record through which the tasks of a
  group signal their progress, the partial group size, and the operations that set, signal and
  wait.

  \<^verbatim>\<open>bop_lock_acquire\<close> on a held lock spins until another process releases it, so here it is
  \<open>Blocked\<close>; the step semantics of a whole group of tasks is in the theory of the commit protocol.
  An access to \<^verbatim>\<open>sync_status\<close> out of range, or to \<^verbatim>\<open>sync_data\<close> before it is allocated, is a bad
  access.
\<close>

section \<open>Locks\<close>

text \<open>A lock is a field of the state, given by its reader and its writer.\<close>

definition bop_lock_acquire :: "('s \<Rightarrow> bool) \<Rightarrow> (bool \<Rightarrow> 's \<Rightarrow> 's) \<Rightarrow> ('s, unit) prog" where
  "bop_lock_acquire get upd s = (if get s then Blocked s else Returned () (upd True s))"

definition bop_lock_release :: "(bool \<Rightarrow> 's \<Rightarrow> 's) \<Rightarrow> ('s, unit) prog" where
  "bop_lock_release upd s = Returned () (upd False s)"

text \<open>\<^verbatim>\<open>backoff\<close> counts down without effect and doubles the counter while it is below 4096.\<close>

definition backoff :: "int \<Rightarrow> int" where
  "backoff b = (if b < 4096 then b * 2 else b)"

section \<open>Access to the sync data\<close>

definition with_sync :: "(sync_data_t, 'a) prog \<Rightarrow> 'a bop" where
  "with_sync f s =
     (case sync_data s of
        None \<Rightarrow> Aborted BadAccess
      | Some sd \<Rightarrow>
        (case f sd of
           Returned x sd' \<Rightarrow> Returned x (s\<lparr>sync_data := Some sd'\<rparr>)
         | Exited c sd' \<Rightarrow> Exited c (s\<lparr>sync_data := Some sd'\<rparr>)
         | Aborted e \<Rightarrow> Aborted e
         | Blocked sd' \<Rightarrow> Blocked (s\<lparr>sync_data := Some sd'\<rparr>)))"

definition with_status :: "int \<Rightarrow> (sync_status_t, 'a) prog \<Rightarrow> (sync_data_t, 'a) prog" where
  "with_status i f sd =
     (if i < 0 \<or> int (length (sync_status sd)) \<le> i then Aborted BadAccess
      else case f (sync_status sd ! nat i) of
        Returned x st \<Rightarrow> Returned x (sd\<lparr>sync_status := (sync_status sd)[nat i := st]\<rparr>)
      | Exited c st \<Rightarrow> Exited c (sd\<lparr>sync_status := (sync_status sd)[nat i := st]\<rparr>)
      | Aborted e \<Rightarrow> Aborted e
      | Blocked st \<Rightarrow> Blocked (sd\<lparr>sync_status := (sync_status sd)[nat i := st]\<rparr>))"

definition set_spec_checked :: "bool \<Rightarrow> sync_status_t \<Rightarrow> sync_status_t" where
  "set_spec_checked v st = st\<lparr>spec_checked := v\<rparr>"

definition set_data_committed :: "bool \<Rightarrow> sync_status_t \<Rightarrow> sync_status_t" where
  "set_data_committed v st = st\<lparr>data_committed := v\<rparr>"

definition set_undy_created :: "bool \<Rightarrow> sync_data_t \<Rightarrow> sync_data_t" where
  "set_undy_created v sd = sd\<lparr>undy_created := v\<rparr>"

definition set_undy_conceded :: "bool \<Rightarrow> sync_data_t \<Rightarrow> sync_data_t" where
  "set_undy_conceded v sd = sd\<lparr>undy_conceded := v\<rparr>"

definition set_sd_lock :: "bool \<Rightarrow> sync_data_t \<Rightarrow> sync_data_t" where
  "set_sd_lock v sd = sd\<lparr>sd_lock := v\<rparr>"

section \<open>Group sizes\<close>

definition partial_group_set_size :: "int \<Rightarrow> unit bop" where
  "partial_group_set_size psize =
     seq (assertion (\<lambda>_. psize \<ge> 1 \<and> psize \<le> 100)) (\<lambda>_.
     with_sync (\<lambda>sd.
       if partial_size sd > psize then
         seq (bop_lock_acquire sd_lock set_sd_lock) (\<lambda>_.
         seq (\<lambda>sd'. Returned () (sd'\<lparr>partial_size := psize\<rparr>)) (\<lambda>_.
         bop_lock_release set_sd_lock)) sd
       else Returned () sd))"

definition partial_group_get_size :: "int bop" where
  "partial_group_get_size = with_sync (\<lambda>sd. Returned (partial_size sd) sd)"

definition ppr_group_get_size :: "bop_state \<Rightarrow> int" where
  "ppr_group_get_size s = (case sync_data s of None \<Rightarrow> 1 | Some sd \<Rightarrow> group_size sd)"

definition BOP_get_group_size :: "bop_state \<Rightarrow> int" where
  "BOP_get_group_size s = ppr_group_get_size s"

text \<open>
  Each of the locks is cleared and then acquired, which leaves it held.  The loop runs to
  \<^verbatim>\<open>alloc_size\<close>, the length of the array.
\<close>

definition reset_status :: "sync_status_t \<Rightarrow> sync_status_t" where
  "reset_status st = st\<lparr>spec_checked := True, data_committed := True\<rparr>"

definition reset_sync :: "(sync_data_t, unit) prog" where
  "reset_sync sd =
     (if int (length (sync_status sd)) < alloc_size sd then Aborted BadAccess
      else Returned ()
        (sd\<lparr>sync_status := map reset_status (take (nat (alloc_size sd)) (sync_status sd))
                           @ drop (nat (alloc_size sd)) (sync_status sd),
            undy_created := True, undy_conceded := True, sd_lock := False,
            partial_size := group_size sd\<rparr>))"

definition ppr_sync_data_reset :: "unit bop" where
  "ppr_sync_data_reset = with_sync reset_sync"

text \<open>
  \<^verbatim>\<open>mspace_calloc\<close> fills with zeros.  \<^verbatim>\<open>mspace_realloc\<close> keeps the common prefix of the block; what a
  longer block holds behind it is not determined, so it is the argument \<open>junk\<close>.
\<close>

definition zero_status :: sync_status_t where
  "zero_status = \<lparr>spec_checked = False, spec_correct = 0, data_committed = False\<rparr>"

definition realloc_list :: "(nat \<Rightarrow> 'a) \<Rightarrow> 'a list \<Rightarrow> nat \<Rightarrow> 'a list" where
  "realloc_list junk xs n = take n xs @ map junk [length xs ..< n]"

definition alloc_sync :: "int \<Rightarrow> sync_data_t" where
  "alloc_sync gsize = \<lparr>sd_lock = False, alloc_size = gsize, group_size = 0, partial_size = 0,
     sync_status = replicate (nat gsize) zero_status,
     undy_created = False, undy_pid = 0, undy_conceded = False\<rparr>"

definition grow_sync :: "(nat \<Rightarrow> sync_status_t) \<Rightarrow> int \<Rightarrow> sync_data_t \<Rightarrow> sync_data_t" where
  "grow_sync junk gsize sd =
     (if group_size sd < gsize
      then sd\<lparr>sync_status := realloc_list junk (sync_status sd) (nat gsize), alloc_size := gsize\<rparr>
      else sd)"

definition ppr_group_set_size :: "(nat \<Rightarrow> sync_status_t) \<Rightarrow> int \<Rightarrow> unit bop" where
  "ppr_group_set_size junk gsize s =
     (if \<not> (gsize \<ge> 1 \<and> gsize \<le> 100) then Aborted AssertFailed
      else if task_status s \<noteq> SEQ then Returned () s
      else
        let sd0 = (case sync_data s of Some sd \<Rightarrow> sd | None \<Rightarrow> alloc_sync gsize);
            sd1 = (grow_sync junk gsize sd0)\<lparr>group_size := gsize\<rparr>
        in ppr_sync_data_reset (s\<lparr>sync_data := Some sd1\<rparr>))"

definition BOP_set_group_size :: "(nat \<Rightarrow> sync_status_t) \<Rightarrow> int \<Rightarrow> unit bop" where
  "BOP_set_group_size junk sz = ppr_group_set_size junk sz"

section \<open>Signals\<close>

definition signal_check_done :: "int \<Rightarrow> unit bop" where
  "signal_check_done passed s =
     with_sync (with_status (spec_order s)
       (seq (\<lambda>st. Returned () (st\<lparr>spec_correct := passed\<rparr>)) (\<lambda>_. bop_lock_release set_spec_checked))) s"

definition signal_commit_done :: "unit bop" where
  "signal_commit_done s =
     with_sync (with_status (spec_order s) (bop_lock_release set_data_committed)) s"

definition signal_undy_created :: "int \<Rightarrow> unit bop" where
  "signal_undy_created pid =
     with_sync (seq (\<lambda>sd. Returned () (sd\<lparr>undy_pid := pid\<rparr>)) (\<lambda>_. bop_lock_release set_undy_created))"

definition get_undy_pid :: "int bop" where
  "get_undy_pid = with_sync (\<lambda>sd. Returned (undy_pid sd) sd)"

definition signal_undy_conceded :: "unit bop" where
  "signal_undy_conceded = with_sync (bop_lock_release set_undy_conceded)"

section \<open>Waits\<close>

definition wait_prior_check_done :: "unit bop" where
  "wait_prior_check_done s =
     (if \<not> spec_order s \<ge> 1 then Aborted AssertFailed
      else with_sync (with_status (spec_order s - 1) (bop_lock_acquire spec_checked set_spec_checked)) s)"

definition wait_next_commit_done :: "unit bop" where
  "wait_next_commit_done s =
     with_sync (with_status (spec_order s + 1)
       (seq (bop_lock_acquire data_committed set_data_committed) (\<lambda>_.
        bop_lock_release set_data_committed))) s"

text \<open>
  The loop reads the partial size before every iteration.  Its fuel is the number of entries of the
  status array: an iteration beyond them is a bad access anyway.
\<close>

fun wait_group_loop :: "nat \<Rightarrow> int \<Rightarrow> (sync_data_t, unit) prog" where
  "wait_group_loop 0 i sd =
     (if i < partial_size sd - 1 then Aborted BadAccess else Returned () sd)"
| "wait_group_loop (Suc fuel) i sd =
     (if i < partial_size sd - 1
      then seq (with_status i (bop_lock_acquire data_committed set_data_committed))
             (\<lambda>_. wait_group_loop fuel (i + 1)) sd
      else Returned () sd)"

definition wait_group_commit_done :: "unit bop" where
  "wait_group_commit_done =
     with_sync (\<lambda>sd. wait_group_loop (length (sync_status sd)) 0 sd)"

definition wait_undy_created :: "unit bop" where
  "wait_undy_created = with_sync (bop_lock_acquire undy_created set_undy_created)"

definition wait_undy_conceded :: "unit bop" where
  "wait_undy_conceded = with_sync (bop_lock_acquire undy_conceded set_undy_conceded)"

section \<open>Invariant\<close>

text \<open>
  Between calls the array has \<^verbatim>\<open>alloc_size\<close> entries, enough for the group, the partial size is
  between one and the group size, and the lock of the record is free.
\<close>

definition sync_ok :: "sync_data_t \<Rightarrow> bool" where
  "sync_ok sd \<longleftrightarrow> int (length (sync_status sd)) = alloc_size sd \<and> group_size sd \<le> alloc_size sd \<and>
     1 \<le> partial_size sd \<and> partial_size sd \<le> group_size sd \<and> group_size sd \<le> 100 \<and> \<not> sd_lock sd"

lemmas sync_simps = with_sync_def with_status_def bop_lock_acquire_def bop_lock_release_def
  set_spec_checked_def set_data_committed_def set_undy_created_def set_undy_conceded_def
  set_sd_lock_def assertion_def seq_def

lemma length_realloc_list [simp]: "length (realloc_list junk xs n) = n"
  by (simp add: realloc_list_def min_def)

section \<open>The invariant is kept\<close>

definition after_reset :: "sync_data_t \<Rightarrow> sync_data_t" where
  "after_reset sd = sd\<lparr>sync_status := map reset_status (sync_status sd), undy_created := True,
     undy_conceded := True, sd_lock := False, partial_size := group_size sd\<rparr>"

lemma reset_sync_ok:
  assumes "int (length (sync_status sd)) = alloc_size sd" and "1 \<le> group_size sd"
    and "group_size sd \<le> alloc_size sd" and "group_size sd \<le> 100"
  shows "reset_sync sd = Returned () (after_reset sd)" and "sync_ok (after_reset sd)"
proof -
  have "nat (alloc_size sd) = length (sync_status sd)" using assms(1) by linarith
  with assms show "reset_sync sd = Returned () (after_reset sd)"
    by (simp add: reset_sync_def after_reset_def)
  show "sync_ok (after_reset sd)" using assms by (simp add: sync_ok_def after_reset_def)
qed

text \<open>What a reset leaves: every lock of the protocol is held and the partial size is the full one.\<close>

definition fresh_sync :: "sync_data_t \<Rightarrow> bool" where
  "fresh_sync sd \<longleftrightarrow> (\<forall>st \<in> set (sync_status sd). spec_checked st \<and> data_committed st) \<and>
     undy_created sd \<and> undy_conceded sd \<and> partial_size sd = group_size sd"

lemma fresh_after_reset [simp]: "fresh_sync (after_reset sd)"
  by (auto simp: fresh_sync_def after_reset_def reset_status_def)

lemma after_reset_sizes [simp]:
  "group_size (after_reset sd) = group_size sd"
  "alloc_size (after_reset sd) = alloc_size sd"
  "partial_size (after_reset sd) = group_size sd"
  "length (sync_status (after_reset sd)) = length (sync_status sd)"
  by (simp_all add: after_reset_def)

lemma ppr_sync_data_reset_ok:
  assumes "sync_data s = Some sd" and "sync_ok sd"
  shows "ppr_sync_data_reset s = Returned () (s\<lparr>sync_data := Some (after_reset sd)\<rparr>)"
    and "sync_ok (after_reset sd)"
  using assms reset_sync_ok [of sd]
  by (simp_all add: ppr_sync_data_reset_def with_sync_def sync_ok_def)

lemma ppr_group_set_size_ok:
  assumes "1 \<le> gsize" and "gsize \<le> 100" and "task_status s = SEQ"
    and "\<And>sd. sync_data s = Some sd \<Longrightarrow> sync_ok sd"
  shows "\<exists>sd'. ppr_group_set_size junk gsize s = Returned () (s\<lparr>sync_data := Some sd'\<rparr>) \<and>
    sync_ok sd' \<and> fresh_sync sd' \<and> group_size sd' = gsize"
proof -
  define sd0 where "sd0 = (case sync_data s of Some sd \<Rightarrow> sd | None \<Rightarrow> alloc_sync gsize)"
  define sd1 where "sd1 = (grow_sync junk gsize sd0)\<lparr>group_size := gsize\<rparr>"
  have "int (length (sync_status sd0)) = alloc_size sd0" "group_size sd0 \<le> alloc_size sd0"
    using assms(1,4) by (auto simp: sd0_def alloc_sync_def sync_ok_def split: option.splits)
  then have "int (length (sync_status sd1)) = alloc_size sd1" "gsize \<le> alloc_size sd1"
    "group_size sd1 = gsize"
    using assms(1) by (auto simp: sd1_def grow_sync_def)
  then have "reset_sync sd1 = Returned () (after_reset sd1)" "sync_ok (after_reset sd1)"
    using assms(1,2) by (simp_all add: reset_sync_ok)
  moreover have "ppr_group_set_size junk gsize s = ppr_sync_data_reset (s\<lparr>sync_data := Some sd1\<rparr>)"
    using assms(1-3) by (simp add: ppr_group_set_size_def sd1_def sd0_def Let_def)
  ultimately show ?thesis using \<open>group_size sd1 = gsize\<close>
    by (intro exI [of _ "after_reset sd1"]) (simp add: ppr_sync_data_reset_def with_sync_def)
qed

lemma partial_group_set_size_ok:
  assumes "1 \<le> psize" and "psize \<le> 100" and "sync_data s = Some sd" and "sync_ok sd"
  shows "partial_group_set_size psize s =
      Returned () (s\<lparr>sync_data := Some (sd\<lparr>partial_size := min (partial_size sd) psize\<rparr>)\<rparr>)"
    and "sync_ok (sd\<lparr>partial_size := min (partial_size sd) psize\<rparr>)"
  using assms by (auto simp: partial_group_set_size_def sync_simps sync_ok_def min_def)

section \<open>Evaluation\<close>

lemma sync_data_same: "sync_data s = Some sd \<Longrightarrow> s\<lparr>sync_data := Some sd\<rparr> = s"
proof -
  assume "sync_data s = Some sd"
  then have "s\<lparr>sync_data := Some sd\<rparr> = s\<lparr>sync_data := sync_data s\<rparr>" by simp
  also have "\<dots> = s" by simp
  finally show ?thesis .
qed

lemma wait_prior_eval:
  assumes "sync_data s = Some sd" and "spec_order s = int k + 1" and "k < length (sync_status sd)"
  shows "wait_prior_check_done s =
    (if spec_checked (sync_status sd ! k) then Blocked s
     else Returned () (s\<lparr>sync_data := Some (sd\<lparr>sync_status :=
       (sync_status sd)[k := (sync_status sd ! k)\<lparr>spec_checked := True\<rparr>]\<rparr>)\<rparr>))"
  using assms
  by (simp add: wait_prior_check_done_def with_sync_def with_status_def bop_lock_acquire_def
      set_spec_checked_def sync_data_same)

lemma signal_check_eval:
  assumes "sync_data s = Some sd" and "spec_order s = int k" and "k < length (sync_status sd)"
  shows "signal_check_done p s = Returned () (s\<lparr>sync_data := Some (sd\<lparr>sync_status :=
       (sync_status sd)[k := (sync_status sd ! k)\<lparr>spec_correct := p, spec_checked := False\<rparr>]\<rparr>)\<rparr>)"
  using assms
  by (simp add: signal_check_done_def with_sync_def with_status_def bop_lock_release_def
      set_spec_checked_def seq_def)

lemma signal_commit_eval:
  assumes "sync_data s = Some sd" and "spec_order s = int k" and "k < length (sync_status sd)"
  shows "signal_commit_done s = Returned () (s\<lparr>sync_data := Some (sd\<lparr>sync_status :=
       (sync_status sd)[k := (sync_status sd ! k)\<lparr>data_committed := False\<rparr>]\<rparr>)\<rparr>)"
  using assms
  by (simp add: signal_commit_done_def with_sync_def with_status_def bop_lock_release_def
      set_data_committed_def)

lemma wait_next_eval:
  assumes "sync_data s = Some sd" and "spec_order s = int k" and "Suc k < length (sync_status sd)"
  shows "wait_next_commit_done s =
    (if data_committed (sync_status sd ! Suc k) then Blocked s else Returned () s)"
proof -
  have "nat (int k + 1) = Suc k" "\<not> int (length (sync_status sd)) \<le> int k + 1"
    using assms(3) by simp_all
  moreover have "sd\<lparr>sync_status := (sync_status sd)
      [Suc k := (sync_status sd ! Suc k)\<lparr>data_committed := False\<rparr>]\<rparr> = sd"
    if "\<not> data_committed (sync_status sd ! Suc k)"
  proof -
    have "(sync_status sd ! Suc k)\<lparr>data_committed := False\<rparr> = sync_status sd ! Suc k"
      using that by (cases "sync_status sd ! Suc k") simp
    then show ?thesis by simp
  qed
  ultimately show ?thesis using assms
    by (cases "data_committed (sync_status sd ! Suc k)")
      (simp_all add: wait_next_commit_done_def with_sync_def with_status_def bop_lock_acquire_def
        bop_lock_release_def set_data_committed_def seq_def sync_data_same)
qed

lemmas sync_eval = wait_prior_eval signal_check_eval signal_commit_eval wait_next_eval

section \<open>Waiting for the group\<close>

definition committed :: "sync_data_t \<Rightarrow> int \<Rightarrow> bool" where
  "committed sd k \<longleftrightarrow> \<not> data_committed (sync_status sd ! nat k)"

text \<open>The locks that the loop has taken when it is done.\<close>

fun hold_from :: "nat \<Rightarrow> int \<Rightarrow> sync_data_t \<Rightarrow> sync_data_t" where
  "hold_from 0 i sd = sd"
| "hold_from (Suc n) i sd =
     hold_from n (i + 1) (sd\<lparr>sync_status :=
       (sync_status sd)[nat i := (sync_status sd ! nat i)\<lparr>data_committed := True\<rparr>]\<rparr>)"

lemma hold_from_sizes [simp]:
  "partial_size (hold_from n i sd) = partial_size sd"
  "group_size (hold_from n i sd) = group_size sd"
  "alloc_size (hold_from n i sd) = alloc_size sd"
  "sd_lock (hold_from n i sd) = sd_lock sd"
  "length (sync_status (hold_from n i sd)) = length (sync_status sd)"
  by (induction n arbitrary: i sd) simp_all

lemma sync_ok_hold_from [simp]: "sync_ok (hold_from n i sd) = sync_ok sd"
  by (simp add: sync_ok_def)

lemma wait_group_loop_spec:
  assumes "0 \<le> i" and "i + int n = partial_size sd - 1"
    and "partial_size sd \<le> int (length (sync_status sd))" and "n \<le> fuel"
  shows "if \<forall>k. i \<le> k \<and> k < partial_size sd - 1 \<longrightarrow> committed sd k
    then wait_group_loop fuel i sd = Returned () (hold_from n i sd)
    else \<exists>sd'. wait_group_loop fuel i sd = Blocked sd'"
  using assms
proof (induction n arbitrary: fuel i sd)
  case 0
  then show ?case by (cases fuel) simp_all
next
  case (Suc n)
  then obtain fuel' where f: "fuel = Suc fuel'" by (cases fuel) auto
  define sd1 where "sd1 = sd\<lparr>sync_status :=
       (sync_status sd)[nat i := (sync_status sd ! nat i)\<lparr>data_committed := True\<rparr>]\<rparr>"
  have i: "i < partial_size sd - 1" "nat i < length (sync_status sd)" "\<not> int (length (sync_status sd)) \<le> i"
    using Suc.prems by linarith+
  have same: "committed sd1 k = committed sd k" if "i < k" for k
    using that Suc.prems(1) by (simp add: committed_def sd1_def)
  have split: "(\<forall>k. i \<le> k \<and> k < partial_size sd - 1 \<longrightarrow> committed sd k) \<longleftrightarrow>
      committed sd i \<and> (\<forall>k. i + 1 \<le> k \<and> k < partial_size sd1 - 1 \<longrightarrow> committed sd1 k)"
  proof -
    have "i \<le> k \<longleftrightarrow> k = i \<or> i < k" "i + 1 \<le> k \<longleftrightarrow> i < k" for k by linarith+
    with same i(1) show ?thesis by (auto simp: sd1_def)
  qed
  show ?case
  proof (cases "committed sd i")
    case False
    then have "wait_group_loop fuel i sd = Blocked sd"
      using i Suc.prems(1) by (simp add: f seq_def with_status_def bop_lock_acquire_def committed_def)
    with False split show ?thesis by simp
  next
    case True
    then have step: "wait_group_loop fuel i sd = wait_group_loop fuel' (i + 1) sd1"
      using i Suc.prems(1)
      by (simp add: f seq_def with_status_def bop_lock_acquire_def committed_def set_data_committed_def
          sd1_def)
    have "if \<forall>k. i + 1 \<le> k \<and> k < partial_size sd1 - 1 \<longrightarrow> committed sd1 k
      then wait_group_loop fuel' (i + 1) sd1 = Returned () (hold_from n (i + 1) sd1)
      else \<exists>sd'. wait_group_loop fuel' (i + 1) sd1 = Blocked sd'"
      by (rule Suc.IH) (use Suc.prems f in \<open>auto simp: sd1_def\<close>)
    with step split True show ?thesis by (auto simp: sd1_def [symmetric])
  qed
qed

section \<open>Properties\<close>

definition all_committed :: "sync_data_t \<Rightarrow> bool" where
  "all_committed sd \<longleftrightarrow>
     list_all (\<lambda>st. \<not> data_committed st) (take (nat (partial_size sd - 1)) (sync_status sd))"

definition example_sync :: sync_data_t where
  "example_sync = after_reset ((alloc_sync 3)\<lparr>group_size := 3\<rparr>)"

definition example_group :: bop_state where
  "example_group = (program_start (\<lambda>_. 0))\<lparr>sync_data := Some example_sync\<rparr>"

lemma sync_data_example_group [simp]: "sync_data example_group = Some example_sync"
  by (simp add: example_group_def)

lemma sync_ok_example: "sync_ok example_sync" "fresh_sync example_sync" "group_size example_sync = 3"
  by (simp_all add: example_sync_def sync_ok_def alloc_sync_def)
    (simp add: after_reset_def)

text \<open>
  \<^verbatim>\<open>ppr_group_set_size\<close> called by the sequential process with a size from 1 to 100 returns, whatever
  the reallocated block holds: the status array has an entry for every task, the group size and the
  partial size are the requested one, and every lock of the commit protocol is held.
\<close>

lemma set_group_size_correct:
  assumes "1 \<le> gsize" and "gsize \<le> 100" and "task_status s = SEQ"
    and "case sync_data s of None \<Rightarrow> True | Some sd \<Rightarrow> sync_ok sd"
  shows "\<exists>sd'. ppr_group_set_size junk gsize s = Returned () (s\<lparr>sync_data := Some sd'\<rparr>) \<and>
    sync_ok sd' \<and> fresh_sync sd' \<and> group_size sd' = gsize \<and> partial_size sd' = gsize"
proof -
  have "sync_ok sd" if "sync_data s = Some sd" for sd using that assms(4) by simp
  from ppr_group_set_size_ok [OF assms(1-3) this] show ?thesis by (auto simp: fresh_sync_def)
qed

text \<open>
  Once a group runs, its partial size only shrinks: \<^verbatim>\<open>partial_group_set_size\<close> sets it to the
  smaller of the old and the new size, keeps the invariant, frees the lock it takes, and changes
  nothing else.
\<close>

theorem partial_size_only_shrinks:
  assumes "1 \<le> psize" and "psize \<le> 100" and "sync_data s = Some sd" and "sync_ok sd"
  shows "partial_group_set_size psize s =
      Returned () (s\<lparr>sync_data := Some (sd\<lparr>partial_size := min (partial_size sd) psize\<rparr>)\<rparr>) \<and>
    sync_ok (sd\<lparr>partial_size := min (partial_size sd) psize\<rparr>)"
  using partial_group_set_size_ok [OF assms] by simp

theorem partial_size_only_shrinks_witness:
  "partial_group_set_size 2 example_group = Returned ()
    (example_group\<lparr>sync_data := Some (example_sync\<lparr>partial_size := min (partial_size example_sync) 2\<rparr>)\<rparr>)"
  using partial_size_only_shrinks [of 2 example_group example_sync] by (simp add: sync_ok_example)

text \<open>
  In a fresh group a task waits for the check of its predecessor until the predecessor signals
  it, then passes, and its successor is not woken by that signal.
\<close>

lemma check_handoff:
  assumes "sync_data s = Some sd" and "sync_ok sd" and "fresh_sync sd"
    and "1 \<le> i" and "i < group_size sd"
  shows "wait_prior_check_done (s\<lparr>spec_order := i\<rparr>) = Blocked (s\<lparr>spec_order := i\<rparr>) \<and>
    (\<exists>s' s''. signal_check_done p (s\<lparr>spec_order := i - 1\<rparr>) = Returned () s' \<and>
      wait_prior_check_done (s'\<lparr>spec_order := i\<rparr>) = Returned () s'' \<and>
      (i + 1 < group_size sd \<longrightarrow>
        wait_prior_check_done (s''\<lparr>spec_order := i + 1\<rparr>) = Blocked (s''\<lparr>spec_order := i + 1\<rparr>)))"
proof -
  have len: "nat k < length (sync_status sd)" "\<not> int (length (sync_status sd)) \<le> k"
    if "0 \<le> k" "k < group_size sd" for k
    using assms(2) that by (auto simp: sync_ok_def)
  have held: "spec_checked (sync_status sd ! nat k)" if "0 \<le> k" "k < group_size sd" for k
    using assms(3) len [OF that] by (simp add: fresh_sync_def)
  obtain k where k: "i = int k + 1" using assms(4) by (metis add.commute zle_iff_zadd)
  define sd1 where "sd1 = sd\<lparr>sync_status := (sync_status sd)
    [k := (sync_status sd ! k)\<lparr>spec_correct := p, spec_checked := False\<rparr>]\<rparr>"
  define sd2 where "sd2 = sd1\<lparr>sync_status := (sync_status sd1)
    [k := (sync_status sd1 ! k)\<lparr>spec_checked := True\<rparr>]\<rparr>"
  define s1 where "s1 = s\<lparr>spec_order := int k, sync_data := Some sd1\<rparr>"
  define s2 where "s2 = s1\<lparr>spec_order := i, sync_data := Some sd2\<rparr>"
  have kl: "k < length (sync_status sd)" "Suc k < length (sync_status sd)"
    using len [of i] k assms(5) by auto
  then have sd1: "sync_data s1 = Some sd1" "length (sync_status sd1) = length (sync_status sd)"
    "\<not> spec_checked (sync_status sd1 ! k)"
    by (simp_all add: s1_def sd1_def)
  have "wait_prior_check_done (s\<lparr>spec_order := i\<rparr>) = Blocked (s\<lparr>spec_order := i\<rparr>)"
    using wait_prior_eval [of "s\<lparr>spec_order := i\<rparr>" sd k] assms(1,5) k kl held [of "int k"] by simp
  moreover have "signal_check_done p (s\<lparr>spec_order := i - 1\<rparr>) = Returned () s1"
    using signal_check_eval [of "s\<lparr>spec_order := i - 1\<rparr>" sd k p] assms(1) k kl by (simp add: s1_def sd1_def)
  moreover have "wait_prior_check_done (s1\<lparr>spec_order := i\<rparr>) = Returned () s2"
    using wait_prior_eval [of "s1\<lparr>spec_order := i\<rparr>" sd1 k] k kl sd1 by (simp add: s2_def sd2_def)
  moreover have "wait_prior_check_done (s2\<lparr>spec_order := i + 1\<rparr>) = Blocked (s2\<lparr>spec_order := i + 1\<rparr>)"
    using wait_prior_eval [of "s2\<lparr>spec_order := i + 1\<rparr>" sd2 "Suc k"] k kl assms(5)
      held [of "int (Suc k)", unfolded nat_int] by (simp add: s2_def sd2_def sd1_def)
  ultimately show ?thesis by blast
qed

text \<open>
  \<^verbatim>\<open>wait_group_commit_done\<close> returns exactly when every task of the partial group but the last has
  signalled its data commit; otherwise it waits.  It never reads outside of the status array.
\<close>

lemma wait_group_exact:
  assumes "sync_data s = Some sd" and "sync_ok sd"
  shows "if all_committed sd
    then \<exists>sd'. wait_group_commit_done s = Returned () (s\<lparr>sync_data := Some sd'\<rparr>) \<and> sync_ok sd'
    else \<exists>s'. wait_group_commit_done s = Blocked s'"
proof -
  have len: "partial_size sd \<le> int (length (sync_status sd))" "1 \<le> partial_size sd"
    using assms(2) by (auto simp: sync_ok_def)
  have all: "(\<forall>k. 0 \<le> k \<and> k < partial_size sd - 1 \<longrightarrow> committed sd k) = all_committed sd"
  proof
    assume l: "\<forall>k. 0 \<le> k \<and> k < partial_size sd - 1 \<longrightarrow> committed sd k"
    have "\<not> data_committed (sync_status sd ! j)" if "j < nat (partial_size sd - 1)" for j
      using l [rule_format, of "int j"] that by (simp add: committed_def)
    then show "all_committed sd" by (auto simp: all_committed_def list_all_length)
  next
    assume "all_committed sd"
    then show "\<forall>k. 0 \<le> k \<and> k < partial_size sd - 1 \<longrightarrow> committed sd k"
      using len by (auto simp: all_committed_def list_all_length committed_def)
  qed
  have "if all_committed sd
    then wait_group_loop (length (sync_status sd)) 0 sd =
      Returned () (hold_from (nat (partial_size sd - 1)) 0 sd)
    else \<exists>sd'. wait_group_loop (length (sync_status sd)) 0 sd = Blocked sd'"
    using wait_group_loop_spec [of 0 "nat (partial_size sd - 1)" sd "length (sync_status sd)"] len all
    by auto
  then show ?thesis using assms by (auto simp: wait_group_commit_done_def with_sync_def)
qed

end
