(* ===== verification/Utils.thy ===== *)
theory Utils
  imports Bop_State
begin

text \<open>
  \<^verbatim>\<open>utils.c\<close>: the accessors of the process state, reading integers from the environment, the
  verbosity, and the prefix of a message.

  \<^verbatim>\<open>atoi\<close> and \<^verbatim>\<open>printf\<close>'s \<^verbatim>\<open>%d\<close> belong to the C library: \<open>atoi\<close> follows its definition (white space, an
  optional sign, digits) on unbounded integers, since C leaves an overflow undefined.  The
  environment is the argument \<open>getenv\<close>.  Messages go to the standard error stream only, so the
  other theories leave the calls of \<^verbatim>\<open>bop_msg\<close> out.
\<close>

section \<open>Accessors\<close>

definition BOP_task_status :: "bop_state \<Rightarrow> task_status_t" where
  "BOP_task_status s = task_status s"

definition BOP_ppr_pos :: "bop_state \<Rightarrow> ppr_pos_t" where
  "BOP_ppr_pos s = ppr_pos s"

definition BOP_ppr_index :: "bop_state \<Rightarrow> int" where
  "BOP_ppr_index s = (if ppr_pos s = GAP then ppr_index s + 1 else ppr_index s)"

definition BOP_spec_order :: "bop_state \<Rightarrow> int" where
  "BOP_spec_order s = spec_order s"

definition BOP_mode :: "bop_state \<Rightarrow> bop_mode_t" where
  "BOP_mode s = bop_mode s"

definition BOP_set_verbose :: "int \<Rightarrow> unit bop" where
  "BOP_set_verbose x s =
     (if x < 6 \<and> x > 0 then Returned () (s\<lparr>bop_verbose := x\<rparr>) else Aborted AssertFailed)"

definition BOP_get_verbose :: "bop_state \<Rightarrow> int" where
  "BOP_get_verbose s = bop_verbose s"

definition BOP_task_str :: "bop_state \<Rightarrow> string" where
  "BOP_task_str s =
     (case task_status s of
        MAIN \<Rightarrow> ''Main speculation''
      | SPEC \<Rightarrow> ''Speculation''
      | UNDY \<Rightarrow> ''Understudy''
      | SEQ \<Rightarrow> ''Sequential'')"

text \<open>\<^verbatim>\<open>status_name\<close> is in \<^verbatim>\<open>bop_ppr.c\<close>.\<close>

definition status_name :: "bop_state \<Rightarrow> string" where
  "status_name s =
     (case task_status s of SPEC \<Rightarrow> ''SPEC'' | UNDY \<Rightarrow> ''UNDY'' | MAIN \<Rightarrow> ''MAIN'' | SEQ \<Rightarrow> ''SEQ'')"

section \<open>Decimal numbers\<close>

definition digit_char :: "nat \<Rightarrow> char" where
  "digit_char d = char_of (48 + d)"

definition char_code :: "char \<Rightarrow> nat" where
  "char_code c = of_char c"

definition is_digit :: "char \<Rightarrow> bool" where
  "is_digit c \<longleftrightarrow> 48 \<le> char_code c \<and> char_code c \<le> 57"

definition is_space :: "char \<Rightarrow> bool" where
  "is_space c \<longleftrightarrow> char_code c = 32 \<or> 9 \<le> char_code c \<and> char_code c \<le> 13"

fun atoi_digits :: "int \<Rightarrow> string \<Rightarrow> int" where
  "atoi_digits acc [] = acc"
| "atoi_digits acc (c # cs) =
     (if is_digit c then atoi_digits (acc * 10 + (int (char_code c) - 48)) cs else acc)"

definition atoi :: "string \<Rightarrow> int" where
  "atoi str =
     (case dropWhile is_space str of
        [] \<Rightarrow> 0
      | c # cs \<Rightarrow>
        if c = CHR ''-'' then - atoi_digits 0 cs
        else if c = CHR ''+'' then atoi_digits 0 cs
        else atoi_digits 0 (c # cs))"

fun decimal_nat :: "nat \<Rightarrow> string" where
  "decimal_nat n =
     (if n < 10 then [digit_char n] else decimal_nat (n div 10) @ [digit_char (n mod 10)])"

declare decimal_nat.simps [simp del]

definition decimal :: "int \<Rightarrow> string" where
  "decimal i = (if i < 0 then CHR ''-'' # decimal_nat (nat (- i)) else decimal_nat (nat i))"

definition get_int_from_env ::
    "(string \<Rightarrow> string option) \<Rightarrow> string \<Rightarrow> int \<Rightarrow> int \<Rightarrow> int \<Rightarrow> int res" where
  "get_int_from_env getenv env mn mx def =
     (if \<not> mn < mx then Inl AssertFailed
      else case getenv env of
        None \<Rightarrow> Inr def
      | Some cval \<Rightarrow>
        let ival = atoi cval;
            ival = (if ival < mn then mn else ival);
            ival = (if ival > mx then mx else ival)
        in Inr ival)"

section \<open>Messages\<close>

text \<open>
  What \<^verbatim>\<open>bop_msg\<close> writes, without the time: \<open>None\<close> when the level is above the verbosity.  The
  index is printed from an \<^verbatim>\<open>unsigned\<close> with \<^verbatim>\<open>%d\<close>, which gives back the \<^verbatim>\<open>int\<close>.  The message itself is
  the text after formatting.
\<close>

definition msg_prefix :: "bop_state \<Rightarrow> string \<Rightarrow> string" where
  "msg_prefix s pos =
     (let idx = decimal (BOP_ppr_index s) in
      case task_status s of
        UNDY \<Rightarrow> ''Undy-(idx '' @ idx @ pos @ ''): ''
      | MAIN \<Rightarrow> ''Main-'' @ decimal (spec_order s) @ ''(idx '' @ idx @ pos @ ''): ''
      | SEQ \<Rightarrow> ''Seq-(idx '' @ idx @ pos @ ''): ''
      | SPEC \<Rightarrow> ''Spec-'' @ decimal (spec_order s) @ ''(idx '' @ idx @ pos @ ''): '')"

definition bop_msg :: "int \<Rightarrow> string \<Rightarrow> bop_state \<Rightarrow> string option res" where
  "bop_msg level text s =
     (if \<not> bop_verbose s \<ge> level then Inr None
      else if ppr_pos s = PSEQ then Inl AssertFailed
      else if in_ordered_region s \<and> ppr_pos s \<noteq> PPR then Inl AssertFailed
      else
        let pos = (if in_ordered_region s then ''od'' else if ppr_pos s = GAP then ''g'' else [])
        in Inr (Some (decimal (my_pid s) @ ''-'' @ msg_prefix s pos @ text @ [CHR 0x0A])))"

section \<open>Reading back what was printed\<close>

lemma char_code_digit [simp]: "d < 10 \<Longrightarrow> char_code (digit_char d) = 48 + d"
  by (simp add: char_code_def digit_char_def)

lemma is_digit_digit [simp]: "d < 10 \<Longrightarrow> is_digit (digit_char d)"
  by (simp add: is_digit_def)

lemma atoi_digits_decimal:
  "\<exists>k > 0. \<forall>acc rest. atoi_digits acc (decimal_nat n @ rest) = atoi_digits (acc * 10 ^ k + int n) rest"
proof (induction n rule: decimal_nat.induct)
  case (1 n)
  show ?case
  proof (cases "n < 10")
    case True
    then show ?thesis by (intro exI [of _ 1]) (simp add: decimal_nat.simps [of n])
  next
    case False
    with 1 obtain k where k: "k > 0"
      "\<And>acc rest. atoi_digits acc (decimal_nat (n div 10) @ rest) =
        atoi_digits (acc * 10 ^ k + int (n div 10)) rest" by blast
    have "(acc * 10 ^ k + int (n div 10)) * 10 + int (n mod 10) = acc * 10 ^ Suc k + int n" for acc
    proof -
      have "int n = 10 * int (n div 10) + int (n mod 10)" by presburger
      then show ?thesis by (simp add: algebra_simps)
    qed
    then have "atoi_digits acc (decimal_nat n @ rest) = atoi_digits (acc * 10 ^ Suc k + int n) rest"
      for acc rest using False by (simp add: decimal_nat.simps [of n] k(2) del: power_Suc)
    then show ?thesis by blast
  qed
qed

lemma decimal_nat_head: "\<exists>d cs. d < 10 \<and> decimal_nat n = digit_char d # cs"
proof (induction n rule: decimal_nat.induct)
  case (1 n)
  show ?case
  proof (cases "n < 10")
    case True
    then show ?thesis by (auto simp: decimal_nat.simps [of n])
  next
    case False
    with 1 show ?thesis by (fastforce simp: decimal_nat.simps [of n])
  qed
qed

lemma digit_char_not_sign:
  assumes "d < 10"
  shows "digit_char d \<noteq> CHR ''-''" "digit_char d \<noteq> CHR ''+''" "\<not> is_space (digit_char d)"
proof -
  have "char_code (digit_char d) \<noteq> char_code (CHR ''-'')" "char_code (digit_char d) \<noteq> char_code (CHR ''+'')"
    using assms by (simp_all add: char_code_digit) (simp_all add: char_code_def)
  then show "digit_char d \<noteq> CHR ''-''" "digit_char d \<noteq> CHR ''+''" by metis+
  show "\<not> is_space (digit_char d)" using assms by (simp add: is_space_def)
qed

text \<open>Reading back a printed number gives the number.\<close>

lemma atoi_decimal:
  "atoi (decimal i) = i"
proof (cases "i < 0")
  case True
  obtain k where "\<And>acc rest. atoi_digits acc (decimal_nat (nat (- i)) @ rest) =
    atoi_digits (acc * 10 ^ k + int (nat (- i))) rest" using atoi_digits_decimal by blast
  from this [of 0 "[]"] True show ?thesis
    by (simp add: atoi_def decimal_def is_space_def char_code_def)
next
  case False
  obtain k where k: "\<And>acc rest. atoi_digits acc (decimal_nat (nat i) @ rest) =
    atoi_digits (acc * 10 ^ k + int (nat i)) rest" using atoi_digits_decimal by blast
  obtain d cs where d: "d < 10" "decimal_nat (nat i) = digit_char d # cs"
    using decimal_nat_head by blast
  with k [of 0 "[]"] False digit_char_not_sign [OF d(1)] show ?thesis
    by (simp add: atoi_def decimal_def del: atoi_digits.simps) (simp add: d)
qed

lemma get_int_from_env_eq:
  assumes "mn < mx"
  shows "get_int_from_env getenv env mn mx def =
    Inr (case getenv env of None \<Rightarrow> def | Some str \<Rightarrow> max mn (min mx (atoi str)))"
  using assms by (auto simp: get_int_from_env_def Let_def split: option.splits)

section \<open>Properties\<close>

text \<open>
  A setting passed through the environment arrives: a number written in decimal is read back, moved
  to the nearest bound when it lies outside of the bounds, and the default is taken when the variable
  is not set.
\<close>

lemma get_int_from_env_reads_back:
  assumes "mn < mx"
  shows "get_int_from_env (\<lambda>v. if v = env then Some (decimal i) else None) env mn mx def = Inr (max mn (min mx i)) \<and>
    get_int_from_env (\<lambda>_. None) env mn mx def = Inr def"
  using assms by (simp add: get_int_from_env_eq atoi_decimal)

end
