(* ===== verification/Processes.thy ===== *)
theory Processes
  imports Sync Utils
begin

text \<open>
  The process side of \<^verbatim>\<open>bop_ppr.c\<close>: reaping children, the ends of a process, the abort of
  speculation, the signal handlers and the monitor process.

  \<^verbatim>\<open>waitpid\<close> is the operating system's: the field \<open>children\<close> lists the events it will report before
  it returns -1.  Signals that a process sends are recorded in \<open>sent\<close>, with the target as it is
  passed to \<^verbatim>\<open>kill\<close> (0 for the own group).  The monitor's loop runs on the list of the events that
  reach it.  Printing and the terminal are left out here.
\<close>

section \<open>Signals\<close>

definition kill :: "int \<Rightarrow> signal_t \<Rightarrow> unit bop" where
  "kill target sig s = Returned () (s\<lparr>sent := sent s @ [(target, sig)]\<rparr>)"

definition error_alert_monitor :: "unit bop" where
  "error_alert_monitor s = kill (monitor_process_id s) SIGUSR2 s"

definition block_wait :: "unit bop" where
  "block_wait s = Returned () (s\<lparr>sig_blocked := sig_blocked s \<union> {SIGUSR2, SIGUSR1}\<rparr>)"

definition unblock_wait :: "unit bop" where
  "unblock_wait s = Returned () (s\<lparr>sig_blocked := sig_blocked s - {SIGUSR2, SIGUSR1}\<rparr>)"

definition block_signal :: "signal_t \<Rightarrow> int bop" where
  "block_signal signo s = Returned 0 (s\<lparr>sig_blocked := insert signo (sig_blocked s)\<rparr>)"

definition unblock_signal :: "signal_t \<Rightarrow> int bop" where
  "unblock_signal signo s = Returned 0 (s\<lparr>sig_blocked := sig_blocked s - {signo}\<rparr>)"

section \<open>Children\<close>

text \<open>The exit value a child contributes; a fatal signal in the first child also stops the monitor.\<close>

definition report_child :: "int \<Rightarrow> wait_status \<Rightarrow> bop_state \<Rightarrow> int \<times> bop_state" where
  "report_child child status s =
     (if child = -1 \<or> child = 0 then (0, s)
      else case status of
        WExited v \<Rightarrow> (v, s)
      | WSignaled sig \<Rightarrow>
        if sig = SIGABRT \<or> sig = SIGSEGV \<or> sig = SIGBUS
        then (1, if child = - monitor_group s then s\<lparr>is_monitoring := False\<rparr> else s)
        else (0, s)
      | WStopped _ \<Rightarrow> (0, s)
      | WContinued \<Rightarrow> (0, s)
      | WOther _ \<Rightarrow> (0, s))"

text \<open>\<^verbatim>\<open>my_exit = my_exit || report_child( ... )\<close>: no child is reported once the value is 1.\<close>

definition or_report :: "int \<times> bop_state \<Rightarrow> int \<times> wait_status \<Rightarrow> int \<times> bop_state" where
  "or_report acc ev =
     (let (my_exit, s) = acc; (child, status) = ev in
      if my_exit \<noteq> 0 then (1, s)
      else let (v, s') = report_child child status s in (if v \<noteq> 0 then 1 else 0, s'))"

definition cleanup_children :: "int bop" where
  "cleanup_children s =
     (let (my_exit, s') = foldl or_report (0, s) (children s)
      in Returned my_exit (s'\<lparr>children := []\<rparr>))"

definition end_clean :: "'a bop" where
  "end_clean s =
     (case cleanup_children s of
        Returned exit_code s' \<Rightarrow> if exit_code \<noteq> 0 then Exited exit_code s' else Exited 0 s'
      | Exited c s' \<Rightarrow> Exited c s'
      | Aborted e \<Rightarrow> Aborted e
      | Blocked s' \<Rightarrow> Blocked s')"

definition child_handler :: "signal_t \<Rightarrow> unit bop" where
  "child_handler signo =
     seq (assertion (\<lambda>_. signo = SIGCHLD)) (\<lambda>_.
     seq cleanup_children (\<lambda>val s. if val \<noteq> 0 then Exited val s else Returned () s))"

section \<open>Abort\<close>

definition not_speculating :: "bop_state \<Rightarrow> bool" where
  "not_speculating s \<longleftrightarrow> task_status s = SEQ \<or> task_status s = UNDY \<or> bop_mode s = SERIAL"

definition BOP_abort_spec :: "unit bop" where
  "BOP_abort_spec s =
     (if not_speculating s then Returned () s
      else if task_status s = MAIN then
        seq partial_group_get_size (\<lambda>n.
          if n > 1 then partial_group_set_size 1 else ret ()) s
      else
        seq (partial_group_set_size (spec_order s)) (\<lambda>_.
        seq signal_commit_done (\<lambda>_. end_clean)) s)"

definition BOP_abort_next_spec :: "unit bop" where
  "BOP_abort_next_spec s =
     (if not_speculating s then Returned () s
      else if task_status s = MAIN then partial_group_set_size 1 s
      else partial_group_set_size (spec_order s + 1) s)"

section \<open>Signal handlers\<close>

definition SigUsr1 :: "unit bop" where
  "SigUsr1 s =
     (if task_status s = UNDY then seq signal_undy_conceded (\<lambda>_ s'. Exited 0 s') s
      else if task_status s = SPEC \<or> task_status s = MAIN then
        seq partial_group_get_size (\<lambda>n s'.
          if spec_order s' = n - 1 then Returned () s' else end_clean s') s
      else if my_pid s = monitor_process_id s then Returned () (s\<lparr>is_monitoring := False\<rparr>)
      else Returned () s)"

definition SigUsr2 :: "unit bop" where
  "SigUsr2 s =
     (if my_pid s = monitor_process_id s
      then Returned () (s\<lparr>is_monitoring := False, errored := True\<rparr>)
      else if task_status s = SPEC \<or> task_status s = MAIN then Exited 0 s
      else Returned () s)"

definition MonitorInteruptFwd :: "signal_t \<Rightarrow> unit bop" where
  "MonitorInteruptFwd signo =
     seq (assertion (\<lambda>s. my_pid s = monitor_process_id s)) (\<lambda>_.
     seq (\<lambda>s. kill (monitor_group s) signo s) (\<lambda>_ s.
       let s' = s\<lparr>is_monitoring := (is_monitoring s \<and> signo = SIGINT)\<rparr>
       in if signo = SIGINT then Exited 0 s' else Returned () s'))"

text \<open>
  \<^verbatim>\<open>ErrorKillAll\<close> alerts the monitor, restores the default action of the signal and raises it again,
  which ends the process for the signals it is installed for.
\<close>

definition ErrorKillAll :: "unit bop" where
  "ErrorKillAll = seq error_alert_monitor (\<lambda>_ _. Aborted BadAccess)"

section \<open>The monitor process\<close>

text \<open>
  An event that reaches the monitor: a report of \<^verbatim>\<open>waitpid\<close> (child 0 when no child has changed), or a
  signal.
\<close>

datatype monitor_event = MChild int wait_status | MSignal signal_t

definition handle_monitor_event :: "monitor_event \<Rightarrow> int \<Rightarrow> bop_state \<Rightarrow> (bop_state, int) outcome" where
  "handle_monitor_event ev my_exit s =
     (case ev of
        MChild child status \<Rightarrow>
          (let (e, s') = or_report (my_exit, s) (child, status) in Returned e s')
      | MSignal sig \<Rightarrow>
          seq (if sig = SIGUSR1 then SigUsr1 else if sig = SIGUSR2 then SigUsr2
               else if sig = SIGINT then MonitorInteruptFwd SIGINT else ret ())
            (\<lambda>_. ret my_exit) s)"

text \<open>
  The first loop runs while \<^verbatim>\<open>is_monitoring\<close> is set; it still waits when the events end before that.
  It returns the events that are left.
\<close>

fun monitor_loop :: "monitor_event list \<Rightarrow> int \<Rightarrow> (bop_state, int \<times> monitor_event list) prog" where
  "monitor_loop evs my_exit s =
     (if \<not> is_monitoring s then Returned (my_exit, evs) s
      else case evs of
        [] \<Rightarrow> Blocked s
      | ev # evs' \<Rightarrow>
        seq (handle_monitor_event ev my_exit) (\<lambda>e. monitor_loop evs' e) s)"

declare monitor_loop.simps [simp del]

text \<open>
  The second loop takes the remaining children while \<^verbatim>\<open>SIGUSR1\<close> and \<^verbatim>\<open>SIGUSR2\<close> are blocked; these
  two are delivered behind the loop.
\<close>

fun drain_loop :: "monitor_event list \<Rightarrow> int \<Rightarrow> (bop_state, int) prog" where
  "drain_loop [] my_exit s = Returned my_exit s"
| "drain_loop (ev # evs) my_exit s =
     seq (if ev \<in> {MSignal SIGUSR1, MSignal SIGUSR2} then ret my_exit else handle_monitor_event ev my_exit)
       (\<lambda>e. drain_loop evs e) s"

definition deliver_pending :: "monitor_event list \<Rightarrow> unit bop" where
  "deliver_pending evs =
     seq_all (map (\<lambda>ev. if ev = MSignal SIGUSR1 then SigUsr1 else if ev = MSignal SIGUSR2 then SigUsr2 else ret ())
       evs)"

text \<open>\<open>waitpid_failed\<close>: the last \<^verbatim>\<open>waitpid\<close> failed for another reason than \<^verbatim>\<open>ECHILD\<close>.\<close>

definition wait_process :: "bool \<Rightarrow> monitor_event list \<Rightarrow> unit bop" where
  "wait_process waitpid_failed evs =
     seq (assertion (\<lambda>s. monitor_group s \<noteq> 0)) (\<lambda>_.
     seq (monitor_loop evs 0) (\<lambda>(my_exit, rest).
     seq (drain_loop rest my_exit) (\<lambda>e.
     seq (deliver_pending rest) (\<lambda>_ s.
       if waitpid_failed then Exited 1 s
       else
         let code = (if e \<noteq> 0 \<or> errored s then 1 else 0)
         in seq (kill (monitor_group s) SIGKILL) (\<lambda>_ s'. Exited code s') s))))"

section \<open>Reaping\<close>

definition bad_child :: "int \<times> wait_status \<Rightarrow> bool" where
  "bad_child ev \<longleftrightarrow> fst ev \<noteq> -1 \<and> fst ev \<noteq> 0 \<and>
     (case snd ev of
        WExited v \<Rightarrow> v \<noteq> 0
      | WSignaled sig \<Rightarrow> sig = SIGABRT \<or> sig = SIGSEGV \<or> sig = SIGBUS
      | _ \<Rightarrow> False)"

text \<open>Reporting a child changes nothing but the flag of the monitor.\<close>

definition same_but_monitoring :: "bop_state \<Rightarrow> bop_state \<Rightarrow> bool" where
  "same_but_monitoring s s' \<longleftrightarrow> s' = s \<or> s' = s\<lparr>is_monitoring := False\<rparr>"

lemma same_but_monitoring_refl [simp]: "same_but_monitoring s s"
  by (simp add: same_but_monitoring_def)

lemma same_but_monitoring_trans:
  "same_but_monitoring s s' \<Longrightarrow> same_but_monitoring s' s'' \<Longrightarrow> same_but_monitoring s s''"
  by (auto simp: same_but_monitoring_def)

lemma report_child_spec:
  "(fst (report_child c st s) \<noteq> 0) = bad_child (c, st)"
  "same_but_monitoring s (snd (report_child c st s))"
  by (auto simp: report_child_def bad_child_def same_but_monitoring_def split: wait_status.splits)

lemma or_report_spec:
  obtains s' where "or_report (of_bool b, s) ev = (of_bool (b \<or> bad_child ev), s')"
    and "same_but_monitoring s s'"
proof (cases ev)
  case (Pair c st)
  then have "or_report (of_bool b, s) ev =
      (of_bool (b \<or> bad_child ev), if b then s else snd (report_child c st s))"
    using report_child_spec(1) [of c st s] by (simp add: or_report_def split_beta)
  moreover have "same_but_monitoring s (if b then s else snd (report_child c st s))"
    by (simp add: report_child_spec(2))
  ultimately show ?thesis by (rule that)
qed

lemma foldl_or_report:
  obtains s' where "foldl or_report (of_bool b, s) evs = (of_bool (b \<or> list_ex bad_child evs), s')"
    and "same_but_monitoring s s'"
proof (induction evs arbitrary: b s thesis)
  case Nil
  then show ?case by simp
next
  case (Cons ev evs)
  obtain s1 where s1: "or_report (of_bool b, s) ev = (of_bool (b \<or> bad_child ev), s1)"
    "same_but_monitoring s s1" by (rule or_report_spec)
  obtain s2 where "foldl or_report (of_bool (b \<or> bad_child ev), s1) evs =
      (of_bool ((b \<or> bad_child ev) \<or> list_ex bad_child evs), s2)" "same_but_monitoring s1 s2"
    by (rule Cons.IH)
  with s1 show ?case by (intro Cons.prems [of s2]) (auto intro: same_but_monitoring_trans)
qed

lemma cleanup_children_spec:
  obtains s' where "cleanup_children s =
      Returned (of_bool (list_ex bad_child (children s))) (s'\<lparr>children := []\<rparr>)"
    and "same_but_monitoring s s'"
proof -
  obtain s' where "foldl or_report (of_bool False, s) (children s) =
      (of_bool (False \<or> list_ex bad_child (children s)), s')" "same_but_monitoring s s'"
    by (rule foldl_or_report)
  then show ?thesis by (intro that [of s']) (simp_all add: cleanup_children_def)
qed

lemma end_clean_spec:
  obtains s' where "end_clean s = Exited (of_bool (list_ex bad_child (children s))) (s'\<lparr>children := []\<rparr>)"
    and "same_but_monitoring s s'"
  by (rule cleanup_children_spec [of s]) (use that in \<open>auto simp: end_clean_def\<close>)

section \<open>Aborting\<close>

lemma abort_spec_by_main:
  assumes "task_status s = MAIN" and "bop_mode s = PARALLEL"
    and "sync_data s = Some sd" and "sync_ok sd"
  shows "BOP_abort_spec s = Returned () (s\<lparr>sync_data := Some (sd\<lparr>partial_size := 1\<rparr>)\<rparr>)"
proof -
  have p: "partial_group_get_size s = Returned (partial_size sd) s"
    using assms(3) by (simp add: partial_group_get_size_def with_sync_def sync_data_same)
  have one: "1 \<le> partial_size sd" using assms(4) by (simp add: sync_ok_def)
  show ?thesis
  proof (cases "partial_size sd > 1")
    case True
    with p partial_group_set_size_ok(1) [of 1 s sd] assms show ?thesis
      by (simp add: BOP_abort_spec_def not_speculating_def)
  next
    case False
    with one have "sd\<lparr>partial_size := 1\<rparr> = sd" by (cases sd) simp
    with False p assms show ?thesis
      by (simp add: BOP_abort_spec_def not_speculating_def sync_data_same)
  qed
qed

lemma abort_spec_by_spec:
  assumes "task_status s = SPEC" and "bop_mode s = PARALLEL"
    and "sync_data s = Some sd" and "sync_ok sd" and "spec_order s = int k"
    and "1 \<le> k" and "k < length (sync_status sd)" and "k \<le> 100"
  obtains s' where "BOP_abort_spec s =
      Exited (of_bool (list_ex bad_child (children s))) (s'\<lparr>children := []\<rparr>)"
    and "same_but_monitoring (s\<lparr>sync_data := Some (sd\<lparr>partial_size := min (partial_size sd) (int k),
      sync_status := (sync_status sd)[k := (sync_status sd ! k)\<lparr>data_committed := False\<rparr>]\<rparr>)\<rparr>) s'"
proof -
  define s1 where "s1 = s\<lparr>sync_data := Some (sd\<lparr>partial_size := min (partial_size sd) (int k)\<rparr>)\<rparr>"
  define s2 where "s2 = s\<lparr>sync_data := Some (sd\<lparr>partial_size := min (partial_size sd) (int k),
      sync_status := (sync_status sd)[k := (sync_status sd ! k)\<lparr>data_committed := False\<rparr>]\<rparr>)\<rparr>"
  have "partial_group_set_size (int k) s = Returned () s1"
    using partial_group_set_size_ok(1) [of "int k" s sd] assms by (simp add: s1_def)
  moreover have "signal_commit_done s1 = Returned () s2"
    using signal_commit_eval [of s1 _ k] assms(5,7) by (simp add: s1_def s2_def)
  ultimately have "BOP_abort_spec s = end_clean s2"
    using assms(1,2,5) by (simp add: BOP_abort_spec_def not_speculating_def)
  moreover have "children s2 = children s" by (simp add: s2_def)
  ultimately show ?thesis using end_clean_spec [of s2] that unfolding s2_def by metis
qed

section \<open>The monitor\<close>

definition quiet :: "monitor_event list \<Rightarrow> bool" where
  "quiet evs \<longleftrightarrow> MSignal SIGUSR2 \<notin> set evs \<and> MSignal SIGINT \<notin> set evs"

fun bad_event :: "monitor_event \<Rightarrow> bool" where
  "bad_event (MChild c st) = bad_child (c, st)"
| "bad_event (MSignal _) = False"

definition monitor_state :: "int \<Rightarrow> bop_state \<Rightarrow> bool" where
  "monitor_state g s \<longleftrightarrow> my_pid s = monitor_process_id s \<and> task_status s = SEQ \<and> \<not> errored s \<and>
     monitor_group s = g"

lemma monitor_state_same: "same_but_monitoring s s' \<Longrightarrow> monitor_state g s' = monitor_state g s"
  by (auto simp: same_but_monitoring_def monitor_state_def)

lemma SigUsr1_monitor:
  "monitor_state g s \<Longrightarrow> SigUsr1 s = Returned () (s\<lparr>is_monitoring := False\<rparr>)"
  by (simp add: SigUsr1_def monitor_state_def)

lemma handle_event_spec:
  assumes "monitor_state g s" and "quiet [ev]"
  obtains s' where "handle_monitor_event ev (of_bool b) s = Returned (of_bool (b \<or> bad_event ev)) s'"
    and "monitor_state g s'" and "ev = MSignal SIGUSR1 \<Longrightarrow> \<not> is_monitoring s'"
proof (cases ev)
  case (MChild c st)
  obtain s' where "or_report (of_bool b, s) (c, st) = (of_bool (b \<or> bad_child (c, st)), s')"
    "same_but_monitoring s s'" by (rule or_report_spec)
  with assms(1) MChild show ?thesis
    by (intro that [of s']) (simp_all add: handle_monitor_event_def monitor_state_same)
next
  case (MSignal sig)
  with assms SigUsr1_monitor [OF assms(1)] show ?thesis
    by (intro that [of "if sig = SIGUSR1 then s\<lparr>is_monitoring := False\<rparr> else s"])
      (auto simp: handle_monitor_event_def quiet_def monitor_state_def)
qed

lemma quiet_Cons: "quiet (ev # evs) \<longleftrightarrow> quiet [ev] \<and> quiet evs"
  by (auto simp: quiet_def)

lemma monitor_loop_spec:
  assumes "monitor_state g s" and "quiet evs" and "MSignal SIGUSR1 \<in> set evs \<or> \<not> is_monitoring s"
  shows "\<exists>b' rest s'. monitor_loop evs (of_bool b) s = Returned (of_bool b', rest) s' \<and>
    monitor_state g s' \<and> quiet rest \<and> (b' \<or> list_ex bad_event rest \<longleftrightarrow> b \<or> list_ex bad_event evs)"
  using assms
proof (induction evs arbitrary: b s)
  case Nil
  then show ?case by (subst monitor_loop.simps) auto
next
  case (Cons ev evs)
  show ?case
  proof (cases "is_monitoring s")
    case False
    with Cons.prems show ?thesis by (subst monitor_loop.simps) auto
  next
    case True
    from Cons.prems(2) have q: "quiet [ev]" "quiet evs" by (simp_all add: quiet_Cons [of ev evs])
    obtain s1 where s1: "handle_monitor_event ev (of_bool b) s = Returned (of_bool (b \<or> bad_event ev)) s1"
      "monitor_state g s1" "ev = MSignal SIGUSR1 \<Longrightarrow> \<not> is_monitoring s1"
      by (rule handle_event_spec [OF Cons.prems(1) q(1)]) blast
    from s1(3) Cons.prems(3) True have "MSignal SIGUSR1 \<in> set evs \<or> \<not> is_monitoring s1" by auto
    from Cons.IH [OF s1(2) q(2) this, of "b \<or> bad_event ev"] s1(1) True show ?thesis
      by (subst monitor_loop.simps) simp
  qed
qed

lemma drain_loop_spec:
  assumes "monitor_state g s" and "quiet evs"
  shows "\<exists>s'. drain_loop evs (of_bool b) s = Returned (of_bool (b \<or> list_ex bad_event evs)) s' \<and>
    monitor_state g s'"
  using assms
proof (induction evs arbitrary: b s)
  case Nil
  then show ?case by simp
next
  case (Cons ev evs)
  from Cons.prems(2) have q: "quiet [ev]" "quiet evs" by (simp_all add: quiet_Cons [of ev evs])
  obtain s1 where s1: "handle_monitor_event ev (of_bool b) s = Returned (of_bool (b \<or> bad_event ev)) s1"
    "monitor_state g s1" by (rule handle_event_spec [OF Cons.prems(1) q(1)]) blast
  have "\<not> bad_event ev" if "ev \<in> {MSignal SIGUSR1, MSignal SIGUSR2}" using that by auto
  then show ?case
    using Cons.IH [OF s1(2) q(2), of "b \<or> bad_event ev"] Cons.IH [OF Cons.prems(1) q(2), of b] s1(1)
    by (cases "ev \<in> {MSignal SIGUSR1, MSignal SIGUSR2}") simp_all
qed

lemma deliver_pending_spec:
  assumes "monitor_state g s" and "quiet evs"
  shows "\<exists>s'. deliver_pending evs s = Returned () s' \<and> monitor_state g s'"
  using assms
proof (induction evs arbitrary: s)
  case Nil
  then show ?case by (simp add: deliver_pending_def)
next
  case (Cons ev evs)
  from Cons.prems(2) have q: "quiet [ev]" "quiet evs" by (simp_all add: quiet_Cons [of ev evs])
  have "monitor_state g (s\<lparr>is_monitoring := False\<rparr>)" using Cons.prems(1) by (simp add: monitor_state_def)
  from Cons.IH [OF this q(2)] Cons.IH [OF Cons.prems(1) q(2)] SigUsr1_monitor [OF Cons.prems(1)] q(1)
  show ?case by (auto simp: deliver_pending_def quiet_def)
qed

section \<open>Properties\<close>

text \<open>
  Reaping the children returns 1 exactly when one of them ended with a non-zero value or by one
  of the fatal signals, and otherwise 0, whatever the order of the reports.
\<close>

theorem cleanup_children_exact:
  "\<exists>s'. cleanup_children s = Returned (of_bool (list_ex bad_child (children s))) s' \<and> children s' = []"
  by (rule cleanup_children_spec [of s]) simp

text \<open>
  C11: when a speculative task inside of the partial group aborts, its process ends, the partial size
  becomes its own order, its predecessor's wait for its commit returns, and the predecessor then
  finds itself to be the last task of the group.
\<close>

theorem abort_hands_over:
  assumes "task_status s = SPEC" and "bop_mode s = PARALLEL"
    and "sync_data s = Some sd" and "sync_ok sd"
    and "spec_order s = int (Suc k)" and "int (Suc k) < partial_size sd"
  shows "\<exists>c s'. BOP_abort_spec s = Exited c s' \<and>
    (let p = s'\<lparr>spec_order := int k\<rparr> in
      wait_next_commit_done p = Returned () p \<and>
      partial_group_get_size p = Returned (spec_order p + 1) p)"
proof -
  have k: "Suc k < length (sync_status sd)" "Suc k \<le> 100"
    using assms(4,6) by (auto simp: sync_ok_def)
  define sd' where "sd' = sd\<lparr>partial_size := min (partial_size sd) (int (Suc k)),
      sync_status := (sync_status sd)[Suc k := (sync_status sd ! Suc k)\<lparr>data_committed := False\<rparr>]\<rparr>"
  obtain s' where s': "BOP_abort_spec s = Exited (of_bool (list_ex bad_child (children s))) (s'\<lparr>children := []\<rparr>)"
    "same_but_monitoring (s\<lparr>sync_data := Some sd'\<rparr>) s'"
    using abort_spec_by_spec [OF assms(1-5) _ k] unfolding sd'_def by auto
  define p where "p = s'\<lparr>children := [], spec_order := int k\<rparr>"
  have p: "sync_data p = Some sd'" "spec_order p = int k"
    using s'(2) by (auto simp: p_def same_but_monitoring_def)
  have "wait_next_commit_done p = Returned () p"
    using wait_next_eval [OF p] k(1) by (simp add: sd'_def)
  moreover have "partial_group_get_size p = Returned (spec_order p + 1) p"
    using p assms(6) by (simp add: partial_group_get_size_def with_sync_def sync_data_same sd'_def)
  ultimately show ?thesis using s'(1) by (auto simp: Let_def p_def)
qed

theorem abort_hands_over_witness:
  "\<exists>c s'. BOP_abort_spec (example_group\<lparr>task_status := SPEC, spec_order := 1\<rparr>) = Exited c s'"
  using abort_hands_over [of "example_group\<lparr>task_status := SPEC, spec_order := 1\<rparr>" example_sync 0]
    sync_ok_example by (auto simp: fresh_sync_def example_group_def program_start_def)

text \<open>
  C37: the monitor process ends once it is told to by \<^verbatim>\<open>SIGUSR1\<close>: when neither an interrupt nor an
  error signal reaches it, its exit code is 1 if some child ended badly, before or after that
  signal, and 0 otherwise.
\<close>

theorem monitor_exit_code:
  assumes "my_pid s = monitor_process_id s" and "task_status s = SEQ" and "\<not> errored s"
    and "monitor_group s \<noteq> 0" and "MSignal SIGUSR1 \<in> set evs"
    and "MSignal SIGUSR2 \<notin> set evs" and "MSignal SIGINT \<notin> set evs"
  shows "\<exists>s'. wait_process False evs s = Exited (of_bool (list_ex bad_event evs)) s'"
proof -
  define g where "g = monitor_group s"
  have s: "monitor_state g s" "quiet evs"
    using assms by (simp_all add: monitor_state_def quiet_def g_def)
  obtain b rest s1 where s1: "monitor_loop evs (of_bool False) s = Returned (of_bool b, rest) s1"
    "monitor_state g s1" "quiet rest" "b \<or> list_ex bad_event rest \<longleftrightarrow> False \<or> list_ex bad_event evs"
    using monitor_loop_spec [OF s, of False] assms(5) by blast
  obtain s2 where s2: "drain_loop rest (of_bool b) s1 = Returned (of_bool (b \<or> list_ex bad_event rest)) s2"
    "monitor_state g s2" using drain_loop_spec [OF s1(2,3)] by blast
  obtain s3 where s3: "deliver_pending rest s2 = Returned () s3" "monitor_state g s3"
    using deliver_pending_spec [OF s2(2) s1(3)] by blast
  have "wait_process False evs s = Exited (of_bool (b \<or> list_ex bad_event rest))
      (s3\<lparr>sent := sent s3 @ [(monitor_group s3, SIGKILL)]\<rparr>)"
    using assms(4) s1(1) s2(1) s3
    by (simp add: wait_process_def assertion_def kill_def monitor_state_def)
  with s1(4) show ?thesis by auto
qed

theorem monitor_exit_code_witness:
  "\<exists>s'. wait_process False [MChild 7 (WExited 0), MSignal SIGUSR1, MChild 8 (WSignaled SIGSEGV)]
    ((program_start (\<lambda>_. 0))\<lparr>monitor_group := -7, monitor_process_id := 1, is_monitoring := True\<rparr>) = Exited 1 s'"
  using monitor_exit_code [of "(program_start (\<lambda>_. 0))\<lparr>monitor_group := -7, monitor_process_id := 1,
      is_monitoring := True\<rparr>" "[MChild 7 (WExited 0), MSignal SIGUSR1, MChild 8 (WSignaled SIGSEGV)]"]
  by (simp add: program_start_def bad_child_def)

end
