(* ===== verification/Ports.thy ===== *)
theory Ports
  imports Sync
begin

text \<open>
  \<^verbatim>\<open>bop_ports.c\<close> and \<^verbatim>\<open>bop_ports.h\<close>: a port is a record of callbacks, null where a component does not
  take part in a step; the ports are kept in a growing array and every step calls them in the order
  of their registration.

  The callbacks work on the state of the process, so the port table is an argument of the functions
  that call it and not a field of that state.  What \<^verbatim>\<open>realloc\<close> leaves in the new half of the array
  is the argument \<open>junk\<close>.
\<close>

section \<open>The port table\<close>

record 's bop_port_t =
  p_ppr_group_init :: "('s, unit) prog option"
  p_ppr_task_init :: "('s, unit) prog option"
  p_ppr_check_correctness :: "('s, int) prog option"
  p_report_conflict :: "(addr_t \<Rightarrow> ('s, unit) prog) option"
  p_data_commit :: "('s, unit) prog option"
  p_task_group_commit :: "('s, unit) prog option"
  p_task_group_succ_fini :: "('s, unit) prog option"
  p_undy_init :: "('s, unit) prog option"
  p_undy_succ_fini :: "('s, unit) prog option"
  p_on_enter_ordered :: "('s, unit) prog option"
  p_on_exit_ordered :: "('s, unit) prog option"
  p_on_main_complete :: "('s, unit) prog option"

record 's port_table =
  bop_ports :: "'s bop_port_t option list option"
  num_ports :: uint
  pt_alloc_size :: uint

definition no_ports :: "'s port_table" where
  "no_ports = \<lparr>bop_ports = None, num_ports = 0, pt_alloc_size = 0\<rparr>"

definition room_for_port :: "(nat \<Rightarrow> 's bop_port_t option) \<Rightarrow> 's port_table \<Rightarrow> 's port_table" where
  "room_for_port junk pt =
     (case bop_ports pt of
        None \<Rightarrow> \<lparr>bop_ports = Some (replicate 10 None), num_ports = 0, pt_alloc_size = 10\<rparr>
      | Some ps \<Rightarrow>
        if num_ports pt = pt_alloc_size pt
        then pt\<lparr>bop_ports := Some (realloc_list junk ps (unat (pt_alloc_size pt * 2))),
                pt_alloc_size := pt_alloc_size pt * 2\<rparr>
        else pt)"

definition register_port ::
    "(nat \<Rightarrow> 's bop_port_t option) \<Rightarrow> 's bop_port_t \<Rightarrow> task_status_t \<Rightarrow> 's port_table \<Rightarrow> 's port_table res" where
  "register_port junk port status pt =
     (if status \<noteq> SEQ then Inl AssertFailed
      else
        let pt1 = room_for_port junk pt in
        case bop_ports pt1 of
          None \<Rightarrow> Inl BadAccess
        | Some ps \<Rightarrow>
          if unat (num_ports pt1) < length ps
          then Inr (pt1\<lparr>bop_ports := Some (ps[unat (num_ports pt1) := Some port]),
                        num_ports := num_ports pt1 + 1\<rparr>)
          else Inl BadAccess)"

text \<open>The ports that a loop \<^verbatim>\<open>for (i = 0; i < num_ports; i ++)\<close> visits; a slot never filled is skipped
  here, and \<open>table_ok\<close> below rules it out.\<close>

definition registered :: "'s port_table \<Rightarrow> 's bop_port_t list" where
  "registered pt =
     (case bop_ports pt of
        None \<Rightarrow> []
      | Some ps \<Rightarrow> List.map_filter id (take (unat (num_ports pt)) ps))"

section \<open>Calling the ports\<close>

definition port_call_int_func :: "('s, int) prog option \<Rightarrow> ('s, int) prog" where
  "port_call_int_func func = (case func of Some f \<Rightarrow> f | None \<Rightarrow> ret 1)"

definition port_call :: "('s, unit) prog option \<Rightarrow> ('s, unit) prog" where
  "port_call func = (case func of Some f \<Rightarrow> f | None \<Rightarrow> ret ())"

definition call_all :: "('s bop_port_t \<Rightarrow> ('s, unit) prog option) \<Rightarrow> 's port_table \<Rightarrow> ('s, unit) prog" where
  "call_all sel pt = seq_all (map (\<lambda>p. port_call (sel p)) (registered pt))"

definition ppr_group_init :: "'s port_table \<Rightarrow> ('s, unit) prog" where
  "ppr_group_init pt = call_all p_ppr_group_init pt"

definition ppr_task_init :: "'s port_table \<Rightarrow> ('s, unit) prog" where
  "ppr_task_init pt = call_all p_ppr_task_init pt"

text \<open>The address is read from the global variable at each call, through \<open>addr\<close>.\<close>

definition report_conflict :: "('s \<Rightarrow> addr_t) \<Rightarrow> 's port_table \<Rightarrow> ('s, unit) prog" where
  "report_conflict addr pt =
     seq_all (map (\<lambda>p. case p_report_conflict p of Some f \<Rightarrow> (\<lambda>s. f (addr s) s) | None \<Rightarrow> ret ())
       (registered pt))"

fun check_loop :: "'s bop_port_t list \<Rightarrow> ('s, int) prog" where
  "check_loop [] = ret 1"
| "check_loop (p # ps) =
     seq (port_call_int_func (p_ppr_check_correctness p))
       (\<lambda>passed. if passed \<noteq> 0 then check_loop ps else ret 0)"

definition ppr_check_correctness :: "('s \<Rightarrow> addr_t) \<Rightarrow> 's port_table \<Rightarrow> ('s, int) prog" where
  "ppr_check_correctness addr pt =
     seq (check_loop (registered pt))
       (\<lambda>passed. if passed = 0 then seq (report_conflict addr pt) (\<lambda>_. ret passed) else ret passed)"

definition data_commit :: "'s port_table \<Rightarrow> ('s, unit) prog" where
  "data_commit pt = call_all p_data_commit pt"

definition task_group_commit :: "'s port_table \<Rightarrow> ('s, unit) prog" where
  "task_group_commit pt = call_all p_task_group_commit pt"

definition task_group_succ_fini :: "'s port_table \<Rightarrow> ('s, unit) prog" where
  "task_group_succ_fini pt = call_all p_task_group_succ_fini pt"

definition undy_init :: "'s port_table \<Rightarrow> ('s, unit) prog" where
  "undy_init pt = call_all p_undy_init pt"

definition undy_succ_fini :: "'s port_table \<Rightarrow> ('s, unit) prog" where
  "undy_succ_fini pt = call_all p_undy_succ_fini pt"

definition on_exit_ordered :: "'s port_table \<Rightarrow> ('s, unit) prog" where
  "on_exit_ordered pt = call_all p_on_exit_ordered pt"

definition on_enter_ordered :: "'s port_table \<Rightarrow> ('s, unit) prog" where
  "on_enter_ordered pt = call_all p_on_enter_ordered pt"

definition on_main_complete :: "'s port_table \<Rightarrow> ('s, unit) prog" where
  "on_main_complete pt = call_all p_on_main_complete pt"

lemmas port_steps = ppr_group_init_def ppr_task_init_def data_commit_def task_group_commit_def
  task_group_succ_fini_def undy_init_def undy_succ_fini_def on_exit_ordered_def on_enter_ordered_def
  on_main_complete_def

section \<open>Registration\<close>

definition table_ok :: "'s port_table \<Rightarrow> bool" where
  "table_ok pt \<longleftrightarrow>
     (case bop_ports pt of
        None \<Rightarrow> num_ports pt = 0
      | Some ps \<Rightarrow> length ps = unat (pt_alloc_size pt) \<and> 0 < length ps \<and> num_ports pt \<le> pt_alloc_size pt \<and>
          (\<forall>p \<in> set (take (unat (num_ports pt)) ps). p \<noteq> None))"

fun register_all ::
    "(nat \<Rightarrow> 's bop_port_t option) \<Rightarrow> 's bop_port_t list \<Rightarrow> 's port_table \<Rightarrow> 's port_table res" where
  "register_all junk [] pt = Inr pt"
| "register_all junk (p # ps) pt = res_bind (register_port junk p SEQ pt) (register_all junk ps)"

lemma map_filter_take_Suc:
  assumes "n < length xs" and "\<forall>x \<in> set (take n xs). x \<noteq> None"
  shows "List.map_filter id (take (Suc n) (xs[n := Some y])) = List.map_filter id (take n xs) @ [y]"
  using assms by (simp add: take_Suc_conv_app_nth List.map_filter_def)

lemma word_lt_double:
  fixes w :: uint
  assumes "unat w < 2 ^ 31"
  shows "unat (w * 2) = 2 * unat w"
  using assms by (simp add: unat_word_ariths)

lemma room_for_port_spec:
  assumes "table_ok pt" and "unat (num_ports pt) < 2 ^ 31"
  shows "\<exists>ps. bop_ports (room_for_port junk pt) = Some ps \<and>
    length ps = unat (pt_alloc_size (room_for_port junk pt)) \<and>
    num_ports (room_for_port junk pt) = num_ports pt \<and> unat (num_ports pt) < length ps \<and>
    (\<forall>p \<in> set (take (unat (num_ports pt)) ps). p \<noteq> None) \<and>
    List.map_filter id (take (unat (num_ports pt)) ps) = registered pt"
proof (cases "bop_ports pt")
  case None
  then show ?thesis using assms
    by (simp add: room_for_port_def table_ok_def registered_def List.map_filter_def)
next
  case (Some qs)
  show ?thesis
  proof (cases "num_ports pt = pt_alloc_size pt")
    case True
    have "length qs = unat (pt_alloc_size pt)" "qs \<noteq> []"
      using Some assms(1) by (simp_all add: table_ok_def)
    with True have n: "unat (num_ports pt) = length qs" "length qs = unat (pt_alloc_size pt)"
      "0 < unat (pt_alloc_size pt)" by (metis length_greater_0_conv)+
    then have "unat (pt_alloc_size pt * 2) = 2 * length qs"
      using word_lt_double [of "pt_alloc_size pt"] assms(2) True by simp
    with True Some n assms show ?thesis
      by (simp add: room_for_port_def table_ok_def registered_def realloc_list_def)
  next
    case False
    have "num_ports pt < pt_alloc_size pt" using False Some assms(1) by (simp add: table_ok_def order_less_le)
    then have "unat (num_ports pt) < unat (pt_alloc_size pt)" by (simp add: word_less_nat_alt)
    with False Some assms show ?thesis
      by (auto simp: room_for_port_def table_ok_def registered_def)
  qed
qed

lemma register_port_spec:
  assumes "table_ok pt" and "unat (num_ports pt) < 2 ^ 31"
  shows "\<exists>pt'. register_port junk p SEQ pt = Inr pt' \<and> table_ok pt' \<and>
    registered pt' = registered pt @ [p] \<and> unat (num_ports pt') = Suc (unat (num_ports pt))"
proof -
  define pt1 where "pt1 = room_for_port junk pt"
  from room_for_port_spec [OF assms, of junk] obtain ps where ps: "bop_ports pt1 = Some ps"
    "length ps = unat (pt_alloc_size pt1)" "num_ports pt1 = num_ports pt" "unat (num_ports pt) < length ps"
    "\<forall>p \<in> set (take (unat (num_ports pt)) ps). p \<noteq> None"
    "List.map_filter id (take (unat (num_ports pt)) ps) = registered pt"
    unfolding pt1_def by blast
  have s: "unat (num_ports pt + 1) = Suc (unat (num_ports pt))"
    using assms(2) by (simp add: unat_word_ariths)
  have "\<forall>q \<in> set (take (Suc (unat (num_ports pt))) (ps[unat (num_ports pt) := Some p])). q \<noteq> None"
    using ps(4,5) by (simp add: take_Suc_conv_app_nth)
  moreover have "num_ports pt + 1 \<le> pt_alloc_size pt1"
    using ps(2,4) s by (simp add: word_le_nat_alt)
  ultimately show ?thesis using ps s map_filter_take_Suc [OF ps(4,5), of p]
    by (simp add: register_port_def Let_def pt1_def [symmetric] table_ok_def registered_def)
qed

lemma register_all_spec:
  assumes "table_ok pt" and "unat (num_ports pt) + length ps \<le> 2 ^ 31"
  shows "\<exists>pt'. register_all junk ps pt = Inr pt' \<and> table_ok pt' \<and> registered pt' = registered pt @ ps"
  using assms
proof (induction ps arbitrary: pt)
  case Nil
  then show ?case by simp
next
  case (Cons p ps)
  then obtain pt1 where "register_port junk p SEQ pt = Inr pt1" "table_ok pt1"
    "registered pt1 = registered pt @ [p]" "unat (num_ports pt1) = Suc (unat (num_ports pt))"
    using register_port_spec [of pt junk p] by auto
  with Cons.IH [of pt1] Cons.prems(2) show ?case by auto
qed

lemma check_loop_append:
  assumes "check_loop ps s = Returned c s'" and "c \<noteq> 0"
  shows "check_loop (ps @ qs) s = check_loop qs s'"
  using assms
proof (induction ps arbitrary: s)
  case Nil
  then show ?case by simp
next
  case (Cons p ps)
  then obtain x s1 where x: "port_call_int_func (p_ppr_check_correctness p) s = Returned x s1"
    "(if x \<noteq> 0 then check_loop ps else ret 0) s1 = Returned c s'" by (auto simp: seq_eq_Returned)
  with Cons show ?case by (auto split: if_splits)
qed

section \<open>Properties\<close>

definition example_port :: "int \<Rightarrow> bop_state bop_port_t" where
  "example_port passed = \<lparr>p_ppr_group_init = None, p_ppr_task_init = None,
     p_ppr_check_correctness = Some (\<lambda>s. Returned passed s), p_report_conflict = None,
     p_data_commit = None, p_task_group_commit = None, p_task_group_succ_fini = None,
     p_undy_init = None, p_undy_succ_fini = None, p_on_enter_ordered = None,
     p_on_exit_ordered = None, p_on_main_complete = None\<rparr>"

definition example_table :: "bop_state port_table" where
  "example_table = \<lparr>bop_ports = Some [Some (example_port 1), Some (example_port 0), Some (example_port 1)],
     num_ports = 3, pt_alloc_size = 3\<rparr>"

text \<open>
  Whatever list of ports is registered by the sequential process, up to 2 to the power 31 of
  them, the table grows without an access outside of its array, and afterwards the loops over the
  ports visit exactly these ports in the order of their registration.
\<close>

theorem register_ports_correct:
  assumes "length ps \<le> 2 ^ 31"
  shows "\<exists>pt. register_all junk ps no_ports = Inr pt \<and> table_ok pt \<and> registered pt = ps"
  using register_all_spec [of no_ports ps junk] assms
  by (simp add: table_ok_def no_ports_def registered_def)

theorem register_ports_correct_witness:
  "\<exists>pt. register_all (\<lambda>_. None) (replicate 25 (example_port 1)) no_ports = Inr pt \<and> table_ok pt \<and>
    registered pt = replicate 25 (example_port 1)"
  by (rule register_ports_correct) simp

text \<open>
  The check of a task stops at the first port that fails: the checks of the ports behind it are
  not run, every port is told of the conflict, and the result is 0.
\<close>

lemma check_stops_at_first_failure:
  assumes "registered pt = good @ bad # rest"
    and "check_loop good s = Returned c s1" and "c \<noteq> 0"
    and "p_ppr_check_correctness bad = Some chk" and "chk s1 = Returned 0 s2"
    and "report_conflict addr pt s2 = Returned () s3"
  shows "ppr_check_correctness addr pt s = Returned 0 s3"
proof -
  have "check_loop (good @ bad # rest) s = Returned 0 s2"
    using check_loop_append [OF assms(2,3)] assms(4,5) by (simp add: port_call_int_func_def)
  with assms(1,6) show ?thesis by (simp add: ppr_check_correctness_def)
qed

text \<open>
  A step that calls the ports is the sequence of their callbacks in the order of registration:
  the calls of the first ports, then those of the later ones, and a port that ends or blocks the
  process keeps the later ports from being called.
\<close>

theorem ports_called_in_order:
  assumes "registered pt = ps @ p # qs"
    and "seq_all (map (\<lambda>q. port_call (p_data_commit q)) ps) s = Returned () s1"
    and "p_data_commit p = Some f"
  shows "data_commit pt s =
    (case f s1 of
       Returned _ s2 \<Rightarrow> seq_all (map (\<lambda>q. port_call (p_data_commit q)) qs) s2
     | Exited c s2 \<Rightarrow> Exited c s2 | Aborted e \<Rightarrow> Aborted e | Blocked s2 \<Rightarrow> Blocked s2)"
proof -
  have "port_call (p_data_commit p) = f" using assms(3) by (simp add: port_call_def)
  with assms(1,2) show ?thesis
    by (simp add: data_commit_def call_all_def seq_all_append) (simp add: seq_def)
qed

theorem ports_called_in_order_witness:
  "data_commit (no_ports\<lparr>bop_ports := Some [Some ((example_port 1)\<lparr>p_data_commit := Some (\<lambda>s. Exited 0 s)\<rparr>)],
      num_ports := 1\<rparr>) (program_start (\<lambda>_. 0)) = Exited 0 (program_start (\<lambda>_. 0))"
  by (subst ports_called_in_order [where ps = "[]" and qs = "[]" and f = "\<lambda>s. Exited 0 s" and
        s = "program_start (\<lambda>_. 0)" and p = "(example_port 1)\<lparr>p_data_commit := Some (\<lambda>s. Exited 0 s)\<rparr>"])
    (simp_all add: registered_def List.map_filter_def)

end
