(* ===== verification/Merge.thy ===== *)
theory Merge
  imports Task_Ranges Processes Ports
begin

text \<open>
  \<^verbatim>\<open>bop_merge.c\<close>: the read and write sets of a task, the check of the read set against the union of
  the writes of the earlier tasks, and the patches through which the tasks of a group pass on their
  writes.

  Memory is a function from addresses to bytes; a patch is a map whose ranges carry blocks.  The
  three mspaces the sources create are numbered.  The result of \<^verbatim>\<open>mspace_realloc\<close> beyond the old
  size is the argument \<open>junk\<close>.  \<^verbatim>\<open>mspace_free\<close> has no effect on the model's values.
\<close>

section \<open>Memory\<close>

definition commit_space :: mspace where "commit_space = 1"
definition metacow_space :: mspace where "metacow_space = 2"

definition read_mem :: "memory \<Rightarrow> addr_t \<Rightarrow> nat \<Rightarrow> block" where
  "read_mem m a n = map (\<lambda>i. m (a + of_nat i)) [0 ..< n]"

definition write_mem :: "memory \<Rightarrow> addr_t \<Rightarrow> block \<Rightarrow> memory" where
  "write_mem m a bs = (\<lambda>x. if unat (x - a) < length bs then bs ! unat (x - a) else m x)"

text \<open>\<^verbatim>\<open>memcpy\<close> into memory from a block, which must be long enough.\<close>

definition memcpy_in :: "addr_t \<Rightarrow> block option \<Rightarrow> size_t \<Rightarrow> memory \<Rightarrow> memory res" where
  "memcpy_in dst src sz m =
     (case src of
        None \<Rightarrow> Inl BadAccess
      | Some bs \<Rightarrow> if length bs < unat sz then Inl BadAccess else Inr (write_mem m dst (take (unat sz) bs)))"

section \<open>Traversal with effects\<close>

text \<open>\<^verbatim>\<open>map_foreach\<close> with a callback that works on the state of the process.\<close>

definition foreach_prog :: "map_t \<Rightarrow> (mem_range_t \<Rightarrow> ('s, unit) prog) \<Rightarrow> ('s, unit) prog" where
  "foreach_prog m f s = map_foreach m (\<lambda>r out. case out of Returned _ s' \<Rightarrow> f r s' | _ \<Rightarrow> out) (Returned () s)"

section \<open>Access recording\<close>

definition merge_ppr_reset :: "unit bop" where
  "merge_ppr_reset s =
     Returned () (s\<lparr>read_map := map_clear (read_map s), write_map := map_clear (write_map s)\<rparr>)"

definition not_recording :: "bop_state \<Rightarrow> bool" where
  "not_recording s \<longleftrightarrow> task_status s = UNDY \<or> task_status s = SEQ \<or> ppr_pos s = GAP \<or>
     residence (read_map s) = None"

definition BOP_record_read :: "addr_t \<Rightarrow> size_t \<Rightarrow> unit bop" where
  "BOP_record_read addr sz s =
     (if not_recording s then Returned () s
      else case map_add_range (read_map s) addr sz None of
        Inl e \<Rightarrow> Aborted e
      | Inr (m, _) \<Rightarrow> Returned () (s\<lparr>read_map := m\<rparr>))"

definition BOP_record_write :: "addr_t \<Rightarrow> size_t \<Rightarrow> unit bop" where
  "BOP_record_write addr sz s =
     (if not_recording s then Returned () s
      else case map_add_range (write_map s) addr sz None of
        Inl e \<Rightarrow> Aborted e
      | Inr (m, _) \<Rightarrow>
        let s1 = s\<lparr>write_map := m\<rparr> in
        if in_ordered_region s1 then
          (case map_add_range (ordered_writes s1) addr sz None of
             Inl e \<Rightarrow> Aborted e
           | Inr (om, _) \<Rightarrow> Returned () (s1\<lparr>ordered_writes := om\<rparr>))
        else Returned () s1)"

section \<open>Initialisation\<close>

definition bop_merge_init :: "(nat \<Rightarrow> map_t) \<Rightarrow> unit bop" where
  "bop_merge_init junk s =
     (let gs = of_int (BOP_get_group_size s) :: uint in
      if \<not> merge_ready s then
        Returned () (s\<lparr>merge_ready := True,
          write_union := new_range_set (Some commit_space) ''write_union'',
          num_patches := gs,
          patches := replicate (unat gs) no_map,
          read_map := init_empty_map (Some metacow_space) ''read_map'',
          write_map := init_empty_map (Some metacow_space) ''write_map''\<rparr>)
      else
        Returned () (s\<lparr>
          patches := (if num_patches s < gs then realloc_list junk (patches s) (unat gs) else patches s),
          num_patches := gs,
          write_union := map_clear (write_union s)\<rparr>))"

definition mem_range_eq :: "addr_t \<times> size_t \<Rightarrow> mem_range_t \<Rightarrow> bool" where
  "mem_range_eq r1 r2 \<longleftrightarrow> fst r1 = base r2 \<and> snd r1 = rsize r2"

section \<open>The correctness check\<close>

text \<open>A call of \<^verbatim>\<open>map_add_range_from_task\<close> on a map of the state, with the abort it makes when it gives up.\<close>

definition from_task_call ::
    "(bop_state \<Rightarrow> map_t) \<Rightarrow> (map_t \<Rightarrow> bop_state \<Rightarrow> bop_state) \<Rightarrow>
     addr_t \<Rightarrow> size_t \<Rightarrow> block option \<Rightarrow> uint \<Rightarrow> mem_range_t option bop" where
  "from_task_call get upd b sz obj t s =
     (case map_add_range_from_task (get s) b sz obj t of
        Inl e \<Rightarrow> Aborted e
      | Inr (m, Some r) \<Rightarrow> Returned (Some r) (upd m s)
      | Inr (m, None) \<Rightarrow> seq BOP_abort_spec (\<lambda>_. ret None) (upd m s))"

definition set_write_union :: "map_t \<Rightarrow> bop_state \<Rightarrow> bop_state" where
  "set_write_union m s = s\<lparr>write_union := m\<rparr>"

definition set_received :: "map_t \<Rightarrow> bop_state \<Rightarrow> bop_state" where
  "set_received m s = s\<lparr>received := m\<rparr>"

definition set_received_n_used :: "map_t \<Rightarrow> bop_state \<Rightarrow> bop_state" where
  "set_received_n_used m s = s\<lparr>received_n_used := m\<rparr>"

text \<open>
  \<^verbatim>\<open>map_contains\<close> on a map of the state, which it splays; the callers use the result without a test
  for null.
\<close>

definition contains_call ::
    "(bop_state \<Rightarrow> map_t) \<Rightarrow> (map_t \<Rightarrow> bop_state \<Rightarrow> bop_state) \<Rightarrow> addr_t \<Rightarrow> mem_range_t bop" where
  "contains_call get upd a s =
     (case map_contains (get s) a of
        Inl e \<Rightarrow> Aborted e
      | Inr (m, None) \<Rightarrow> Aborted BadAccess
      | Inr (m, Some r) \<Rightarrow> Returned r (upd m s))"

text \<open>
  The overlap of the range with \<^verbatim>\<open>write_union\<close> is no conflict when the same range was received from
  the task that wrote it last: the result tells whether the task is still free of conflicts.
\<close>

definition received_from_writer :: "mem_range_t \<Rightarrow> addr_t \<times> size_t \<Rightarrow> mem_range_t \<Rightarrow> bool bop" where
  "received_from_writer mseg access_overlap acc_range s =
     (case map_overlaps (received s) mseg of
        None \<Rightarrow> Returned False s
      | Some recv_overlap \<Rightarrow>
        if access_overlap = recv_overlap then
          seq (contains_call received set_received (fst recv_overlap)) (\<lambda>recv_range.
            if task recv_range = task acc_range then
              seq (from_task_call received_n_used set_received_n_used
                     (base acc_range) (rsize acc_range) (rec recv_range) (task acc_range))
                (\<lambda>_. ret True)
            else ret False) s
        else Returned False s)"

text \<open>One pass of the loop: \<open>Some a\<close> is the early return of the address of a conflict.\<close>

definition check_range :: "mem_range_t \<Rightarrow> addr_t option bop" where
  "check_range mseg s =
     (case map_overlaps (write_union s) mseg of
        None \<Rightarrow> Returned None s
      | Some access_overlap \<Rightarrow>
        seq (contains_call write_union set_write_union (fst access_overlap)) (\<lambda>mod_range.
          seq (if mem_range_eq access_overlap mseg then
                 seq (contains_call write_union set_write_union (fst access_overlap)) (\<lambda>acc_range.
                 seq (\<lambda>s. Returned () (s\<lparr>conflict_addr := fst access_overlap\<rparr>)) (\<lambda>_.
                   if mem_range_eq access_overlap acc_range
                   then received_from_writer mseg access_overlap acc_range
                   else ret False))
               else ret False)
            (\<lambda>still_conf_free. ret (if still_conf_free then None else Some (fst access_overlap)))) s)"

fun check_ranges :: "mem_range_t list \<Rightarrow> addr_t bop" where
  "check_ranges [] = ret 0"
| "check_ranges (r # rs) =
     seq (check_range r) (\<lambda>c. case c of Some a \<Rightarrow> ret a | None \<Rightarrow> check_ranges rs)"

definition check_for_overlap :: "(bop_state \<Rightarrow> map_t) \<Rightarrow> addr_t bop" where
  "check_for_overlap my_access s =
     (if msize (write_union s) = 0 then Returned 0 s
      else check_ranges (array_ranges (my_access s)) s)"

definition union_add_range :: "mem_range_t \<Rightarrow> unit bop" where
  "union_add_range rg s =
     seq (from_task_call write_union set_write_union (base rg) (rsize rg) None (of_int (BOP_ppr_index s)))
       (\<lambda>_. ret ()) s"

definition ppr_is_correct :: "int bop" where
  "ppr_is_correct s =
     (if task_status s = UNDY \<or> task_status s = SEQ then Returned 1 s
      else
        seq (check_for_overlap read_map) (\<lambda>r s1.
          if r \<noteq> 0 then Returned 0 s1
          else seq (foreach_prog (write_map s1) union_add_range) (\<lambda>_. ret 1) s1) s)"

section \<open>Patches\<close>

text \<open>\<^verbatim>\<open>struct patch_inject_t\<close>: the patch and the number of bytes copied, an \<^verbatim>\<open>unsigned\<close>.\<close>

definition add_range_block :: "memory \<Rightarrow> (map_t \<times> uint) res \<Rightarrow> mem_range_t \<Rightarrow> (map_t \<times> uint) res" where
  "add_range_block m acc rg =
     res_bind acc (\<lambda>(patch, copied).
       let data_rec = read_mem m (base rg) (unat (rsize rg))
       in res_bind (map_add_range patch (base rg) (rsize rg) (Some data_rec)) (\<lambda>(patch', _).
            Inr (patch', copied + ucast (rsize rg))))"

definition create_patch :: "map_t \<Rightarrow> mspace \<Rightarrow> memory \<Rightarrow> (map_t \<times> uint) res" where
  "create_patch change_set space m =
     map_inject change_set (Inr (init_empty_map (Some space) ''patch'', 0)) (add_range_block m)"

definition apply_range_block :: "(memory \<times> uint) res \<Rightarrow> mem_range_t \<Rightarrow> (memory \<times> uint) res" where
  "apply_range_block acc rg =
     res_bind acc (\<lambda>(m, copied).
       res_bind (memcpy_in (base rg) (rec rg) (rsize rg) m) (\<lambda>m'. Inr (m', copied + ucast (rsize rg))))"

definition apply_patch :: "map_t \<Rightarrow> memory \<Rightarrow> (map_t \<times> memory \<times> uint) res" where
  "apply_patch patch m =
     res_bind (map_inject patch (Inr (m, 0)) apply_range_block) (\<lambda>(m', copied).
       Inr (map_clear patch, m', copied))"

definition clear_patch :: "map_t \<Rightarrow> map_t" where
  "clear_patch patch = map_clear (map_inject patch patch (\<lambda>p rg. p))"

definition add_copied :: "uint \<Rightarrow> bop_state \<Rightarrow> bop_state" where
  "add_copied copied s =
     s\<lparr>bop_stats := (bop_stats s)\<lparr>data_copied := data_copied (bop_stats s) + uint copied\<rparr>\<rparr>"

definition merge_ppr_commit :: "unit bop" where
  "merge_ppr_commit s =
     (if \<not> spec_order s \<ge> 0 then Aborted AssertFailed
      else if int (length (patches s)) \<le> spec_order s then Aborted BadAccess
      else case create_patch (write_map s) commit_space (mem s) of
        Inl e \<Rightarrow> Aborted e
      | Inr (patch, copied) \<Rightarrow>
        Returned () (add_copied copied (s\<lparr>patches := (patches s)[nat (spec_order s) := patch]\<rparr>)))"

definition apply_patch_at :: "nat \<Rightarrow> unit bop" where
  "apply_patch_at i s =
     (if length (patches s) \<le> i then Aborted BadAccess
      else case apply_patch (patches s ! i) (mem s) of
        Inl e \<Rightarrow> Aborted e
      | Inr (patch, m, copied) \<Rightarrow>
        Returned () (add_copied copied (s\<lparr>patches := (patches s)[i := patch], mem := m\<rparr>)))"

definition clear_patch_at :: "nat \<Rightarrow> unit bop" where
  "clear_patch_at i s =
     (if length (patches s) \<le> i then Aborted BadAccess
      else Returned () (s\<lparr>patches := (patches s)[i := clear_patch (patches s ! i)]\<rparr>))"

definition merge_group_commit :: "unit bop" where
  "merge_group_commit s =
     seq (seq_all (map apply_patch_at [0 ..< nat (spec_order s + 1)])) (\<lambda>_.
       seq_all (map clear_patch_at [0 ..< nat (spec_order s + 1)])) s"

definition bop_merge_port :: "(nat \<Rightarrow> map_t) \<Rightarrow> bop_state bop_port_t" where
  "bop_merge_port junk = \<lparr>p_ppr_group_init = Some (bop_merge_init junk),
     p_ppr_task_init = Some merge_ppr_reset,
     p_ppr_check_correctness = Some ppr_is_correct, p_report_conflict = None,
     p_data_commit = Some merge_ppr_commit, p_task_group_commit = Some merge_group_commit,
     p_task_group_succ_fini = None, p_undy_init = None, p_undy_succ_fini = None,
     p_on_enter_ordered = None, p_on_exit_ordered = None, p_on_main_complete = None\<rparr>"

section \<open>Traversal with effects is a sequence\<close>

lemma fold_outcome:
  "fold (\<lambda>r out. case out of Returned _ s' \<Rightarrow> f r s' | _ \<Rightarrow> out) rs out =
     (case out of Returned x s \<Rightarrow> (if rs = [] then out else seq_all (map f rs) s) | _ \<Rightarrow> out)"
proof (induction rs arbitrary: out)
  case Nil
  then show ?case by (cases out) simp_all
next
  case (Cons r rs)
  show ?case
  proof (cases out)
    case (Returned x s)
    with Cons.IH [of "f r s"] show ?thesis by (cases "f r s") (simp_all add: seq_def)
  qed (use Cons.IH in simp_all)
qed

lemma foreach_prog_eq: "foreach_prog m f s = seq_all (map f (ranges m)) s"
  by (simp add: foreach_prog_def map_foreach_fold fold_outcome)

section \<open>Copying blocks\<close>

lemma length_read_mem [simp]: "length (read_mem m a n) = n"
  by (simp add: read_mem_def)

lemma offset_in_range:
  fixes a x s :: "64 word"
  assumes "a < a + s"
  shows "unat (x - a) < unat s \<longleftrightarrow> a \<le> x \<and> x < a + s"
proof -
  have "unat (a + s) = unat a + unat s"
    using unat_plus_simple [of a s] less_imp_le [OF assms] by blast
  then show ?thesis
    using assms unsigned_less [of "a + s", where ?'a = nat]
    by (auto simp: word_less_nat_alt word_le_nat_alt unat_sub_if' split: if_splits)
qed

lemma write_read_mem:
  assumes "valid r"
  shows "write_mem m (base r) (read_mem m' (base r) (unat (rsize r))) =
    (\<lambda>x. if x \<in> range_bytes r then m' x else m x)"
proof
  fix x
  have "base r < base r + rsize r" using assms by (simp add: valid_def rend_def)
  note off = offset_in_range [OF this, of x]
  show "write_mem m (base r) (read_mem m' (base r) (unat (rsize r))) x =
    (if x \<in> range_bytes r then m' x else m x)"
    using off by (simp add: write_mem_def read_mem_def rend_def)
qed

section \<open>Creating and applying a patch\<close>

text \<open>The range of a patch made from memory \<open>m\<close>.\<close>

definition with_data :: "memory \<Rightarrow> mem_range_t \<Rightarrow> mem_range_t" where
  "with_data m rg = new_range (base rg) (rsize rg) (Some (read_mem m (base rg) (unat (rsize rg))))"

lemma with_data_simps [simp]:
  "base (with_data m rg) = base rg" "rsize (with_data m rg) = rsize rg" "rend (with_data m rg) = rend rg"
  "rec (with_data m rg) = Some (read_mem m (base rg) (unat (rsize rg)))"
  "valid (with_data m rg) = valid rg" "range_bytes (with_data m rg) = range_bytes rg"
  by (simp_all add: with_data_def rend_def valid_def range_bytes_def)

lemma bytes_with_data [simp]: "bytes (map (with_data m) rs) = bytes rs"
  by (auto simp: bytes_def)

lemma add_range_blocks:
  assumes "apart (ranges patch @ rgs)" and "map_ok patch"
  shows "\<exists>patch' c'. foldl (add_range_block m) (Inr (patch, c)) rgs = Inr (patch', c') \<and>
    map_ok patch' \<and> same_map patch patch' \<and> ranges patch' = ranges patch @ map (with_data m) rgs"
  using assms
proof (induction rgs arbitrary: patch c)
  case Nil
  then show ?case by simp
next
  case (Cons rg rgs)
  have rg: "base rg < base rg + rsize rg" "\<forall>x \<in> set (ranges patch). rend x < base rg"
    using Cons.prems(1) by (auto simp: sep_simps valid_def rend_def)
  obtain p1 where p1: "map_add_range patch (base rg) (rsize rg) (Some (read_mem m (base rg) (unat (rsize rg)))) =
      Inr (p1, with_data m rg)" "map_ok p1" "ranges p1 = ranges patch @ [with_data m rg]" "same_map patch p1"
    using map_add_range_append [OF Cons.prems(2) rg] unfolding with_data_def same_map_def by metis
  have "apart (ranges p1 @ rgs)" using Cons.prems(1) by (auto simp: p1(3) sep_simps)
  from Cons.IH [OF this p1(2), of "c + ucast (rsize rg)"] p1 show ?case
    by (auto simp: add_range_block_def intro: same_map_trans)
qed

lemma create_patch_spec:
  assumes "map_ok cs"
  obtains patch c where "create_patch cs space m = Inr (patch, c)" and "map_ok patch"
    and "ranges patch = map (with_data m) (ranges cs)"
    and "residence patch = Some space"
proof -
  have "apart (ranges (init_empty_map (Some space) ''patch'') @ ranges cs)"
    using assms by (simp add: map_ok_def init_empty_map_def)
  from add_range_blocks [OF this, of m 0] obtain patch c where p:
    "create_patch cs space m = Inr (patch, c)" "map_ok patch"
    "same_map (init_empty_map (Some space) ''patch'') patch"
    "ranges patch = ranges (init_empty_map (Some space) ''patch'') @ map (with_data m) (ranges cs)"
    by (auto simp: create_patch_def map_inject_foldl)
  then have "residence patch = Some space"
    unfolding same_map_def init_empty_map_def by (metis map_t.select_convs(2) map_t.update_convs(3,4))
  with p show ?thesis by (intro that [of patch c]) (simp_all add: init_empty_map_def)
qed

text \<open>Memory \<open>m\<close> with the bytes in \<open>A\<close> taken from \<open>m'\<close>.\<close>

definition overlay :: "addr_t set \<Rightarrow> memory \<Rightarrow> memory \<Rightarrow> memory" where
  "overlay A m' m = (\<lambda>x. if x \<in> A then m' x else m x)"

lemma overlay_simps [simp]:
  "overlay {} m' m = m"
  "overlay A m' (overlay B m' m) = overlay (A \<union> B) m' m"
  "overlay A m m = m"
  by (auto simp: overlay_def)

lemma apply_range_blocks:
  assumes "\<forall>rg \<in> set rgs. valid rg"
  shows "\<exists>c'. foldl apply_range_block (Inr (m, c)) (map (with_data m') rgs) =
    Inr (overlay (bytes rgs) m' m, c')"
  using assms
proof (induction rgs arbitrary: m c)
  case Nil
  then show ?case by simp
next
  case (Cons rg rgs)
  have "apply_range_block (Inr (m, c)) (with_data m' rg) =
      Inr (overlay (range_bytes rg) m' m, c + ucast (rsize rg))"
    using Cons.prems write_read_mem [of rg m m']
    by (simp add: apply_range_block_def memcpy_in_def overlay_def)
  with Cons.IH [of "overlay (range_bytes rg) m' m"] Cons.prems show ?case
    by (simp add: Un_commute)
qed

lemma apply_patch_spec:
  assumes "ranges patch = map (with_data m') rgs" and "\<forall>rg \<in> set rgs. valid rg"
  shows "\<exists>c. apply_patch patch m = Inr (map_clear patch, overlay (bytes rgs) m' m, c)"
  using apply_range_blocks [OF assms(2), of m 0 m'] assms(1)
  by (auto simp: apply_patch_def map_inject_foldl)

section \<open>The check\<close>

lemma map_overlaps_None:
  assumes "ordered (ranges m)" and "valid r" and "range_bytes r \<inter> map_bytes m = {}"
  shows "map_overlaps m r = None"
proof (rule ccontr)
  assume "map_overlaps m r \<noteq> None"
  then obtain ob os where "lowest_overlap (map_bytes m) r ob (ob + os)"
    using map_overlaps_spec(2) [OF assms(1,2)] by fastforce
  then have "ob \<in> range_bytes r" "ob \<in> map_bytes m" by (auto simp: lowest_overlap_def)
  with assms(3) show False by blast
qed

lemma check_ranges_clean:
  assumes "ordered (ranges (write_union s))" and "\<forall>r \<in> set rs. valid r"
    and "bytes rs \<inter> map_bytes (write_union s) = {}"
  shows "check_ranges rs s = Returned 0 s"
  using assms(2,3)
proof (induction rs)
  case Nil
  then show ?case by simp
next
  case (Cons r rs)
  have "map_overlaps (write_union s) r = None"
    by (rule map_overlaps_None [OF assms(1)]) (use Cons.prems in auto)
  then have "check_range r s = Returned None s" by (simp add: check_range_def)
  with Cons show ?case by (simp add: Int_Un_distrib2)
qed

lemma contains_write_union:
  assumes "ordered (ranges (write_union s))" and "a \<in> map_bytes (write_union s)"
  obtains u r where "contains_call write_union set_write_union a s = Returned r (s\<lparr>write_union := u\<rparr>)"
    and "ranges u = ranges (write_union s)" and "msize u = msize (write_union s)"
    and "r \<in> set (ranges u)" and "a \<in> range_bytes r"
proof -
  obtain t res where t: "map_contains (write_union s) a = Inr ((write_union s)\<lparr>root := t\<rparr>, res)"
    "inorder t = ranges (write_union s)"
    "\<And>r. res = Some r \<Longrightarrow> r \<in> set (ranges (write_union s)) \<and> a \<in> range_bytes r"
    "res = None \<Longrightarrow> a \<notin> map_bytes (write_union s)"
    by (rule map_contains_spec [OF assms(1), of a]) blast
  then obtain r where "res = Some r" using assms(2) by fastforce
  with t show ?thesis
    by (intro that [of r "(write_union s)\<lparr>root := t\<rparr>"]) (simp_all add: contains_call_def set_write_union_def)
qed

text \<open>What the check may change besides finding a conflict: the shape of the union and \<^verbatim>\<open>conflict_addr\<close>.\<close>

definition checked :: "bop_state \<Rightarrow> bop_state \<Rightarrow> bool" where
  "checked s s' \<longleftrightarrow> (\<exists>u a. s' = s\<lparr>write_union := u, conflict_addr := a\<rparr> \<and>
     ranges u = ranges (write_union s) \<and> msize u = msize (write_union s))"

lemma checkedI:
  "ranges u = ranges (write_union s) \<Longrightarrow> msize u = msize (write_union s) \<Longrightarrow>
   checked s (s\<lparr>write_union := u, conflict_addr := a\<rparr>)"
  by (auto simp: checked_def)

lemma check_range_conflict:
  assumes "ordered (ranges (write_union s))" and "valid r" and "root (received s) = Leaf"
    and "range_bytes r \<inter> map_bytes (write_union s) \<noteq> {}"
  shows "\<exists>a s'. check_range r s = Returned (Some a) s' \<and> checked s s' \<and>
    a \<in> range_bytes r \<inter> map_bytes (write_union s)"
proof -
  obtain ob os where ov: "map_overlaps (write_union s) r = Some (ob, os)"
    using map_overlaps_spec(1) [OF assms(1,2)] assms(4) by (cases "map_overlaps (write_union s) r") auto
  then have ob: "ob \<in> range_bytes r \<inter> map_bytes (write_union s)"
    using map_overlaps_spec(2) [OF assms(1,2)] by (auto simp: lowest_overlap_def)
  obtain u x where u: "contains_call write_union set_write_union ob s = Returned x (s\<lparr>write_union := u\<rparr>)"
    "ranges u = ranges (write_union s)" "msize u = msize (write_union s)"
    by (rule contains_write_union [OF assms(1)]) (use ob in auto)
  obtain v y where v: "contains_call write_union set_write_union ob (s\<lparr>write_union := u\<rparr>) =
      Returned y (s\<lparr>write_union := v\<rparr>)" "ranges v = ranges (write_union s)" "msize v = msize (write_union s)"
    by (rule contains_write_union [of "s\<lparr>write_union := u\<rparr>" ob]) (use assms(1) ob u in auto)
  have recv: "received_from_writer r (ob, os) y z = Returned False z" if "root (received z) = Leaf" for z
    using that by (simp add: received_from_writer_def map_overlaps_def)
  show ?thesis
  proof (cases "mem_range_eq (ob, os) r")
    case True
    have "check_range r s = Returned (Some ob) (s\<lparr>write_union := v, conflict_addr := ob\<rparr>)"
      using True ov u(1) v(1) recv assms(3) by (simp add: check_range_def) (simp add: seq_def)
    then show ?thesis using ob checkedI [OF v(2,3)] by blast
  next
    case False
    have "check_range r s = Returned (Some ob) (s\<lparr>write_union := u\<rparr>)"
      using False ov u(1) by (simp add: check_range_def)
    moreover have "s\<lparr>write_union := u\<rparr> = s\<lparr>write_union := u, conflict_addr := conflict_addr s\<rparr>" by simp
    ultimately show ?thesis using ob checkedI [OF u(2,3)] by metis
  qed
qed

lemma check_ranges_conflict:
  assumes "ordered (ranges (write_union s))" and "\<forall>r \<in> set rs. valid r" and "root (received s) = Leaf"
    and "bytes rs \<inter> map_bytes (write_union s) \<noteq> {}"
  shows "\<exists>a s'. check_ranges rs s = Returned a s' \<and> checked s s' \<and>
    a \<in> bytes rs \<inter> map_bytes (write_union s)"
  using assms(2,4)
proof (induction rs)
  case Nil
  then show ?case by simp
next
  case (Cons r rs)
  show ?case
  proof (cases "range_bytes r \<inter> map_bytes (write_union s) = {}")
    case True
    then have "map_overlaps (write_union s) r = None"
      using map_overlaps_None [OF assms(1)] Cons.prems(1) by simp
    then have "check_range r s = Returned None s" by (simp add: check_range_def)
    moreover have "bytes rs \<inter> map_bytes (write_union s) \<noteq> {}"
      using Cons.prems(2) True by (auto simp: Int_Un_distrib2)
    ultimately show ?thesis using Cons.IH Cons.prems(1) by auto
  next
    case False
    with check_range_conflict [OF assms(1) _ assms(3)] Cons.prems(1) show ?thesis by fastforce
  qed
qed

section \<open>The union of the writes\<close>

lemma union_add_range_spec:
  assumes "tmap_ok (write_union s)" and "valid r" and "range_bytes r \<inter> map_bytes (write_union s) = {}"
  obtains u where "union_add_range r s = Returned () (s\<lparr>write_union := u\<rparr>)" and "tmap_ok u"
    and "same_map (write_union s) u" and "map_bytes u = map_bytes (write_union s) \<union> range_bytes r"
proof -
  have b: "base r < base r + rsize r" using assms(2) by (simp add: valid_def rend_def)
  have "clear_of (base r) (base r + rsize r) x" if "x \<in> set (ranges (write_union s))" for x
  proof -
    have "valid x" using that assms(1) by (simp add: tmap_ok_def ordered_def)
    moreover have "{base r ..< base r + rsize r} \<inter> range_bytes x = {}"
      using that assms(3) by (auto simp: bytes_def rend_def)
    ultimately show ?thesis using clear_of_bytes [OF b] by blast
  qed
  then have clear: "\<forall>x \<in> set (ranges (write_union s)). clear_of (base r) (base r + rsize r) x" by blast
  have none: "clone_opt None (rsize r) = Inr None" by (simp add: clone_opt_def)
  define n where "n = fresh_range (base r) (rsize r) None (of_int (BOP_ppr_index s))"
  obtain u pre post where u:
    "map_add_range_from_task (write_union s) (base r) (rsize r) None (of_int (BOP_ppr_index s)) = Inr (u, Some n)"
    "tmap_ok u" "same_map (write_union s) u" "ranges (write_union s) = pre @ post" "ranges u = pre @ n # post"
    unfolding n_def by (rule add_from_task_clear [OF assms(1) b none clear])
  have "map_bytes u = map_bytes (write_union s) \<union> range_bytes r"
    unfolding u(4,5) by (auto simp: n_def range_bytes_def rend_def)
  with u(1-3) show ?thesis
    by (intro that [of u]) (simp_all add: union_add_range_def from_task_call_def set_write_union_def)
qed

lemma union_adds:
  assumes "tmap_ok (write_union s)" and "ordered rs" and "bytes rs \<inter> map_bytes (write_union s) = {}"
  shows "\<exists>u. seq_all (map union_add_range rs) s = Returned () (s\<lparr>write_union := u\<rparr>) \<and> tmap_ok u \<and>
    same_map (write_union s) u \<and> map_bytes u = map_bytes (write_union s) \<union> bytes rs"
  using assms
proof (induction rs arbitrary: s)
  case Nil
  have "s\<lparr>write_union := write_union s\<rparr> = s" by simp
  with Nil show ?case by (intro exI [of _ "write_union s"]) simp
next
  case (Cons r rs)
  have "range_bytes r \<inter> map_bytes (write_union s) = {}" using Cons.prems(3) by auto
  then obtain u where u: "union_add_range r s = Returned () (s\<lparr>write_union := u\<rparr>)" "tmap_ok u"
    "same_map (write_union s) u" "map_bytes u = map_bytes (write_union s) \<union> range_bytes r"
    by (rule union_add_range_spec [of s r, rotated 2]) (use Cons.prems in \<open>auto simp: sep_simps\<close>)
  have "bytes rs \<inter> range_bytes r = {}"
    using Cons.prems(2) by (fastforce simp: sep_simps bytes_def)
  then have "bytes rs \<inter> map_bytes u = {}" using Cons.prems(3) u(4) by auto
  with Cons.IH [of "s\<lparr>write_union := u\<rparr>"] u Cons.prems(2) obtain v where v:
    "seq_all (map union_add_range rs) (s\<lparr>write_union := u\<rparr>) = Returned () (s\<lparr>write_union := v\<rparr>)" "tmap_ok v"
    "same_map u v" "map_bytes v = map_bytes u \<union> bytes rs" by (auto simp: sep_simps)
  with u show ?case by (intro exI [of _ v]) (auto intro: same_map_trans)
qed

text \<open>A task that is running speculatively.\<close>

definition speculative :: "bop_state \<Rightarrow> bool" where
  "speculative s \<longleftrightarrow> task_status s = MAIN \<or> task_status s = SPEC"

lemma check_for_overlap_clean:
  assumes "tmap_ok (write_union s)" and "map_ok (read_map s)" and "length (ranges (read_map s)) < 2 ^ 32"
    and "map_bytes (read_map s) \<inter> map_bytes (write_union s) = {}"
  shows "check_for_overlap read_map s = Returned 0 s"
proof -
  have "check_ranges (array_ranges (read_map s)) s = Returned 0 s"
    using assms by (intro check_ranges_clean)
      (auto simp: array_ranges_eq tmap_ok_def map_ok_def apart_def)
  then show ?thesis by (simp add: check_for_overlap_def)
qed

lemma ppr_is_correct_pass:
  assumes "speculative s" and "tmap_ok (write_union s)"
    and "map_ok (read_map s)" and "length (ranges (read_map s)) < 2 ^ 32" and "map_ok (write_map s)"
    and "map_bytes (read_map s) \<inter> map_bytes (write_union s) = {}"
    and "map_bytes (write_map s) \<inter> map_bytes (write_union s) = {}"
  obtains u where "ppr_is_correct s = Returned 1 (s\<lparr>write_union := u\<rparr>)" and "tmap_ok u"
    and "map_bytes u = map_bytes (write_union s) \<union> map_bytes (write_map s)"
proof -
  have "ordered (ranges (write_map s))" using assms(5) by (simp add: map_ok_def apart_imp_ordered)
  from union_adds [OF assms(2) this assms(7)] obtain u where
    "seq_all (map union_add_range (ranges (write_map s))) s = Returned () (s\<lparr>write_union := u\<rparr>)" "tmap_ok u"
    "map_bytes u = map_bytes (write_union s) \<union> map_bytes (write_map s)" by blast
  with check_for_overlap_clean [OF assms(2-4,6)] assms(1) show ?thesis
    by (intro that [of u]) (auto simp: ppr_is_correct_def foreach_prog_eq speculative_def)
qed

section \<open>Committing\<close>

lemma merge_ppr_commit_spec:
  assumes "spec_order s = int k" and "k < length (patches s)" and "map_ok (write_map s)"
  obtains patch c where "merge_ppr_commit s =
      Returned () (add_copied c (s\<lparr>patches := (patches s)[k := patch]\<rparr>))"
    and "ranges patch = map (with_data (mem s)) (ranges (write_map s))" and "map_ok patch"
  by (rule create_patch_spec [OF assms(3), of commit_space "mem s"])
    (use assms that in \<open>auto simp: merge_ppr_commit_def\<close>)

text \<open>
  The patches of a group: for every task the memory it ended with and the ranges it wrote.  Applying
  them overlays these bytes one task after the other.
\<close>

type_synonym outcome_of_task = "memory \<times> mem_range_t list"

definition patch_for :: "outcome_of_task \<Rightarrow> map_t \<Rightarrow> bool" where
  "patch_for t patch \<longleftrightarrow> ranges patch = map (with_data (fst t)) (snd t) \<and> (\<forall>r \<in> set (snd t). valid r)"

definition overlay_all :: "outcome_of_task list \<Rightarrow> memory \<Rightarrow> memory" where
  "overlay_all ts m = fold (\<lambda>(m', rs). overlay (bytes rs) m') ts m"

lemma apply_patches:
  assumes "list_all2 patch_for ts (take (length ts) (drop i (patches s)))"
  shows "\<exists>ps st. seq_all (map apply_patch_at [i ..< i + length ts]) s =
      Returned () (s\<lparr>patches := ps, bop_stats := st, mem := overlay_all ts (mem s)\<rparr>) \<and>
    length ps = length (patches s)"
  using assms
proof (induction ts arbitrary: i s)
  case Nil
  show ?case by (intro exI [of _ "patches s"] exI [of _ "bop_stats s"]) (simp add: overlay_all_def)
next
  case (Cons t ts)
  have i: "i < length (patches s)" using list_all2_lengthD [OF Cons.prems] by simp
  then have d: "drop i (patches s) = (patches s ! i) # drop (Suc i) (patches s)"
    by (simp add: Cons_nth_drop_Suc)
  obtain m' rs where t: "t = (m', rs)" by (cases t)
  from Cons.prems have p: "patch_for t (patches s ! i)"
    "list_all2 patch_for ts (take (length ts) (drop (Suc i) (patches s)))" by (simp_all add: d)
  then obtain c where "apply_patch (patches s ! i) (mem s) =
      Inr (map_clear (patches s ! i), overlay (bytes rs) m' (mem s), c)"
    using apply_patch_spec [of "patches s ! i" m' rs "mem s"] by (auto simp: patch_for_def t)
  then have step: "apply_patch_at i s = Returned () (add_copied c (s\<lparr>patches := (patches s)[i := map_clear (patches s ! i)],
      mem := overlay (bytes rs) m' (mem s)\<rparr>))" (is "_ = Returned () ?s1")
    using i by (simp add: apply_patch_at_def)
  have "list_all2 patch_for ts (take (length ts) (drop (Suc i) (patches ?s1)))"
    using p(2) by (simp add: add_copied_def)
  from Cons.IH [OF this] obtain ps st where
    "seq_all (map apply_patch_at [Suc i ..< Suc i + length ts]) ?s1 =
      Returned () (?s1\<lparr>patches := ps, bop_stats := st, mem := overlay_all ts (mem ?s1)\<rparr>)"
    "length ps = length (patches ?s1)" by blast
  moreover have "[i ..< i + length (t # ts)] = i # [Suc i ..< Suc i + length ts]"
    by (simp add: upt_rec)
  ultimately show ?case using step
    by (intro exI [of _ ps] exI [of _ st]) (simp add: add_copied_def overlay_all_def t)
qed

lemma clear_patches:
  assumes "i + n \<le> length (patches s)"
  shows "\<exists>ps. seq_all (map clear_patch_at [i ..< i + n]) s = Returned () (s\<lparr>patches := ps\<rparr>)"
  using assms
proof (induction n arbitrary: i s)
  case 0
  show ?case by (intro exI [of _ "patches s"]) simp
next
  case (Suc n)
  define s1 where "s1 = s\<lparr>patches := (patches s)[i := clear_patch (patches s ! i)]\<rparr>"
  have "clear_patch_at i s = Returned () s1" using Suc.prems by (simp add: clear_patch_at_def s1_def)
  moreover have "Suc i + n \<le> length (patches s1)" using Suc.prems by (simp add: s1_def)
  from Suc.IH [OF this] obtain ps where "seq_all (map clear_patch_at [Suc i ..< Suc i + n]) s1 =
      Returned () (s1\<lparr>patches := ps\<rparr>)" by blast
  moreover have "[i ..< i + Suc n] = i # [Suc i ..< Suc i + n]" by (simp add: upt_rec)
  ultimately show ?case by (intro exI [of _ ps]) (simp add: s1_def)
qed

lemma merge_group_commit_spec:
  assumes "spec_order s = int k" and "length ts = Suc k"
    and "list_all2 patch_for ts (take (Suc k) (patches s))"
  shows "\<exists>ps st. merge_group_commit s =
    Returned () (s\<lparr>patches := ps, bop_stats := st, mem := overlay_all ts (mem s)\<rparr>)"
proof -
  have n: "nat (spec_order s + 1) = Suc k" using assms(1) by simp
  have len: "Suc k \<le> length (patches s)" using list_all2_lengthD [OF assms(3)] assms(2) by simp
  obtain ps st where 1: "seq_all (map apply_patch_at [0 ..< Suc k]) s =
      Returned () (s\<lparr>patches := ps, bop_stats := st, mem := overlay_all ts (mem s)\<rparr>)" (is "_ = Returned () ?s1")
    "length ps = length (patches s)" using apply_patches [of ts 0 s] assms(2,3) by auto
  obtain qs where "seq_all (map clear_patch_at [0 ..< 0 + Suc k]) ?s1 = Returned () (?s1\<lparr>patches := qs\<rparr>)"
    using clear_patches [of 0 "Suc k" ?s1] 1(2) len by auto
  with 1(1) show ?thesis unfolding merge_group_commit_def n
    by (intro exI [of _ qs] exI [of _ st]) simp
qed

lemma ordered_length:
  assumes "ordered rs"
  shows "length rs < 2 ^ 64"
proof -
  have "sorted_wrt (<) (map base rs)"
    using ordered_imp_base_sorted [OF assms] by (simp add: sorted_wrt_map)
  then have "length rs = card (set (map base rs))"
    using distinct_card [of "map base rs"] by (simp add: strict_sorted_iff)
  also have "\<dots> \<le> card (UNIV - {- 1 :: addr_t})"
  proof (intro card_mono subsetI)
    fix a assume "a \<in> set (map base rs)"
    then obtain r where "a = base r" "base r < rend r" using ordered_valid [OF assms] by auto
    then show "a \<in> UNIV - {- 1}" using word_order.extremum_strict [of "rend r"] by auto
  qed simp
  also have "\<dots> < 2 ^ 64" by (simp add: card_Diff_singleton card_word)
  finally show ?thesis .
qed

lemma tmap_msize_0: "tmap_ok m \<Longrightarrow> msize m = 0 \<longleftrightarrow> ranges m = []"
  using ordered_length [of "ranges m"]
  by (auto simp: tmap_ok_def word_of_nat_eq_0_iff dest: dvd_imp_le)

lemma ppr_is_correct_conflict:
  assumes "speculative s" and "tmap_ok (write_union s)"
    and "map_ok (read_map s)" and "length (ranges (read_map s)) < 2 ^ 32"
    and "root (received s) = Leaf" and "0 \<notin> map_bytes (write_union s)"
    and "map_bytes (read_map s) \<inter> map_bytes (write_union s) \<noteq> {}"
  obtains s' where "ppr_is_correct s = Returned 0 s'" and "checked s s'"
proof -
  have o: "ordered (ranges (write_union s))" using assms(2) by (simp add: tmap_ok_def)
  have v: "\<forall>r \<in> set (ranges (read_map s)). valid r" using assms(3) by (simp add: map_ok_def apart_def)
  from check_ranges_conflict [OF o v assms(5,7)] obtain a s' where a:
    "check_ranges (ranges (read_map s)) s = Returned a s'" "checked s s'" "a \<in> map_bytes (write_union s)"
    by blast
  then have "a \<noteq> 0" using assms(6) by auto
  have "msize (write_union s) \<noteq> 0" using a(3) tmap_msize_0 [OF assms(2)] by auto
  then have "check_for_overlap read_map s = Returned a s'"
    using a(1) assms(3,4) by (simp add: check_for_overlap_def array_ranges_eq)
  with \<open>a \<noteq> 0\<close> assms(1) a(2) show ?thesis
    by (intro that [of s']) (auto simp: ppr_is_correct_def speculative_def)
qed

section \<open>Properties\<close>

definition example_task :: bop_state where
  "example_task = (program_start (\<lambda>a. ucast a))\<lparr>task_status := SPEC, ppr_pos := PPR, spec_order := 0,
     read_map := (init_empty_map (Some metacow_space) ''read_map'')
       \<lparr>root := Node Leaf (new_range 300 10 None) Leaf, msize := 1\<rparr>,
     write_map := (init_empty_map (Some metacow_space) ''write_map'')
       \<lparr>root := Node Leaf (new_range 64 8 None) Leaf, msize := 1\<rparr>,
     write_union := (init_empty_map (Some commit_space) ''write_union'')
       \<lparr>root := Node Leaf (new_range 100 20 None) Leaf, msize := 1\<rparr>,
     patches := [no_map]\<rparr>"

lemma example_task_ok [simp]:
  "map_ok (read_map example_task)" "map_ok (write_map example_task)" "tmap_ok (write_union example_task)"
  "speculative example_task"
  by (simp_all add: example_task_def map_ok_def tmap_ok_def sep_simps valid_def speculative_def)

text \<open>
  C3: a patch made from one memory and applied to another one carries over exactly the bytes of the
  change set: every other byte keeps its value, and the patch is empty afterwards.
\<close>

theorem patch_roundtrip:
  assumes "map_ok change_set"
  shows "\<exists>patch c patch' c'. create_patch change_set space m1 = Inr (patch, c) \<and>
    apply_patch patch m2 =
      Inr (patch', (\<lambda>a. if a \<in> map_bytes change_set then m1 a else m2 a), c') \<and> ranges patch' = []"
proof -
  obtain patch c where p: "create_patch change_set space m1 = Inr (patch, c)"
    "ranges patch = map (with_data m1) (ranges change_set)" by (rule create_patch_spec [OF assms])
  have "\<forall>r \<in> set (ranges change_set). valid r" using assms by (simp add: map_ok_def apart_def)
  from apply_patch_spec [OF p(2) this] obtain c' where
    "apply_patch patch m2 = Inr (map_clear patch, overlay (map_bytes change_set) m1 m2, c')" by blast
  with p(1) show ?thesis by (auto simp: overlay_def)
qed

theorem patch_roundtrip_witness:
  "\<exists>patch c patch' c'. create_patch (write_map example_task) 1 (\<lambda>a. ucast a) = Inr (patch, c) \<and>
    apply_patch patch (\<lambda>_. 7) =
      Inr (patch', (\<lambda>a. if a \<in> map_bytes (write_map example_task) then ucast a else 7), c') \<and> ranges patch' = []"
  by (rule patch_roundtrip) simp

text \<open>
  C2: the check of a task that received nothing through a channel is exact: when it read a byte that
  an earlier task wrote, the result is 0; when it neither read nor wrote such a byte, the result is 1
  and the union of the writes grows by exactly the bytes it wrote.  Address 0 stands for no conflict
  in the code, so no task may have written it.
\<close>

theorem check_exact:
  assumes "speculative s" and "tmap_ok (write_union s)" and "map_ok (read_map s)" and "map_ok (write_map s)"
    and "length (ranges (read_map s)) < 2 ^ 32"
    and "root (received s) = Leaf" and "0 \<notin> map_bytes (write_union s)"
  shows "(map_bytes (read_map s) \<inter> map_bytes (write_union s) \<noteq> {} \<longrightarrow> (\<exists>s'. ppr_is_correct s = Returned 0 s')) \<and>
    (map_bytes (read_map s) \<inter> map_bytes (write_union s) = {} \<longrightarrow>
     map_bytes (write_map s) \<inter> map_bytes (write_union s) = {} \<longrightarrow>
     (\<exists>u. ppr_is_correct s = Returned 1 (s\<lparr>write_union := u\<rparr>) \<and> tmap_ok u \<and>
       map_bytes u = map_bytes (write_union s) \<union> map_bytes (write_map s)))"
  using ppr_is_correct_conflict [OF assms(1-3,5-7)] ppr_is_correct_pass [OF assms(1-3,5,4)] by metis

theorem check_exact_witness:
  "\<exists>u. ppr_is_correct example_task = Returned 1 (example_task\<lparr>write_union := u\<rparr>) \<and> tmap_ok u"
proof -
  have "map_bytes (read_map example_task) \<inter> map_bytes (write_union example_task) = {}"
    "map_bytes (write_map example_task) \<inter> map_bytes (write_union example_task) = {}"
    "0 \<notin> map_bytes (write_union example_task)" "root (received example_task) = Leaf"
    "length (ranges (read_map example_task)) < 2 ^ 32"
    by (simp_all add: example_task_def range_bytes_def program_start_def no_map_def init_empty_map_def)
  then show ?thesis using check_exact [of example_task] by auto
qed

text \<open>
  C15: a group commit returns and gives the committing process the bytes of all the patches, those of
  a later task over those of an earlier one.
\<close>

theorem group_commit_overlays:
  assumes "spec_order s = int k" and "length ts = Suc k"
    and "list_all2 patch_for ts (take (Suc k) (patches s))"
  shows "\<exists>s'. merge_group_commit s = Returned () s' \<and> mem s' = overlay_all ts (mem s)"
  using merge_group_commit_spec [OF assms] by auto

theorem group_commit_overlays_witness:
  "\<exists>s'. merge_group_commit example_task = Returned () s' \<and>
    mem s' = overlay_all [(\<lambda>_. 0, [])] (mem example_task)"
  by (rule group_commit_overlays [of _ 0])
    (simp_all add: example_task_def patch_for_def no_map_def init_empty_map_def)

end
