(* ===== verification/Speculation.thy ===== *)
theory Speculation
  imports Merge
begin

text \<open>
  What copy-and-merge is for: a group of tasks that ran side by side from the same memory, passed
  the check in their order and were committed leaves the memory that running them one after the
  other would have left.

  The user's code of a task is a function on memory, the argument \<open>body\<close>; what the runtime relies on
  is stated of it by name: the recorded sets cover what it reads and writes (\<open>behaves\<close>).  The
  processes of a group are the states they have when they reach the end of their PPR, all of them
  having started from the memory \<open>m0\<close> of the fork.
\<close>

section \<open>Tasks\<close>

record ppr_task =
  body :: "memory \<Rightarrow> memory"
  proc :: bop_state

definition reads :: "ppr_task \<Rightarrow> addr_t set" where
  "reads t = map_bytes (read_map (proc t))"

definition writes :: "ppr_task \<Rightarrow> addr_t set" where
  "writes t = map_bytes (write_map (proc t))"

text \<open>
  The code changes only bytes it recorded as written, and what it writes depends only on bytes it
  recorded as read.
\<close>

definition behaves :: "ppr_task \<Rightarrow> bool" where
  "behaves t \<longleftrightarrow>
     (\<forall>m a. a \<notin> writes t \<longrightarrow> body t m a = m a) \<and>
     (\<forall>m m'. (\<forall>a \<in> reads t. m a = m' a) \<longrightarrow> (\<forall>a \<in> writes t. body t m a = body t m' a))"

text \<open>The process of the task: it is speculative, its maps are well formed, and it ran \<open>body\<close> from \<open>m0\<close>.\<close>

definition ran_from :: "memory \<Rightarrow> ppr_task \<Rightarrow> bool" where
  "ran_from m0 t \<longleftrightarrow> speculative (proc t) \<and> map_ok (read_map (proc t)) \<and> map_ok (write_map (proc t)) \<and>
     length (ranges (read_map (proc t))) < 2 ^ 32 \<and> root (received (proc t)) = Leaf \<and>
     0 \<notin> writes t \<and> mem (proc t) = body t m0"

definition sequential :: "ppr_task list \<Rightarrow> memory \<Rightarrow> memory" where
  "sequential ts m = fold body ts m"

section \<open>Committing a group\<close>

text \<open>
  The data side of \<^verbatim>\<open>ppr_task_commit\<close> over a whole group: each process in turn checks against the
  shared union; all but the last make their patch, the last one applies the patches to its own
  memory, which is the memory the program goes on with.  \<open>None\<close> when a check fails.
\<close>

definition checked_ok :: "bop_state \<Rightarrow> bop_state option" where
  "checked_ok s = (case ppr_is_correct s of Returned v s' \<Rightarrow> (if v \<noteq> 0 then Some s' else None) | _ \<Rightarrow> None)"

fun commit_group :: "nat \<Rightarrow> ppr_task list \<Rightarrow> map_t \<Rightarrow> map_t list \<Rightarrow> memory option" where
  "commit_group k [] u ps = None"
| "commit_group k (t # ts) u ps =
     (case checked_ok ((proc t)\<lparr>spec_order := int k, write_union := u, patches := ps\<rparr>) of
        None \<Rightarrow> None
      | Some s1 \<Rightarrow>
        if ts = [] then
          (case merge_group_commit s1 of Returned _ s2 \<Rightarrow> Some (mem s2) | _ \<Rightarrow> None)
        else
          (case merge_ppr_commit s1 of
             Returned _ s2 \<Rightarrow> commit_group (Suc k) ts (write_union s2) (patches s2)
           | _ \<Rightarrow> None))"

section \<open>Sequential execution as overlays\<close>

definition all_writes :: "ppr_task list \<Rightarrow> addr_t set" where
  "all_writes ts = (\<Union>t \<in> set ts. writes t)"

text \<open>No task read a byte that an earlier one wrote.\<close>

fun conflict_free :: "addr_t set \<Rightarrow> ppr_task list \<Rightarrow> bool" where
  "conflict_free A [] = True"
| "conflict_free A (t # ts) = (reads t \<inter> A = {} \<and> conflict_free (A \<union> writes t) ts)"

fun writes_apart :: "addr_t set \<Rightarrow> ppr_task list \<Rightarrow> bool" where
  "writes_apart A [] = True"
| "writes_apart A (t # ts) = (writes t \<inter> A = {} \<and> writes_apart (A \<union> writes t) ts)"

lemma writes_apart_all: "writes_apart A ts \<Longrightarrow> all_writes ts \<inter> A = {}"
  by (induction ts arbitrary: A) (fastforce simp: all_writes_def)+

definition outcome :: "memory \<Rightarrow> ppr_task \<Rightarrow> outcome_of_task" where
  "outcome m0 t = (body t m0, ranges (write_map (proc t)))"

lemma overlay_all_Cons [simp]: "overlay_all ((m', rs) # ts) m = overlay_all ts (overlay (bytes rs) m' m)"
  by (simp add: overlay_all_def)

text \<open>One task run after memory that differs from \<open>m0\<close> only where the task does not read.\<close>

lemma body_overlay:
  assumes "behaves t" and "\<forall>a. a \<notin> A \<longrightarrow> m a = m0 a" and "reads t \<inter> A = {}"
  shows "body t m = overlay (writes t) (body t m0) m"
proof
  fix a
  have "\<forall>a \<in> reads t. m a = m0 a" using assms(2,3) by auto
  then have "\<forall>a \<in> writes t. body t m a = body t m0 a" using assms(1) by (auto simp: behaves_def)
  then show "body t m a = overlay (writes t) (body t m0) m a"
    using assms(1) by (auto simp: overlay_def behaves_def)
qed

lemma sequential_overlay:
  assumes "\<forall>t \<in> set ts. behaves t" and "conflict_free A ts" and "\<forall>a. a \<notin> A \<longrightarrow> m a = m0 a"
  shows "sequential ts m = overlay_all (map (outcome m0) ts) m"
  using assms
proof (induction ts arbitrary: A m)
  case Nil
  then show ?case by (simp add: sequential_def overlay_all_def)
next
  case (Cons t ts)
  have b: "body t m = overlay (writes t) (body t m0) m"
    using body_overlay [of t A m m0] Cons.prems by auto
  have "\<forall>a. a \<notin> A \<union> writes t \<longrightarrow> body t m a = m0 a"
    using Cons.prems(3) by (simp add: b overlay_def)
  with Cons.IH [of "A \<union> writes t" "body t m"] Cons.prems show ?case
    by (simp add: sequential_def outcome_def b writes_def [symmetric])
qed

text \<open>Overlaying bytes apart from the rest first or last makes no difference.\<close>

lemma overlay_commute:
  "A \<inter> B = {} \<Longrightarrow> overlay A m1 (overlay B m2 m) = overlay B m2 (overlay A m1 m)"
  by (rule ext) (auto simp: overlay_def)

lemma overlay_all_last:
  assumes "\<forall>(m', rs) \<in> set ts. bytes rs \<inter> B = {}"
  shows "overlay_all ts (overlay B m2 m) = overlay B m2 (overlay_all ts m)"
  using assms
proof (induction ts arbitrary: m)
  case Nil
  then show ?case by (simp add: overlay_all_def)
next
  case (Cons t ts)
  obtain m' rs where t: "t = (m', rs)" by (cases t)
  with Cons.prems have "bytes rs \<inter> B = {}" by auto
  then have "overlay (bytes rs) m' (overlay B m2 m) = overlay B m2 (overlay (bytes rs) m' m)"
    by (rule overlay_commute)
  with Cons t show ?case by simp
qed

section \<open>The commit of a group\<close>

text \<open>The patches made so far: those of the tasks before position \<open>k\<close>, and nothing behind them.\<close>

definition patches_of :: "memory \<Rightarrow> ppr_task list \<Rightarrow> map_t list \<Rightarrow> bool" where
  "patches_of m0 ds ps \<longleftrightarrow>
     list_all2 patch_for (map (outcome m0) ds) (take (length ds) ps) \<and>
     (\<forall>p \<in> set (drop (length ds) ps). ranges p = [])"

lemma checked_ok_cases:
  fixes k :: nat and ps :: "map_t list"
  assumes "ran_from m0 t" and "tmap_ok u" and "0 \<notin> map_bytes u"
  defines "s \<equiv> (proc t)\<lparr>spec_order := int k, write_union := u, patches := ps\<rparr>"
  shows "checked_ok s \<noteq> None \<Longrightarrow> reads t \<inter> map_bytes u = {}"
    and "reads t \<inter> map_bytes u = {} \<Longrightarrow> writes t \<inter> map_bytes u = {} \<Longrightarrow>
      \<exists>u'. checked_ok s = Some (s\<lparr>write_union := u'\<rparr>) \<and> tmap_ok u' \<and> map_bytes u' = map_bytes u \<union> writes t"
proof -
  have s: "speculative s" "tmap_ok (write_union s)" "map_ok (read_map s)" "map_ok (write_map s)"
    "length (ranges (read_map s)) < 2 ^ 32" "root (received s) = Leaf" "0 \<notin> map_bytes (write_union s)"
    using assms by (simp_all add: ran_from_def speculative_def)
  have rw: "map_bytes (read_map s) = reads t" "map_bytes (write_map s) = writes t" "write_union s = u"
    by (simp_all add: s_def reads_def writes_def)
  show "reads t \<inter> map_bytes u = {}" if "checked_ok s \<noteq> None"
  proof (rule ccontr)
    assume "reads t \<inter> map_bytes u \<noteq> {}"
    then obtain s' where "ppr_is_correct s = Returned 0 s'"
      using ppr_is_correct_conflict [OF s(1-3,5-7)] unfolding rw by blast
    with that show False by (simp add: checked_ok_def)
  qed
  show "\<exists>u'. checked_ok s = Some (s\<lparr>write_union := u'\<rparr>) \<and> tmap_ok u' \<and> map_bytes u' = map_bytes u \<union> writes t"
    if "reads t \<inter> map_bytes u = {}" "writes t \<inter> map_bytes u = {}"
    using ppr_is_correct_pass [OF s(1-3,5,4)] that unfolding rw by (fastforce simp: checked_ok_def)
qed

lemma commit_last:
  assumes "ran_from m0 t" and "behaves t" and "patches_of m0 ds ps" and "length ds < length ps"
    and "writes t \<inter> all_writes ds = {}"
  shows "\<exists>s2. merge_group_commit ((proc t)\<lparr>spec_order := int (length ds), write_union := u, patches := ps\<rparr>) =
      Returned () s2 \<and> mem s2 = overlay (writes t) (body t m0) (overlay_all (map (outcome m0) ds) m0)"
proof -
  define s where "s = (proc t)\<lparr>spec_order := int (length ds), write_union := u, patches := ps\<rparr>"
  define none where "none = ((\<lambda>_. 0, []) :: outcome_of_task)"
  let ?k = "length ds"
  have "ps ! ?k \<in> set (drop ?k ps)" using assms(4) by (metis Cons_nth_drop_Suc list.set_intros(1))
  then have "ranges (ps ! ?k) = []" using assms(3) by (simp add: patches_of_def)
  then have "patch_for none (ps ! ?k)" by (simp add: patch_for_def none_def)
  then have "list_all2 patch_for (map (outcome m0) ds @ [none]) (take (Suc ?k) (patches s))"
    using assms(3,4) by (simp add: s_def patches_of_def take_Suc_conv_app_nth list_all2_appendI)
  moreover have "spec_order s = int ?k" "length (map (outcome m0) ds @ [none]) = Suc ?k"
    by (simp_all add: s_def)
  ultimately obtain s2 where s2: "merge_group_commit s = Returned () s2"
    "mem s2 = overlay_all (map (outcome m0) ds @ [none]) (mem s)"
    using merge_group_commit_spec by fastforce
  have "mem s = overlay (writes t) (body t m0) m0"
  proof -
    have "mem s = body t m0" using assms(1) by (simp add: s_def ran_from_def)
    also have "\<dots> = overlay (writes t) (body t m0) m0"
      using assms(2) by (auto simp: overlay_def behaves_def)
    finally show ?thesis .
  qed
  moreover have "\<forall>(m', rs) \<in> set (map (outcome m0) ds). bytes rs \<inter> writes t = {}"
    using assms(5) by (auto simp: outcome_def all_writes_def writes_def)
  moreover have "overlay_all (xs @ [none]) m = overlay_all xs m" for xs m
    by (simp add: overlay_all_def none_def)
  ultimately have "mem s2 = overlay (writes t) (body t m0) (overlay_all (map (outcome m0) ds) m0)"
    using overlay_all_last s2(2) by simp
  with s2(1) show ?thesis unfolding s_def by blast
qed


lemma commit_step:
  assumes "ran_from m0 t" and "patches_of m0 ds ps" and "length ds < length ps"
  obtains ps' s2 where
    "merge_ppr_commit ((proc t)\<lparr>spec_order := int (length ds), write_union := u, patches := ps\<rparr>) = Returned () s2"
    and "write_union s2 = u" and "patches s2 = ps'" and "patches_of m0 (ds @ [t]) ps'"
    and "length ps' = length ps"
proof -
  define s where "s = (proc t)\<lparr>spec_order := int (length ds), write_union := u, patches := ps\<rparr>"
  have s: "spec_order s = int (length ds)" "length ds < length (patches s)" "map_ok (write_map s)"
    using assms by (simp_all add: s_def ran_from_def)
  obtain patch c where p: "merge_ppr_commit s =
      Returned () (add_copied c (s\<lparr>patches := (patches s)[length ds := patch]\<rparr>))"
    "ranges patch = map (with_data (mem s)) (ranges (write_map s))" "map_ok patch"
    by (rule merge_ppr_commit_spec [OF s])
  define ps' where "ps' = ps[length ds := patch]"
  have "patch_for (outcome m0 t) patch"
    using p(2) s(3) assms(1)
    by (simp add: patch_for_def outcome_def ran_from_def s_def map_ok_def apart_def)
  then have "patches_of m0 (ds @ [t]) ps'"
    using assms(2,3)
    by (simp add: patches_of_def ps'_def take_Suc_conv_app_nth list_all2_appendI)
      (metis Cons_nth_drop_Suc list.set_intros(2))
  with p(1) show ?thesis
    by (intro that [of "add_copied c (s\<lparr>patches := (patches s)[length ds := patch]\<rparr>)" ps'])
      (simp_all add: s_def add_copied_def ps'_def)
qed

lemma commit_group_spec:
  assumes "ts \<noteq> []" and "\<forall>t \<in> set ts. ran_from m0 t \<and> behaves t"
    and "patches_of m0 ds ps" and "length ds + length ts \<le> length ps"
    and "tmap_ok u" and "map_bytes u = all_writes ds" and "0 \<notin> map_bytes u"
    and "writes_apart (all_writes ds) ts"
  shows "commit_group (length ds) ts u ps =
    (if conflict_free (all_writes ds) ts
     then Some (overlay_all (map (outcome m0) (ds @ ts)) m0) else None)"
  using assms
proof (induction ts arbitrary: ds u ps)
  case Nil
  then show ?case by simp
next
  case (Cons t ts)
  define s where "s = (proc t)\<lparr>spec_order := int (length ds), write_union := u, patches := ps\<rparr>"
  have t: "ran_from m0 t" "behaves t" "writes t \<inter> all_writes ds = {}" using Cons.prems by auto
  note chk = checked_ok_cases [OF t(1) Cons.prems(5,7), where k = "length ds" and ps = ps, folded s_def]
  have all: "all_writes (ds @ [t]) = all_writes ds \<union> writes t" by (auto simp: all_writes_def)
  show ?case
  proof (cases "reads t \<inter> map_bytes u = {}")
    case False
    then have "checked_ok s = None" using chk(1) by blast
    with False show ?thesis by (simp add: s_def [symmetric] Cons.prems(6))
  next
    case True
    from chk(2) [OF this] obtain u' where u': "checked_ok s = Some (s\<lparr>write_union := u'\<rparr>)" "tmap_ok u'"
      "map_bytes u' = map_bytes u \<union> writes t" using t(3) Cons.prems(6) by auto
    have s': "s\<lparr>write_union := u'\<rparr> = (proc t)\<lparr>spec_order := int (length ds), write_union := u', patches := ps\<rparr>"
      by (simp add: s_def)
    show ?thesis
    proof (cases "ts = []")
      case fin: True
      obtain s2 where "merge_group_commit (s\<lparr>write_union := u'\<rparr>) = Returned () s2"
        "mem s2 = overlay (writes t) (body t m0) (overlay_all (map (outcome m0) ds) m0)"
        using commit_last [OF t(1,2) Cons.prems(3) _ t(3), of u'] Cons.prems(4) unfolding s' by auto
      with fin u'(1) True Cons.prems(6) show ?thesis
        by (simp add: s_def [symmetric] overlay_all_def outcome_def writes_def [symmetric])
    next
      case more: False
      obtain ps' s2 where s2: "merge_ppr_commit (s\<lparr>write_union := u'\<rparr>) = Returned () s2"
        "write_union s2 = u'" "patches s2 = ps'" "patches_of m0 (ds @ [t]) ps'" "length ps' = length ps"
        unfolding s' by (rule commit_step [OF t(1) Cons.prems(3), of u']) (use Cons.prems(4) in auto)
      have "0 \<notin> map_bytes u'" using t(1) u'(3) Cons.prems(7) by (simp add: ran_from_def)
      with Cons.IH [OF more _ s2(4) _ u'(2)] s2(5) Cons.prems u'(3) have
        "commit_group (length (ds @ [t])) ts u' ps' =
          (if conflict_free (all_writes (ds @ [t])) ts
           then Some (overlay_all (map (outcome m0) ((ds @ [t]) @ ts)) m0) else None)"
        by (simp add: all)
      with more u'(1) True Cons.prems(6) s2 show ?thesis by (simp add: s_def [symmetric] all)
    qed
  qed
qed

section \<open>Properties\<close>

text \<open>The shared data at the start of a group: an empty union, and patches that are empty.\<close>

definition fresh_union :: map_t where
  "fresh_union = new_range_set (Some commit_space) ''write_union''"

definition one_byte :: "addr_t \<Rightarrow> map_t" where
  "one_byte a = (init_empty_map (Some metacow_space) [])\<lparr>root := Node Leaf (new_range a 1 None) Leaf, msize := 1\<rparr>"

text \<open>A task that reads the byte at \<open>r\<close> and stores its successor at \<open>w\<close>.\<close>

definition example_ppr :: "memory \<Rightarrow> addr_t \<Rightarrow> addr_t \<Rightarrow> ppr_task" where
  "example_ppr m0 r w = \<lparr>body = (\<lambda>m. m(w := m r + 1)),
     proc = (program_start (m0(w := m0 r + 1)))\<lparr>task_status := SPEC, ppr_pos := PPR,
       read_map := one_byte r, write_map := one_byte w\<rparr>\<rparr>"

lemma one_byte_bytes:
  assumes "a < a + 1"
  shows "map_bytes (one_byte a) = {a}" and "map_ok (one_byte a)"
proof -
  have "x = a" if "a \<le> x" "x < a + 1" for x
    using that by (meson inc_le le_less_trans less_le not_le)
  then show "map_bytes (one_byte a) = {a}" using assms by (auto simp: one_byte_def range_bytes_def)
  show "map_ok (one_byte a)" using assms by (simp add: one_byte_def map_ok_def sep_simps valid_def)
qed

lemma example_ppr_ok:
  assumes "r < r + 1" and "w < w + 1" and "w \<noteq> 0"
  shows "reads (example_ppr m0 r w) = {r}" and "writes (example_ppr m0 r w) = {w}"
    and "ran_from m0 (example_ppr m0 r w)" and "behaves (example_ppr m0 r w)"
proof -
  show rw: "reads (example_ppr m0 r w) = {r}" "writes (example_ppr m0 r w) = {w}"
    using one_byte_bytes assms by (simp_all add: reads_def writes_def example_ppr_def)
  show "behaves (example_ppr m0 r w)" by (simp add: behaves_def rw) (simp add: example_ppr_def)
  show "ran_from m0 (example_ppr m0 r w)"
    using one_byte_bytes [OF assms(1)] one_byte_bytes [OF assms(2)] assms(3) rw(2)
    by (simp add: ran_from_def) (simp add: example_ppr_def speculative_def program_start_def no_map_def
        init_empty_map_def one_byte_def)
qed

text \<open>
  C1: speculation is sequential execution.  Take a group of tasks that ran from the same memory, whose
  code behaves as recorded, and no two of which wrote the same byte.  Committing the group succeeds
  exactly when no task read a byte that an earlier one wrote, and then the memory the program goes
  on with is the memory of running the tasks one after the other.
\<close>

theorem group_commit_is_sequential:
  assumes "ts \<noteq> []" and "\<forall>t \<in> set ts. ran_from m0 t \<and> behaves t" and "writes_apart {} ts"
    and "length ts \<le> n"
  shows "commit_group 0 ts fresh_union (replicate n no_map) =
    (if conflict_free {} ts then Some (sequential ts m0) else None)"
proof -
  have e: "all_writes [] = {}" by (simp add: all_writes_def)
  have "patches_of m0 [] (replicate n no_map)" by (simp add: patches_of_def no_map_def init_empty_map_def)
  moreover have "tmap_ok fresh_union" "map_bytes fresh_union = {}"
    by (simp_all add: fresh_union_def new_range_set_def map_ok_tmap) (simp add: init_empty_map_def)
  ultimately show ?thesis
    using commit_group_spec [OF assms(1,2), of "[]" "replicate n no_map" fresh_union] assms(3,4)
      sequential_overlay [of ts "{}" m0 m0] assms(2) by (simp add: e)
qed

theorem group_commit_is_sequential_witness:
  "commit_group 0 [example_ppr (\<lambda>a. ucast a) 300 64, example_ppr (\<lambda>a. ucast a) 400 80] fresh_union
      (replicate 2 no_map) =
    Some (sequential [example_ppr (\<lambda>a. ucast a) 300 64, example_ppr (\<lambda>a. ucast a) 400 80] (\<lambda>a. ucast a))"
proof -
  let ?ts = "[example_ppr (\<lambda>a. ucast a) 300 64, example_ppr (\<lambda>a. ucast a) 400 80]"
  have "commit_group 0 ?ts fresh_union (replicate 2 no_map) =
      (if conflict_free {} ?ts then Some (sequential ?ts (\<lambda>a. ucast a)) else None)"
    by (rule group_commit_is_sequential) (simp_all add: example_ppr_ok)
  moreover have "conflict_free {} ?ts" by (simp add: example_ppr_ok)
  ultimately show ?thesis by (simp only: if_True)
qed


end
