(* ===== verification/Postwait.thy ===== *)
theory Postwait
  imports Merge
begin

text \<open>
  \<^verbatim>\<open>postwait.c\<close>: channels through which a task passes written data on to a later task before either of
  them commits, the chaining of channels, and the check for data modified after it was posted.

  The switch board is the list of channels, its size the length of the list; a channel is a position
  in it.  The pointers of a chain are positions too.  A walk along a chain takes as fuel the number of
  channels: a walk that visits more channels than there are goes round for ever.  Waiting for a post
  that has not come is a blocked outcome.
\<close>

section \<open>Channels\<close>

definition pw_space :: mspace where "pw_space = 3"

definition zero_channel :: channel_t where
  "zero_channel = \<lparr>ch_id = 0, ch_data = no_map, ch_sender = 0, is_posted = False,
     cc_first = None, cc_next = None\<rparr>"

definition set_sb_lock :: "bool \<Rightarrow> bop_state \<Rightarrow> bop_state" where
  "set_sb_lock v s = s\<lparr>sb_lock := v\<rparr>"

definition channel_local_reset :: "unit bop" where
  "channel_local_reset s = Returned () (s\<lparr>local_ch_id := 0, local_ch_data := map_clear (local_ch_data s)\<rparr>)"

definition pw_ppr_reset :: "unit bop" where
  "pw_ppr_reset =
     seq channel_local_reset (\<lambda>_ s.
       Returned () (s\<lparr>received := map_clear (received s),
                      received_n_used := map_clear (received_n_used s)\<rparr>))"

definition clear_channel_shm_data :: "channel_t list \<Rightarrow> channel_t list" where
  "clear_channel_shm_data chs =
     map (\<lambda>ch. if ch_id ch \<noteq> 0 then ch\<lparr>ch_data := clear_patch (ch_data ch)\<rparr> else ch) chs"

text \<open>The \<^verbatim>\<open>memset\<close> at the end clears every channel, whatever the reallocation left in them.\<close>

definition postwait_init :: "(nat \<Rightarrow> channel_t) \<Rightarrow> unit bop" where
  "postwait_init junk s =
     (let newsize = unat (of_int (10 * BOP_get_group_size s) :: uint);
          zeroed = (\<lambda>chs. map (\<lambda>_. zero_channel) chs)
      in if \<not> pw_ready s then
           (if \<not> merge_ready s then Aborted AssertFailed
            else Returned () (s\<lparr>pw_ready := True, channels := replicate newsize zero_channel,
              local_ch_data := init_empty_map (Some metacow_space) ''local_ch_data'',
              received := init_empty_map (Some metacow_space) ''received'',
              received_n_used := init_empty_map (Some metacow_space) ''received_n_used'',
              sb_lock := False\<rparr>))
         else
           let chs = clear_channel_shm_data (channels s);
               chs = (if length chs < newsize then realloc_list junk chs newsize else chs)
           in Returned () (s\<lparr>channels := zeroed chs, sb_lock := False\<rparr>))"

section \<open>Filling and posting\<close>

definition not_posting :: "bop_state \<Rightarrow> bool" where
  "not_posting s \<longleftrightarrow> task_status s = SEQ \<or> task_status s = UNDY"

definition has_local_channel :: "addr_t \<Rightarrow> bool bop" where
  "has_local_channel i s =
     (if \<not> i > 0 then Aborted AssertFailed
      else if local_ch_id s \<noteq> 0 \<and> local_ch_id s \<noteq> i then Returned False s
      else Returned True s)"

definition channel_fill :: "addr_t \<Rightarrow> addr_t \<Rightarrow> uint \<Rightarrow> unit bop" where
  "channel_fill i b sz s =
     (if not_posting s then Returned () s
      else seq (has_local_channel i) (\<lambda>ok s.
        if \<not> ok then Returned () s
        else
          let s1 = (if local_ch_id s = 0 then s\<lparr>local_ch_id := i\<rparr> else s) in
          case map_add_range (local_ch_data s1) b (ucast sz) None of
            Inl e \<Rightarrow> Aborted e
          | Inr (m, _) \<Rightarrow> Returned () (s1\<lparr>local_ch_data := m\<rparr>)) s)"

text \<open>The position of a channel; the remainder of a division by an empty board is an error.\<close>

definition channel_index :: "addr_t \<Rightarrow> nat bop" where
  "channel_index i s =
     (if channels s = [] then Aborted BadAccess
      else Returned (unat (i mod of_nat (length (channels s)))) s)"

fun walk :: "nat \<Rightarrow> channel_t list \<Rightarrow> nat \<Rightarrow> nat list res" where
  "walk 0 chs i = Inl Diverges"
| "walk (Suc fuel) chs i =
     (if length chs \<le> i then Inl BadAccess
      else case cc_next (chs ! i) of
        None \<Rightarrow> Inr [i]
      | Some j \<Rightarrow> res_bind (walk fuel chs j) (\<lambda>is. Inr (i # is)))"

definition chain_from :: "channel_t list \<Rightarrow> nat \<Rightarrow> nat list res" where
  "chain_from chs i = walk (length chs) chs i"

definition update_at :: "(channel_t \<Rightarrow> channel_t) \<Rightarrow> nat list \<Rightarrow> channel_t list \<Rightarrow> channel_t list" where
  "update_at f is chs = foldl (\<lambda>cs i. cs[i := f (cs ! i)]) chs is"

definition post_chain :: "nat \<Rightarrow> channel_t list \<Rightarrow> channel_t list res" where
  "post_chain k chs =
     (case cc_first (chs ! k) of
        None \<Rightarrow> Inr (chs[k := (chs ! k)\<lparr>is_posted := True\<rparr>])
      | Some h \<Rightarrow>
        res_bind (chain_from chs h) (\<lambda>is. Inr (update_at (\<lambda>ch. ch\<lparr>is_posted := True\<rparr>) is chs)))"

text \<open>The part of \<^verbatim>\<open>channel_post\<close> that holds the lock: whether the data was posted.\<close>

definition post_locked :: "addr_t \<Rightarrow> nat \<Rightarrow> bool bop" where
  "post_locked i k s =
     (let ch = channels s ! k in
      if ch_id ch \<noteq> 0 \<and> ch_id ch \<noteq> i then Returned False s
      else
        let ch1 = ch\<lparr>ch_id := i\<rparr> in
        if is_posted ch1 then Returned False (s\<lparr>channels := (channels s)[k := ch1]\<rparr>)
        else
          case create_patch (local_ch_data s) pw_space (mem s) of
            Inl e \<Rightarrow> Aborted e
          | Inr (patch, copied) \<Rightarrow>
            let ch2 = ch1\<lparr>ch_sender := of_int (BOP_ppr_index s), ch_data := patch\<rparr> in
            case post_chain k ((channels s)[k := ch2]) of
              Inl e \<Rightarrow> Aborted e
            | Inr chs \<Rightarrow> Returned True (add_copied copied (s\<lparr>channels := chs\<rparr>)))"

definition channel_post :: "addr_t \<Rightarrow> unit bop" where
  "channel_post i s =
     (if not_posting s then Returned () s
      else seq (has_local_channel i) (\<lambda>ok.
        if \<not> ok then ret ()
        else
          seq (update_res (\<lambda>s. res_bind (map_intersect (local_ch_data s) (write_map s))
                 (\<lambda>m. Inr (s\<lparr>local_ch_data := m\<rparr>)))) (\<lambda>_.
          seq (channel_index i) (\<lambda>k.
          seq (bop_lock_acquire sb_lock set_sb_lock) (\<lambda>_.
          seq (post_locked i k) (\<lambda>posted.
          seq (bop_lock_release set_sb_lock) (\<lambda>_.
            if \<not> posted then ret ()
            else
              seq (update_res (\<lambda>s. res_bind (map_subtract (write_map s) (local_ch_data s))
                     (\<lambda>m. Inr (s\<lparr>write_map := m\<rparr>)))) (\<lambda>_.
              channel_local_reset))))))) s)"

section \<open>Chaining\<close>

definition get_channel :: "addr_t \<Rightarrow> nat option bop" where
  "get_channel i =
     seq (channel_index i) (\<lambda>k s.
       let ch = channels s ! k in
       if ch_id ch \<noteq> 0 \<and> ch_id ch \<noteq> i then Returned None s
       else if ch_id ch = 0 then
         Returned (Some k) (s\<lparr>channels := (channels s)
           [k := ch\<lparr>ch_id := i, ch_data := init_empty_map (Some pw_space) ''channel data''\<rparr>]\<rparr>)
       else Returned (Some k) s)"

definition set_chain :: "channel_t \<Rightarrow> nat option \<Rightarrow> nat option \<Rightarrow> bool \<Rightarrow> channel_t" where
  "set_chain ch fst' nxt posted = ch\<lparr>cc_first := fst', cc_next := nxt, is_posted := posted\<rparr>"

definition connect_chain :: "nat \<Rightarrow> nat \<Rightarrow> bool \<Rightarrow> channel_t list \<Rightarrow> channel_t list res" where
  "connect_chain head new_ch posted chs =
     (let n = (case cc_first (chs ! new_ch) of Some f \<Rightarrow> f | None \<Rightarrow> new_ch) in
      res_bind (chain_from chs head) (\<lambda>is.
        let p = last is;
            chs1 = chs[p := set_chain (chs ! p) (Some head) (Some n) posted]
        in res_bind (chain_from chs1 n) (\<lambda>js.
             Inr (update_at (\<lambda>ch. set_chain ch (Some head) (cc_next ch) posted) js chs1))))"

definition chain_locked :: "nat \<Rightarrow> nat \<Rightarrow> channel_t list \<Rightarrow> channel_t list res" where
  "chain_locked k1 k2 chs =
     (let posted = (is_posted (chs ! k1) \<or> is_posted (chs ! k2)) in
      if cc_first (chs ! k1) = None \<and> cc_first (chs ! k2) = None then
        let chs1 = chs[k1 := set_chain (chs ! k1) (Some k1) (Some k2) posted]
        in Inr (chs1[k2 := set_chain (chs1 ! k2) (Some k1) None posted])
      else
        case cc_first (chs ! k1) of
          Some h \<Rightarrow> connect_chain h k2 posted chs
        | None \<Rightarrow>
          (case cc_first (chs ! k2) of
             Some h \<Rightarrow> connect_chain h k1 posted chs
           | None \<Rightarrow> Inr chs))"

definition channel_chain :: "addr_t \<Rightarrow> addr_t \<Rightarrow> unit bop" where
  "channel_chain id1 id2 s =
     (if not_posting s then Returned () s
      else
        seq (bop_lock_acquire sb_lock set_sb_lock) (\<lambda>_.
        seq (get_channel id1) (\<lambda>c1.
        seq (get_channel id2) (\<lambda>c2.
        seq (case (c1, c2) of
               (Some k1, Some k2) \<Rightarrow>
                 update_res (\<lambda>s. res_bind (chain_locked k1 k2 (channels s)) (\<lambda>chs. Inr (s\<lparr>channels := chs\<rparr>)))
             | _ \<Rightarrow> ret ()) (\<lambda>_.
        bop_lock_release set_sb_lock)))) s)"

section \<open>Waiting\<close>

definition assert_no_overlap :: "map_t \<Rightarrow> map_t \<Rightarrow> bool res" where
  "assert_no_overlap ma mb =
     res_bind (map_clone ma (Some metacow_space)) (\<lambda>copy.
     res_bind (map_intersect copy mb) (\<lambda>copy'. Inr (\<not> msize copy' \<noteq> 0)))"

definition receive_range :: "uint \<Rightarrow> mem_range_t \<Rightarrow> unit bop" where
  "receive_range sender rg =
     seq (from_task_call received set_received (base rg) (rsize rg) (rec rg) sender) (\<lambda>approved s.
       case approved of
         None \<Rightarrow> Aborted BadAccess
       | Some a \<Rightarrow>
         (case memcpy_in (base a) (rec a) (rsize a) (mem s) of
            Inl e \<Rightarrow> Aborted e
          | Inr m \<Rightarrow> Returned () (s\<lparr>mem := m\<rparr>)))"

text \<open>The first channel along the chain whose post is not empty, or the last one.\<close>

fun find_post :: "nat \<Rightarrow> channel_t list \<Rightarrow> nat \<Rightarrow> nat res" where
  "find_post 0 chs i = Inl Diverges"
| "find_post (Suc fuel) chs i =
     (if length chs \<le> i then Inl BadAccess
      else if msize (ch_data (chs ! i)) \<noteq> 0 then Inr i
      else case cc_next (chs ! i) of None \<Rightarrow> Inr i | Some j \<Rightarrow> find_post fuel chs j)"

definition posted_channel :: "nat \<Rightarrow> nat bop" where
  "posted_channel k s =
     (case cc_first (channels s ! k) of
        None \<Rightarrow> Returned k s
      | Some h \<Rightarrow>
        (case find_post (length (channels s)) (channels s) h of
           Inl e \<Rightarrow> Aborted e
         | Inr j \<Rightarrow>
           if msize (ch_data (channels s ! j)) \<noteq> 0 then Returned j s else Aborted AssertFailed))"

definition channel_wait :: "addr_t \<Rightarrow> unit bop" where
  "channel_wait i s =
     (if not_posting s \<or> task_status s = MAIN then Returned () s
      else
        seq (channel_index i) (\<lambda>k.
        seq (\<lambda>s. if is_posted (channels s ! k) then Returned () s else Blocked s) (\<lambda>_.
        seq (\<lambda>s. if ch_id (channels s ! k) \<noteq> i then BOP_abort_spec s else Returned () s) (\<lambda>_.
        seq (posted_channel k) (\<lambda>j s.
          let ch = channels s ! j in
          case assert_no_overlap (ch_data ch) (read_map s) of
            Inl e \<Rightarrow> Aborted e
          | Inr ok1 \<Rightarrow>
            (case (if ok1 then assert_no_overlap (ch_data ch) (write_map s) else Inr False) of
               Inl e \<Rightarrow> Aborted e
             | Inr ok \<Rightarrow>
               if \<not> ok then Returned () s
               else foreach_prog (ch_data ch) (receive_range (ch_sender ch)) s))))) s)"

definition channel_is_posted :: "addr_t \<Rightarrow> bool bop" where
  "channel_is_posted i =
     seq (channel_index i) (\<lambda>k s.
       Returned (ch_id (channels s ! k) = i \<and> is_posted (channels s ! k)) s)"

section \<open>Data modified after it was posted\<close>

definition mdfy_aftr_pst_chk :: "mem_range_t \<Rightarrow> unit bop" where
  "mdfy_aftr_pst_chk rg s =
     (let sender = unat (of_int (spec_order s) - (of_int (BOP_ppr_index s) - task rg) :: uint) in
      if length (patches s) \<le> sender then Aborted BadAccess
      else case map_contains (patches s ! sender) (base rg) of
        Inl e \<Rightarrow> Aborted e
      | Inr (_, None) \<Rightarrow> Aborted AssertFailed
      | Inr (patch, Some m) \<Rightarrow>
        (case (rec m, rec rg) of
           (Some comm, Some recd) \<Rightarrow>
             let off = unat (base rg - base m); n = unat (rsize rg);
                 s1 = s\<lparr>patches := (patches s)[sender := patch]\<rparr>
             in if length comm < off + n \<or> length recd < n then Aborted BadAccess
                else if take n (drop off comm) \<noteq> take n recd then BOP_abort_spec s1
                else Returned () s1
         | _ \<Rightarrow> Aborted BadAccess))"

definition pw_ppr_commit :: "unit bop" where
  "pw_ppr_commit s =
     (if msize (received_n_used s) = 0 then Returned () s
      else foreach_prog (received_n_used s) mdfy_aftr_pst_chk s)"

definition postwait_port :: "(nat \<Rightarrow> channel_t) \<Rightarrow> bop_state bop_port_t" where
  "postwait_port junk = \<lparr>p_ppr_group_init = Some (postwait_init junk),
     p_ppr_task_init = Some pw_ppr_reset,
     p_ppr_check_correctness = None, p_report_conflict = None,
     p_data_commit = Some pw_ppr_commit, p_task_group_commit = None,
     p_task_group_succ_fini = None, p_undy_init = None, p_undy_succ_fini = None,
     p_on_enter_ordered = None, p_on_exit_ordered = None, p_on_main_complete = None\<rparr>"

section \<open>Range maps as finite sets of bytes\<close>

text \<open>
  What posting and waiting rely on in a range map: it can be cloned, intersected and subtracted from,
  and an empty one is recognised.  The two lemmas are all that is needed of it below.
\<close>

locale byte_sets =
  fixes inv :: "'m \<Rightarrow> bool" and bs :: "'m \<Rightarrow> 'a set"
    and clone :: "'m \<Rightarrow> 'm res" and inter :: "'m \<Rightarrow> 'm \<Rightarrow> 'm res" and sub :: "'m \<Rightarrow> 'm \<Rightarrow> 'm res"
    and is_empty :: "'m \<Rightarrow> bool"
  assumes clone: "inv m \<Longrightarrow> \<exists>m'. clone m = Inr m' \<and> inv m' \<and> bs m' = bs m"
    and inter: "inv m \<Longrightarrow> inv r \<Longrightarrow> \<exists>m'. inter m r = Inr m' \<and> inv m' \<and> bs m' = bs m \<inter> bs r"
    and sub: "inv m \<Longrightarrow> inv r \<Longrightarrow> \<exists>m'. sub m r = Inr m' \<and> inv m' \<and> bs m' = bs m - bs r"
    and empty: "inv m \<Longrightarrow> is_empty m \<longleftrightarrow> bs m = {}"
begin

lemma disjoint_test:
  assumes "inv a" and "inv b"
  shows "res_bind (clone a) (\<lambda>c. res_bind (inter c b) (\<lambda>c'. Inr (is_empty c'))) =
    Inr (bs a \<inter> bs b = {})"
proof -
  obtain c where c: "clone a = Inr c" "inv c" "bs c = bs a" using clone [OF assms(1)] by blast
  obtain d where "inter c b = Inr d" "inv d" "bs d = bs a \<inter> bs b" using inter [OF c(2) assms(2)] c(3) by auto
  with c(1) empty show ?thesis by simp
qed

lemma move_out:
  assumes "inv a" and "inv w"
  obtains l w' where "inter a w = Inr l" and "sub w l = Inr w'" and "inv l" and "inv w'"
    and "bs l = bs a \<inter> bs w" and "bs w' = bs w - bs a"
proof -
  obtain l where l: "inter a w = Inr l" "inv l" "bs l = bs a \<inter> bs w" using inter [OF assms] by blast
  obtain w' where "sub w l = Inr w'" "inv w'" "bs w' = bs w - bs l" using sub [OF assms(2) l(2)] by blast
  with l show ?thesis by (intro that [of l w']) auto
qed

end

lemma ordered_card:
  assumes "ordered rs"
  shows "length rs \<le> card (bytes rs)"
  using assms
proof (induction rs)
  case Nil
  then show ?case by simp
next
  case (Cons r rs)
  have "base r \<in> range_bytes r" using Cons.prems by (simp add: sep_simps valid_def)
  then have "1 \<le> card (range_bytes r)" by (metis card_0_eq empty_iff finite finite_code less_one not_le)
  moreover have "range_bytes r \<inter> bytes rs = {}"
    using Cons.prems by (fastforce simp: sep_simps bytes_def)
  ultimately show ?case
    using Cons by (simp add: sep_simps card_Un_disjoint)
qed

definition small_map :: "map_t \<Rightarrow> bool" where
  "small_map m \<longleftrightarrow> map_ok m \<and> card (map_bytes m) < 2 ^ 32"

lemma small_map_length: "small_map m \<Longrightarrow> length (ranges m) < 2 ^ 32"
proof -
  assume m: "small_map m"
  then have "length (ranges m) \<le> card (map_bytes m)"
    by (intro ordered_card) (simp add: small_map_def map_ok_def apart_imp_ordered)
  also have "\<dots> < 2 ^ 32" using m by (simp add: small_map_def)
  finally show ?thesis .
qed

lemma small_map_ordered: "small_map m \<Longrightarrow> ordered (ranges m)"
  by (simp add: small_map_def map_ok_def apart_imp_ordered)

lemma small_map_subset: "small_map m \<Longrightarrow> map_ok m' \<Longrightarrow> map_bytes m' \<subseteq> map_bytes m \<Longrightarrow> small_map m'"
  using card_mono [of "map_bytes m" "map_bytes m'"] by (auto simp: small_map_def)

interpretation byte_maps: byte_sets small_map map_bytes "\<lambda>m. map_clone m (Some metacow_space)"
    map_intersect map_subtract "\<lambda>m. msize m = 0"
proof
  fix m r :: map_t
  assume m: "small_map m"
  then have ok: "map_ok m" "length (ranges m) < 2 ^ 32"
    using small_map_length by (auto simp: small_map_def simp del: length_inorder)
  show "\<exists>m'. map_clone m (Some metacow_space) = Inr m' \<and> small_map m' \<and> map_bytes m' = map_bytes m"
    by (rule map_clone_spec [OF ok, of "Some metacow_space"]) (use m in \<open>auto simp: small_map_def\<close>)
  show "(msize m = 0) = (map_bytes m = {})"
  proof -
    have "map_bytes m = {} \<longleftrightarrow> ranges m = []"
      using ordered_card [OF small_map_ordered [OF m]] by auto
    then show ?thesis using tmap_msize_0 [OF map_ok_tmap [OF ok(1)]] by simp
  qed
  assume r: "small_map r"
  show "\<exists>m'. map_intersect m r = Inr m' \<and> small_map m' \<and> map_bytes m' = map_bytes m \<inter> map_bytes r"
    by (rule map_intersect_spec [OF ok small_map_ordered [OF r]])
      (use small_map_subset [OF m] in blast)
  show "\<exists>m'. map_subtract m r = Inr m' \<and> small_map m' \<and> map_bytes m' = map_bytes m - map_bytes r"
    by (rule map_subtract_spec [OF ok small_map_ordered [OF r]])
      (use small_map_subset [OF m] in blast)
qed

lemma assert_no_overlap_spec:
  "small_map ma \<Longrightarrow> small_map mb \<Longrightarrow>
   assert_no_overlap ma mb = Inr (map_bytes ma \<inter> map_bytes mb = {})"
  using byte_maps.disjoint_test [of ma mb] by (simp add: assert_no_overlap_def)

section \<open>Posting\<close>

definition slot_of :: "addr_t \<Rightarrow> bop_state \<Rightarrow> nat" where
  "slot_of i s = unat (i mod of_nat (length (channels s)))"

lemma slot_of_less:
  assumes "channels s \<noteq> []" and "length (channels s) < 2 ^ 32"
  shows "slot_of i s < length (channels s)"
proof -
  have n: "unat (of_nat (length (channels s)) :: addr_t) = length (channels s)"
    using assms(2) by (simp add: unat_of_nat take_bit_eq_mod)
  then have "unat (i mod of_nat (length (channels s))) = unat i mod length (channels s)"
    by (simp add: unat_mod_distrib)
  then show ?thesis using assms(1) by (simp add: slot_of_def)
qed

text \<open>The board is usable: it exists, its size fits an \<^verbatim>\<open>unsigned\<close>, and nobody holds its lock.\<close>

definition board_free :: "bop_state \<Rightarrow> bool" where
  "board_free s \<longleftrightarrow> channels s \<noteq> [] \<and> length (channels s) < 2 ^ 32 \<and> \<not> sb_lock s"

text \<open>The channel is free for a post of \<open>i\<close>.\<close>

definition can_post :: "addr_t \<Rightarrow> channel_t \<Rightarrow> bool" where
  "can_post i ch \<longleftrightarrow> (ch_id ch = 0 \<or> ch_id ch = i) \<and> \<not> is_posted ch \<and> cc_first ch = None"

lemma channel_post_spec:
  assumes "speculative s" and "i > 0" and "local_ch_id s = 0 \<or> local_ch_id s = i"
    and "small_map (local_ch_data s)" and "small_map (write_map s)"
    and "board_free s" and "can_post i (channels s ! slot_of i s)"
  obtains s' ch l where "channel_post i s = Returned () s'" and "channels s' = (channels s)[slot_of i s := ch]"
    and "ch_id ch = i" and "is_posted ch" and "cc_first ch = None"
    and "ch_sender ch = of_int (BOP_ppr_index s)"
    and "ranges (ch_data ch) = map (with_data (mem s)) (ranges l)" and "small_map l" and "small_map (ch_data ch)"
    and "map_bytes l = map_bytes (local_ch_data s) \<inter> map_bytes (write_map s)"
    and "map_bytes (write_map s') = map_bytes (write_map s) - map_bytes (local_ch_data s)"
    and "small_map (write_map s')" and "\<not> sb_lock s'" and "mem s' = mem s" and "local_ch_id s' = 0"
proof -
  obtain l w where l: "map_intersect (local_ch_data s) (write_map s) = Inr l" "map_subtract (write_map s) l = Inr w"
    "small_map l" "small_map w" "map_bytes l = map_bytes (local_ch_data s) \<inter> map_bytes (write_map s)"
    "map_bytes w = map_bytes (write_map s) - map_bytes (local_ch_data s)"
    by (rule byte_maps.move_out [OF assms(4,5)])
  have "map_ok l" using l(3) by (simp add: small_map_def)
  then obtain patch c where p: "create_patch l pw_space (mem s) = Inr (patch, c)" "map_ok patch"
    "ranges patch = map (with_data (mem s)) (ranges l)" by (rule create_patch_spec)
  have ps: "small_map patch" using p(2,3) l(3) by (simp add: small_map_def)
  define k where "k = slot_of i s"
  have k: "k < length (channels s)" using assms(6) slot_of_less by (simp add: k_def board_free_def)
  define ch where "ch = (channels s ! k)\<lparr>ch_id := i, ch_sender := of_int (BOP_ppr_index s),
    ch_data := patch, is_posted := True\<rparr>"
  have st: "\<not> not_posting s" using assms(1) by (auto simp: speculative_def not_posting_def)
  have ne: "channels s \<noteq> []" "\<not> sb_lock s" using assms(6) by (simp_all add: board_free_def)
  define s1 where "s1 = s\<lparr>local_ch_data := l, sb_lock := True\<rparr>"
  define s2 where "s2 = add_copied c (s1\<lparr>channels := (channels s)[k := ch]\<rparr>)"
  have idx: "BOP_ppr_index s1 = BOP_ppr_index s" by (simp add: s1_def BOP_ppr_index_def)
  have "post_locked i k s1 = Returned True s2"
    using assms(7) p(1) k idx
    by (simp add: post_locked_def s1_def s2_def Let_def can_post_def k_def [symmetric] post_chain_def ch_def)
  moreover have "has_local_channel i s = Returned True s"
    using assms(2,3) by (auto simp: has_local_channel_def)
  moreover have "channel_index i (s\<lparr>local_ch_data := l\<rparr>) = Returned k (s\<lparr>local_ch_data := l\<rparr>)"
    using ne(1) by (simp add: channel_index_def k_def slot_of_def)
  moreover have "bop_lock_acquire sb_lock set_sb_lock (s\<lparr>local_ch_data := l\<rparr>) = Returned () s1"
    using ne(2) by (simp add: bop_lock_acquire_def set_sb_lock_def s1_def)
  moreover have "write_map s2 = write_map s" "local_ch_data s2 = l"
    by (simp_all add: s2_def s1_def add_copied_def)
  ultimately have "channel_post i s = Returned ()
      (s2\<lparr>sb_lock := False, write_map := w, local_ch_id := 0, local_ch_data := map_clear l\<rparr>)"
    using st l(1,2)
    by (simp add: channel_post_def update_res_def bop_lock_release_def set_sb_lock_def
        channel_local_reset_def)
  then show ?thesis
    using p(3) ps l assms(7) that [of _ ch l]
    by (simp add: s2_def s1_def add_copied_def ch_def k_def can_post_def)
qed

section \<open>Receiving\<close>

lemma receive_range_spec:
  assumes "tmap_ok (received s)" and "valid r" and "range_bytes r \<inter> map_bytes (received s) = {}"
  obtains u where "receive_range t (with_data m1 r) s =
      Returned () (s\<lparr>received := u, mem := overlay (range_bytes r) m1 (mem s)\<rparr>)"
    and "tmap_ok u" and "map_bytes u = map_bytes (received s) \<union> range_bytes r"
proof -
  have b: "base r < base r + rsize r" using assms(2) by (simp add: valid_def rend_def)
  define blk where "blk = read_mem m1 (base r) (unat (rsize r))"
  have cl: "clone_opt (Some blk) (rsize r) = Inr (Some blk)"
    by (simp add: clone_opt_def data_clone_def blk_def)
  have "clear_of (base r) (base r + rsize r) x" if "x \<in> set (ranges (received s))" for x
  proof -
    have "valid x" using that assms(1) by (simp add: tmap_ok_def ordered_def)
    moreover have "{base r ..< base r + rsize r} \<inter> range_bytes x = {}"
      using that assms(3) by (auto simp: bytes_def rend_def)
    ultimately show ?thesis using clear_of_bytes [OF b] by blast
  qed
  then have clear: "\<forall>x \<in> set (ranges (received s)). clear_of (base r) (base r + rsize r) x" by blast
  obtain u pre post where u: "map_add_range_from_task (received s) (base r) (rsize r) (Some blk) t =
      Inr (u, Some (fresh_range (base r) (rsize r) (Some blk) t))" "tmap_ok u" "same_map (received s) u"
    "ranges (received s) = pre @ post" "ranges u = pre @ fresh_range (base r) (rsize r) (Some blk) t # post"
    by (rule add_from_task_clear [OF assms(1) b cl clear])
  have "memcpy_in (base r) (Some blk) (rsize r) (mem s) = Inr (overlay (range_bytes r) m1 (mem s))"
    using write_read_mem [OF assms(2), of "mem s" m1] by (simp add: memcpy_in_def blk_def overlay_def)
  then have "receive_range t (with_data m1 r) s =
      Returned () (s\<lparr>received := u, mem := overlay (range_bytes r) m1 (mem s)\<rparr>)"
    using u(1) by (simp add: receive_range_def from_task_call_def set_received_def blk_def)
  moreover have "map_bytes u = map_bytes (received s) \<union> range_bytes r"
    unfolding u(4,5) by (auto simp: range_bytes_def rend_def)
  ultimately show ?thesis using u(2) by (intro that)
qed

lemma receive_ranges:
  assumes "tmap_ok (received s)" and "ordered rs" and "bytes rs \<inter> map_bytes (received s) = {}"
  shows "\<exists>u. seq_all (map (receive_range t) (map (with_data m1) rs)) s =
      Returned () (s\<lparr>received := u, mem := overlay (bytes rs) m1 (mem s)\<rparr>) \<and> tmap_ok u \<and>
    map_bytes u = map_bytes (received s) \<union> bytes rs"
  using assms
proof (induction rs arbitrary: s)
  case Nil
  show ?case by (intro exI [of _ "received s"]) (use Nil in simp)
next
  case (Cons r rs)
  have "range_bytes r \<inter> map_bytes (received s) = {}" "valid r"
    using Cons.prems by (auto simp: sep_simps)
  then obtain u where u: "receive_range t (with_data m1 r) s =
      Returned () (s\<lparr>received := u, mem := overlay (range_bytes r) m1 (mem s)\<rparr>)" "tmap_ok u"
    "map_bytes u = map_bytes (received s) \<union> range_bytes r"
    using receive_range_spec [OF Cons.prems(1)] by metis
  let ?s1 = "s\<lparr>received := u, mem := overlay (range_bytes r) m1 (mem s)\<rparr>"
  have "bytes rs \<inter> range_bytes r = {}" using Cons.prems(2) by (fastforce simp: sep_simps bytes_def)
  then have "bytes rs \<inter> map_bytes (received ?s1) = {}" using Cons.prems(3) u(3) by auto
  with Cons.IH [of ?s1] u Cons.prems(2) obtain v where
    "seq_all (map (receive_range t) (map (with_data m1) rs)) ?s1 =
      Returned () (?s1\<lparr>received := v, mem := overlay (bytes rs) m1 (mem ?s1)\<rparr>)" "tmap_ok v"
    "map_bytes v = map_bytes u \<union> bytes rs" by (auto simp: sep_simps)
  with u show ?case by (intro exI [of _ v]) (auto simp: Un_commute)
qed

lemma channel_wait_spec:
  assumes "task_status s = SPEC" and "channels s \<noteq> []"
    and "channels s ! slot_of i s = ch" and "is_posted ch" and "ch_id ch = i" and "cc_first ch = None"
    and "ranges (ch_data ch) = map (with_data m1) (ranges l)" and "small_map l" and "small_map (ch_data ch)"
    and "small_map (read_map s)" and "small_map (write_map s)" and "tmap_ok (received s)"
    and "map_bytes l \<inter> map_bytes (read_map s) = {}" and "map_bytes l \<inter> map_bytes (write_map s) = {}"
    and "map_bytes l \<inter> map_bytes (received s) = {}"
  shows "\<exists>u. channel_wait i s = Returned () (s\<lparr>received := u, mem := overlay (map_bytes l) m1 (mem s)\<rparr>) \<and>
    tmap_ok u \<and> map_bytes u = map_bytes (received s) \<union> map_bytes l"
proof -
  have b: "map_bytes (ch_data ch) = map_bytes l" using assms(7) by simp
  have ok: "assert_no_overlap (ch_data ch) (read_map s) = Inr True"
    "assert_no_overlap (ch_data ch) (write_map s) = Inr True"
    using assert_no_overlap_spec assms(9-11,13,14) by (simp_all add: b)
  have o: "ordered (ranges l)" using small_map_ordered [OF assms(8)] .
  have "channel_wait i s = seq_all (map (receive_range (ch_sender ch)) (map (with_data m1) (ranges l))) s"
    using assms(1-6) ok
    by (simp add: channel_wait_def not_posting_def channel_index_def slot_of_def [symmetric]
        posted_channel_def foreach_prog_eq assms(7))
  with receive_ranges [OF assms(12) o assms(15), of "ch_sender ch" m1] show ?thesis by simp
qed

section \<open>Modified after posted\<close>

lemma read_mem_slice:
  assumes "valid r" and "valid rg" and "range_bytes rg \<subseteq> range_bytes r"
  shows "take (unat (rsize rg)) (drop (unat (base rg - base r)) (read_mem m (base r) (unat (rsize r)))) =
      read_mem m (base rg) (unat (rsize rg))"
    and "unat (base rg - base r) + unat (rsize rg) \<le> unat (rsize r)"
proof -
  have b: "base r \<le> base rg" using assms(2,3) by (auto simp: valid_def)
  have e: "rend rg \<le> rend r"
  proof (rule rend_le_of_bytes)
    show "base rg < rend rg" using assms(2) by (simp add: valid_def)
    show "\<forall>a \<in> range_bytes rg. a < rend r" using assms(3) by auto
  qed
  have u: "unat (rend x) = unat (base x) + unat (rsize x)" if "valid x" for x
    using that unat_plus_simple [of "base x" "rsize x"] less_imp_le [of "base x" "rend x"]
    unfolding valid_def rend_def by blast
  have d: "unat (base rg - base r) = unat (base rg) - unat (base r)"
    using b by (simp add: unat_sub_if' word_le_nat_alt)
  show le: "unat (base rg - base r) + unat (rsize rg) \<le> unat (rsize r)"
    using b e d u [OF assms(1)] u [OF assms(2)] by (simp add: word_le_nat_alt)
  have "base r + of_nat (unat (base rg - base r) + i) = base rg + of_nat i" for i
    by (simp add: add.assoc [symmetric])
  with le show "take (unat (rsize rg)) (drop (unat (base rg - base r)) (read_mem m (base r) (unat (rsize r)))) =
      read_mem m (base rg) (unat (rsize rg))"
    by (intro nth_equalityI) (simp_all add: read_mem_def)
qed

lemma ordered_bytes_unique:
  "ordered rs \<Longrightarrow> x \<in> set rs \<Longrightarrow> y \<in> set rs \<Longrightarrow> a \<in> range_bytes x \<Longrightarrow> a \<in> range_bytes y \<Longrightarrow> x = y"
  using ordered_cases [of rs x y] by auto

text \<open>The position of the sender in the group, computed in an \<^verbatim>\<open>unsigned\<close>.\<close>

definition sender_of :: "bop_state \<Rightarrow> mem_range_t \<Rightarrow> nat" where
  "sender_of s rg = unat (of_int (spec_order s) - (of_int (BOP_ppr_index s) - task rg) :: uint)"

lemma mdfy_spec:
  assumes "sender_of s rg < length (patches s)"
    and "ordered rs" and "ranges (patches s ! sender_of s rg) = map (with_data m) rs"
    and "r \<in> set rs" and "valid rg" and "range_bytes rg \<subseteq> range_bytes r"
    and "rec rg = Some blk" and "length blk = unat (rsize rg)"
  obtains ps where "length ps = length (patches s)" and "mdfy_aftr_pst_chk rg s =
    (if blk = read_mem m (base rg) (unat (rsize rg)) then Returned () (s\<lparr>patches := ps\<rparr>)
     else BOP_abort_spec (s\<lparr>patches := ps\<rparr>))"
proof -
  let ?p = "patches s ! sender_of s rg"
  have o: "ordered (ranges ?p)"
    using assms(2) unfolding assms(3) by (simp add: ordered_def sorted_wrt_map)
  have vr: "valid r" using assms(2,4) by (simp add: ordered_def)
  have inr: "base rg \<in> range_bytes r" using assms(5,6) by (auto simp: valid_def)
  obtain t res where t: "map_contains ?p (base rg) = Inr (?p\<lparr>root := t\<rparr>, res)"
    "\<And>x. res = Some x \<Longrightarrow> x \<in> set (ranges ?p) \<and> base rg \<in> range_bytes x"
    "res = None \<Longrightarrow> base rg \<notin> map_bytes ?p"
    by (rule map_contains_spec [OF o, of "base rg"]) blast
  have "with_data m r \<in> set (ranges ?p)" using assms(3,4) by simp
  moreover have "base rg \<in> range_bytes (with_data m r)" using inr by (simp del: mem_range_bytes)
  moreover from calculation have "base rg \<in> map_bytes ?p" unfolding bytes_def by blast
  with t(2,3) obtain x where "res = Some x" "x \<in> set (ranges ?p)" "base rg \<in> range_bytes x" by fastforce
  ultimately have res: "res = Some (with_data m r)" using ordered_bytes_unique [OF o] by blast
  have "mdfy_aftr_pst_chk rg s =
    (if blk = read_mem m (base rg) (unat (rsize rg))
     then Returned () (s\<lparr>patches := (patches s)[sender_of s rg := ?p\<lparr>root := t\<rparr>]\<rparr>)
     else BOP_abort_spec (s\<lparr>patches := (patches s)[sender_of s rg := ?p\<lparr>root := t\<rparr>]\<rparr>))"
    using assms(1,7,8) t(1) res read_mem_slice(1) [OF vr assms(5,6), of m]
      read_mem_slice(2) [OF vr assms(5,6)]
    by (auto simp: mdfy_aftr_pst_chk_def Let_def sender_of_def [symmetric])
  then show ?thesis by (intro that [of "(patches s)[sender_of s rg := ?p\<lparr>root := t\<rparr>]"]) simp_all
qed

section \<open>Chaining\<close>

lemma chain_locked_free:
  assumes "k1 \<noteq> k2" and "k1 < length chs" and "k2 < length chs"
    and "cc_first (chs ! k1) = None" and "cc_first (chs ! k2) = None"
    and "\<not> is_posted (chs ! k1)" and "\<not> is_posted (chs ! k2)"
  shows "chain_locked k1 k2 chs = Inr (chs[k1 := set_chain (chs ! k1) (Some k1) (Some k2) False,
    k2 := set_chain (chs ! k2) (Some k1) None False])"
  using assms by (simp add: chain_locked_def Let_def)

lemma walk_two:
  assumes "k1 < length chs" and "k2 < length chs" and "k1 \<noteq> k2"
    and "cc_next (chs ! k1) = Some k2" and "cc_next (chs ! k2) = None"
  shows "chain_from chs k1 = Inr [k1, k2]"
proof -
  have "2 \<le> length chs" using assms(1-3) by linarith
  then obtain n where "length chs = Suc (Suc n)" by (metis add_2_eq_Suc le_Suc_ex)
  with assms show ?thesis by (simp add: chain_from_def)
qed

lemma post_chain_marks:
  assumes "cc_first (chs ! k) = Some h" and "chain_from chs h = Inr is" and "distinct is"
    and "\<forall>j \<in> set is. j < length chs"
  shows "\<exists>chs'. post_chain k chs = Inr chs' \<and> (\<forall>j \<in> set is. is_posted (chs' ! j))"
proof -
  have "length (update_at f is chs) = length chs \<and>
      (\<forall>j < length chs. update_at f is chs ! j = (if j \<in> set is then f (chs ! j) else chs ! j))"
    if "distinct is" "\<forall>j \<in> set is. j < length chs" for f "is" and chs :: "channel_t list"
    using that unfolding update_at_def
  proof (induction "is" arbitrary: chs)
    case (Cons i js)
    from Cons.IH [of "chs[i := f (chs ! i)]"] Cons.prems show ?case by (auto simp: nth_list_update)
  qed simp
  from this [OF assms(3,4)] assms show ?thesis by (simp add: post_chain_def)
qed

section \<open>Properties\<close>

text \<open>Ten channels and a task that wrote \<open>[64, 72)\<close> and has put \<open>[60, 68)\<close> into its local channel.\<close>

definition example_poster :: bop_state where
  "example_poster = example_task\<lparr>channels := replicate 10 zero_channel, local_ch_id := 3,
     local_ch_data := (init_empty_map (Some metacow_space) [])
       \<lparr>root := Node Leaf (new_range 60 8 None) Leaf, msize := 1\<rparr>\<rparr>"

lemma card_word_interval: "a \<le> b \<Longrightarrow> card {a ..< b :: addr_t} \<le> unat (b - a)"
proof -
  assume "a \<le> b"
  have "{a ..< b} \<subseteq> (\<lambda>i. a + of_nat i) ` {..< unat (b - a)}"
  proof
    fix x assume "x \<in> {a ..< b}"
    then have "unat (x - a) < unat (b - a)" "x = a + of_nat (unat (x - a))"
      using \<open>a \<le> b\<close> by (auto simp: word_less_nat_alt word_le_nat_alt unat_sub_if')
    then show "x \<in> (\<lambda>i. a + of_nat i) ` {..< unat (b - a)}" by blast
  qed
  from surj_card_le [OF _ this] show ?thesis by simp
qed

lemma small_one_range:
  assumes "b < b + s" and "unat s < 2 ^ 32"
  shows "small_map ((init_empty_map sp nm)\<lparr>root := Node Leaf (new_range b s None) Leaf, msize := 1\<rparr>)"
  using assms card_word_interval [of b "b + s", OF less_imp_le [OF assms(1)]]
  by (simp add: small_map_def map_ok_def sep_simps valid_def range_bytes_def)

lemma example_poster_ok:
  "speculative example_poster" "small_map (local_ch_data example_poster)" "small_map (write_map example_poster)"
  "board_free example_poster" "can_post 3 (channels example_poster ! slot_of 3 example_poster)"
proof -
  show "speculative example_poster" by (simp add: example_poster_def example_task_def speculative_def)
  show "small_map (local_ch_data example_poster)" "small_map (write_map example_poster)"
    by (simp_all add: example_poster_def example_task_def small_one_range)
  show b: "board_free example_poster"
    by (simp add: board_free_def example_poster_def example_task_def program_start_def)
  have "slot_of 3 example_poster < 10"
    using slot_of_less [of example_poster 3] b by (simp add: board_free_def) (simp add: example_poster_def)
  then show "can_post 3 (channels example_poster ! slot_of 3 example_poster)"
    by (simp add: example_poster_def can_post_def zero_channel_def)
qed

text \<open>
  C16: a post delivers.  A task posts on a free channel: the bytes of the channel that it has written
  leave its write set.  Every later speculative task that has neither read, written nor received any
  of them and then waits on the channel goes on with exactly these bytes taken over from the poster,
  and records them as received.
\<close>

theorem post_wait_delivers:
  assumes "speculative s" and "i > 0" and "local_ch_id s = 0 \<or> local_ch_id s = i"
    and "small_map (local_ch_data s)" and "small_map (write_map s)"
    and "board_free s" and "can_post i (channels s ! slot_of i s)"
    and "posted = map_bytes (local_ch_data s) \<inter> map_bytes (write_map s)"
  shows "\<exists>s'. channel_post i s = Returned () s' \<and> map_bytes (write_map s') = map_bytes (write_map s) - posted \<and>
    (\<forall>r. task_status r = SPEC \<and> small_map (read_map r) \<and> small_map (write_map r) \<and> tmap_ok (received r) \<and>
       posted \<inter> (map_bytes (read_map r) \<union> map_bytes (write_map r) \<union> map_bytes (received r)) = {} \<longrightarrow>
       (\<exists>r'. channel_wait i (r\<lparr>channels := channels s'\<rparr>) = Returned () r' \<and>
         mem r' = (\<lambda>a. if a \<in> posted then mem s a else mem r a) \<and>
         map_bytes (received r') = map_bytes (received r) \<union> posted))"
proof -
  obtain s' ch l where s': "channel_post i s = Returned () s'" "channels s' = (channels s)[slot_of i s := ch]"
    "ch_id ch = i" "is_posted ch" "cc_first ch = None"
    "ranges (ch_data ch) = map (with_data (mem s)) (ranges l)" "small_map l" "small_map (ch_data ch)"
    "map_bytes l = posted"
    "map_bytes (write_map s') = map_bytes (write_map s) - map_bytes (local_ch_data s)"
    using channel_post_spec [OF assms(1-7)] unfolding assms(8) by metis
  have k: "slot_of i s < length (channels s)" "channels s \<noteq> []"
    using assms(6) slot_of_less by (simp_all add: board_free_def)
  have "\<exists>r'. channel_wait i (r\<lparr>channels := channels s'\<rparr>) = Returned () r' \<and>
      mem r' = (\<lambda>a. if a \<in> posted then mem s a else mem r a) \<and>
      map_bytes (received r') = map_bytes (received r) \<union> posted"
    if r: "task_status r = SPEC" "small_map (read_map r)" "small_map (write_map r)" "tmap_ok (received r)"
      "posted \<inter> (map_bytes (read_map r) \<union> map_bytes (write_map r) \<union> map_bytes (received r)) = {}" for r
  proof -
    have sl: "slot_of i (r\<lparr>channels := channels s'\<rparr>) = slot_of i s" using s'(2) by (simp add: slot_of_def)
    have "\<exists>u. channel_wait i (r\<lparr>channels := channels s'\<rparr>) = Returned () (r\<lparr>channels := channels s', received := u,
        mem := overlay (map_bytes l) (mem s) (mem r)\<rparr>) \<and>
      tmap_ok u \<and> map_bytes u = map_bytes (received r) \<union> map_bytes l"
      using channel_wait_spec [of "r\<lparr>channels := channels s'\<rparr>" i ch "mem s" l] s'(2-9) r k sl
      by (simp add: Int_Un_distrib)
    then show ?thesis using s'(9) by (force simp: overlay_def)
  qed
  moreover have "map_bytes (write_map s') = map_bytes (write_map s) - posted"
    using s'(10) assms(8) by auto
  ultimately show ?thesis using s'(1) by blast
qed

theorem post_wait_delivers_witness:
  "\<exists>s'. channel_post 3 example_poster = Returned () s' \<and>
    map_bytes (write_map s') = map_bytes (write_map example_poster) -
      (map_bytes (local_ch_data example_poster) \<inter> map_bytes (write_map example_poster))"
  using post_wait_delivers [OF example_poster_ok(1) _ _ example_poster_ok(2-5) refl]
  by (auto simp: example_poster_def)

text \<open>
  Posting to any channel of a chain marks every channel of the chain as posted.
\<close>

theorem post_marks_chain:
  assumes "cc_first (chs ! k) = Some h" and "chain_from chs h = Inr is" and "distinct is"
    and "\<forall>j \<in> set is. j < length chs"
  shows "\<exists>chs'. post_chain k chs = Inr chs' \<and> (\<forall>j \<in> set is. is_posted (chs' ! j))"
  by (rule post_chain_marks [OF assms])

theorem post_marks_chain_witness:
  "\<exists>chs'. post_chain 1 [set_chain zero_channel (Some 0) (Some 1) False, set_chain zero_channel (Some 0) None False] =
      Inr chs' \<and> (\<forall>j \<in> set [0, 1]. is_posted (chs' ! j))"
  by (rule post_marks_chain [of _ _ 0]) (simp_all add: set_chain_def chain_from_def)

text \<open>
  The check for data modified after it was posted is exact: it returns when the bytes that were
  received are those the sender has committed, and aborts the speculation otherwise.
\<close>

lemma modify_after_post_exact:
  assumes "sender_of s rg < length (patches s)"
    and "ordered rs" and "ranges (patches s ! sender_of s rg) = map (with_data m) rs"
    and "r \<in> set rs" and "valid rg" and "range_bytes rg \<subseteq> range_bytes r"
    and "rec rg = Some blk" and "length blk = unat (rsize rg)"
  shows "\<exists>ps. mdfy_aftr_pst_chk rg s =
    (if blk = read_mem m (base rg) (unat (rsize rg)) then Returned () (s\<lparr>patches := ps\<rparr>)
     else BOP_abort_spec (s\<lparr>patches := ps\<rparr>))"
  using mdfy_spec [OF assms] by metis

text \<open>
  Chaining the same two channels a second time closes the chain to a cycle, and the second call
  never ends; it still holds the lock of the switch board.
\<close>

theorem chaining_twice_diverges:
  "(case channel_chain 1 2 example_poster of Returned _ s1 \<Rightarrow> True | _ \<Rightarrow> False) \<and>
    seq (channel_chain 1 2) (\<lambda>_. channel_chain 1 2) example_poster = Aborted Diverges"
  by (rule conjI; code_simp)

end
