(* ===== verification/Ordered.thy ===== *)
theory Ordered
  imports Postwait
begin

text \<open>
  \<^verbatim>\<open>bop_ordered.c\<close>: ordered regions.  A region is entered by waiting on the channel of the previous
  task and left by posting, on the channel of this task, what was written inside.

  The callbacks \<^verbatim>\<open>on_enter_ordered\<close> and \<^verbatim>\<open>on_exit_ordered\<close> go through the port table \<open>pt\<close>.
\<close>

section \<open>Model\<close>

definition channel_for_region :: "addr_t \<Rightarrow> bop_state \<Rightarrow> addr_t" where
  "channel_for_region region_id s =
     region_id * of_int (BOP_get_group_size s) + of_int (BOP_ppr_index s)"

definition BOP_ordered_begin :: "bop_state port_table \<Rightarrow> addr_t \<Rightarrow> unit bop" where
  "BOP_ordered_begin pt i s =
     (if residence (ordered_writes s) = None then Returned () s
      else if \<not> in_ordered_region s then
        let s1 = s\<lparr>in_ordered_region := True, ordered_region_id := i\<rparr>;
            my_ch = channel_for_region i s1
        in seq (channel_wait (my_ch - 1)) (\<lambda>_. on_enter_ordered pt) s1
      else Returned () s)"

definition BOP_ordered_skip :: "addr_t \<Rightarrow> unit bop" where
  "BOP_ordered_skip i s =
     (let my_ch = channel_for_region i s in channel_chain (my_ch - 1) my_ch s)"

text \<open>The size passes through the \<^verbatim>\<open>unsigned\<close> parameter of \<^verbatim>\<open>channel_fill\<close>.\<close>

definition fill_range :: "addr_t \<Rightarrow> mem_range_t \<Rightarrow> unit bop" where
  "fill_range ch rg = channel_fill ch (base rg) (ucast (rsize rg))"

definition BOP_ordered_end :: "bop_state port_table \<Rightarrow> addr_t \<Rightarrow> unit bop" where
  "BOP_ordered_end pt i s =
     (if in_ordered_region s \<and> ordered_region_id s = i then
        let my_ch = channel_for_region i s in
        seq (foreach_prog (ordered_writes s) (fill_range my_ch)) (\<lambda>_.
        seq (channel_post my_ch) (\<lambda>_.
        seq (on_exit_ordered pt) (\<lambda>_ s.
          Returned () (s\<lparr>ordered_writes := map_clear (ordered_writes s), in_ordered_region := False\<rparr>)))) s
      else Returned () s)"

definition ordered_ppr_reset :: "unit bop" where
  "ordered_ppr_reset s =
     (if residence (ordered_writes s) = None
      then Returned () (s\<lparr>ordered_writes := init_empty_map (Some metacow_space) ''ordered_writes''\<rparr>)
      else Returned () (s\<lparr>ordered_writes := map_clear (ordered_writes s)\<rparr>))"

definition bop_ordered_port :: "bop_state bop_port_t" where
  "bop_ordered_port = \<lparr>p_ppr_group_init = None, p_ppr_task_init = Some ordered_ppr_reset,
     p_ppr_check_correctness = None, p_report_conflict = None, p_data_commit = None,
     p_task_group_commit = None, p_task_group_succ_fini = None, p_undy_init = None,
     p_undy_succ_fini = None, p_on_enter_ordered = None, p_on_exit_ordered = None,
     p_on_main_complete = None\<rparr>"

section \<open>Filling the channel\<close>

lemma fill_ranges:
  assumes "speculative s" and "ch > 0" and "local_ch_id s = 0 \<or> local_ch_id s = ch"
    and "map_ok (local_ch_data s)" and "apart (ranges (local_ch_data s) @ rs)"
    and "\<forall>r \<in> set rs. rsize r < 2 ^ 32" and "rs \<noteq> [] \<or> local_ch_id s = ch"
  shows "\<exists>m. seq_all (map (fill_range ch) rs) s = Returned () (s\<lparr>local_ch_id := ch, local_ch_data := m\<rparr>) \<and>
    map_ok m \<and> map_bytes m = map_bytes (local_ch_data s) \<union> bytes rs"
  using assms
proof (induction rs arbitrary: s)
  case Nil
  have "s\<lparr>local_ch_id := local_ch_id s, local_ch_data := local_ch_data s\<rparr> = s" by simp
  with Nil show ?case by (intro exI [of _ "local_ch_data s"]) simp
next
  case (Cons r rs)
  have u: "ucast (ucast (rsize r) :: uint) = rsize r"
    using Cons.prems(6) by (simp add: word_less_nat_alt word_eq_iff_unsigned [where ?'a = nat]
        unsigned_ucast_eq take_bit_eq_mod unat_mod_distrib)
  have b: "base r < base r + rsize r" "\<forall>x \<in> set (ranges (local_ch_data s)). rend x < base r"
    using Cons.prems(5) by (auto simp: sep_simps valid_def rend_def)
  obtain m where m: "map_add_range (local_ch_data s) (base r) (rsize r) None = Inr (m, new_range (base r) (rsize r) None)"
    "map_ok m" "ranges m = ranges (local_ch_data s) @ [new_range (base r) (rsize r) None]"
    "m = (local_ch_data s)\<lparr>root := root m, msize := msize m\<rparr>"
    by (rule map_add_range_append [OF Cons.prems(4) b])
  have st: "\<not> not_posting s" using Cons.prems(1) by (auto simp: speculative_def not_posting_def)
  have "has_local_channel ch s = Returned True s"
    using Cons.prems(2,3) by (auto simp: has_local_channel_def)
  then have step: "fill_range ch r s = Returned () (s\<lparr>local_ch_id := ch, local_ch_data := m\<rparr>)"
    using st m(1) u Cons.prems(3) by (auto simp: fill_range_def channel_fill_def Let_def)
  let ?s1 = "s\<lparr>local_ch_id := ch, local_ch_data := m\<rparr>"
  have "apart (ranges (local_ch_data ?s1) @ rs)"
    using Cons.prems(5) by (auto simp: m(3) sep_simps rend_def valid_def)
  with Cons.IH [of ?s1] Cons.prems m(2) obtain m' where
    "seq_all (map (fill_range ch) rs) ?s1 = Returned () (?s1\<lparr>local_ch_id := ch, local_ch_data := m'\<rparr>)"
    "map_ok m'" "map_bytes m' = map_bytes m \<union> bytes rs"
    by (auto simp: speculative_def)
  with step show ?case
    by (intro exI [of _ m']) (auto simp: m(3) range_bytes_def rend_def)
qed

section \<open>Leaving and entering a region\<close>

lemma channel_for_region_same [simp]:
  "channel_for_region i (s\<lparr>channels := x\<rparr>) = channel_for_region i s"
  "channel_for_region i (s\<lparr>in_ordered_region := b, ordered_region_id := j\<rparr>) = channel_for_region i s"
  by (simp_all add: channel_for_region_def BOP_get_group_size_def ppr_group_get_size_def BOP_ppr_index_def)

lemma channel_for_next:
  assumes "BOP_get_group_size r = BOP_get_group_size s" and "BOP_ppr_index r = BOP_ppr_index s + 1"
  shows "channel_for_region i r - 1 = channel_for_region i s"
  using assms by (simp add: channel_for_region_def)

definition no_callbacks :: "bop_state port_table \<Rightarrow> bool" where
  "no_callbacks pt \<longleftrightarrow> (\<forall>s. on_enter_ordered pt s = Returned () s \<and> on_exit_ordered pt s = Returned () s)"

text \<open>A task that is about to leave a region in which it wrote something, on a free channel.\<close>

definition leaving :: "addr_t \<Rightarrow> bop_state \<Rightarrow> bool" where
  "leaving i s \<longleftrightarrow> speculative s \<and> in_ordered_region s \<and> ordered_region_id s = i \<and> local_ch_id s = 0 \<and>
     map_ok (local_ch_data s) \<and> ranges (local_ch_data s) = [] \<and>
     small_map (ordered_writes s) \<and> ranges (ordered_writes s) \<noteq> [] \<and>
     (\<forall>r \<in> set (ranges (ordered_writes s)). rsize r < 2 ^ 32) \<and>
     small_map (write_map s) \<and> map_bytes (ordered_writes s) \<subseteq> map_bytes (write_map s) \<and>
     board_free s \<and> channel_for_region i s > 0 \<and>
     can_post (channel_for_region i s) (channels s ! slot_of (channel_for_region i s) s)"

lemma ordered_end_spec:
  assumes "leaving i s" and "no_callbacks pt"
  defines "c \<equiv> channel_for_region i s"
  obtains s' ch l where "BOP_ordered_end pt i s = Returned () s'" and "\<not> in_ordered_region s'"
    and "channels s' = (channels s)[slot_of c s := ch]"
    and "ch_id ch = c" and "is_posted ch" and "cc_first ch = None"
    and "ranges (ch_data ch) = map (with_data (mem s)) (ranges l)" and "small_map l" and "small_map (ch_data ch)"
    and "map_bytes l = map_bytes (ordered_writes s)"
proof -
  have a: "speculative s" "local_ch_id s = 0" "map_ok (local_ch_data s)" "ranges (local_ch_data s) = []"
    "small_map (ordered_writes s)" "ranges (ordered_writes s) \<noteq> []"
    "\<forall>r \<in> set (ranges (ordered_writes s)). rsize r < 2 ^ 32"
    "map_bytes (ordered_writes s) \<subseteq> map_bytes (write_map s)" "c > 0"
    using assms(1) by (simp_all add: leaving_def c_def)
  have "apart (ranges (local_ch_data s) @ ranges (ordered_writes s))"
    using a(4,5) by (simp add: small_map_def map_ok_def)
  from fill_ranges [OF a(1,9) _ a(3) this a(7)] a(2,4,6)
  obtain m where m: "seq_all (map (fill_range c) (ranges (ordered_writes s))) s =
      Returned () (s\<lparr>local_ch_id := c, local_ch_data := m\<rparr>)" "map_ok m"
    "map_bytes m = map_bytes (ordered_writes s)" by auto
  define s1 where "s1 = s\<lparr>local_ch_id := c, local_ch_data := m\<rparr>"
  have s1: "speculative s1" "local_ch_id s1 = 0 \<or> local_ch_id s1 = c" "small_map (local_ch_data s1)"
    "small_map (write_map s1)" "board_free s1" "can_post c (channels s1 ! slot_of c s1)"
    using assms(1) m(2,3)
    by (simp_all add: s1_def leaving_def small_map_def speculative_def board_free_def slot_of_def c_def [symmetric])
  obtain s2 ch l where s2: "channel_post c s1 = Returned () s2" "channels s2 = (channels s1)[slot_of c s1 := ch]"
    "ch_id ch = c" "is_posted ch" "cc_first ch = None"
    "ranges (ch_data ch) = map (with_data (mem s1)) (ranges l)" "small_map l" "small_map (ch_data ch)"
    "map_bytes l = map_bytes (local_ch_data s1) \<inter> map_bytes (write_map s1)"
    by (rule channel_post_spec [OF s1(1) a(9) s1(2-6)]) blast
  have l: "map_bytes l = map_bytes (ordered_writes s)" using s2(9) a(8) m(3) by (auto simp: s1_def)
  let ?s' = "s2\<lparr>ordered_writes := map_clear (ordered_writes s2), in_ordered_region := False\<rparr>"
  have "BOP_ordered_end pt i s = Returned () ?s'"
    using assms(1,2) m(1) s2(1)
    by (simp add: BOP_ordered_end_def Let_def c_def [symmetric] foreach_prog_eq s1_def [symmetric] leaving_def
        no_callbacks_def)
  with s2 l show ?thesis by (intro that [of ?s' ch l]) (simp_all add: s1_def slot_of_def)
qed

lemma ordered_begin_spec:
  assumes "no_callbacks pt" and "task_status r = SPEC" and "\<not> in_ordered_region r"
    and "residence (ordered_writes r) \<noteq> None" and "channel_for_region i r - 1 = c" and "channels r \<noteq> []"
    and "channels r ! slot_of c r = ch" and "is_posted ch" and "ch_id ch = c" and "cc_first ch = None"
    and "ranges (ch_data ch) = map (with_data m1) (ranges l)" and "small_map l" and "small_map (ch_data ch)"
    and "small_map (read_map r)" and "small_map (write_map r)" and "tmap_ok (received r)"
    and "map_bytes l \<inter> (map_bytes (read_map r) \<union> map_bytes (write_map r) \<union> map_bytes (received r)) = {}"
  shows "\<exists>r'. BOP_ordered_begin pt i r = Returned () r' \<and> in_ordered_region r' \<and>
    mem r' = overlay (map_bytes l) m1 (mem r)"
proof -
  define q where "q = r\<lparr>in_ordered_region := True, ordered_region_id := i\<rparr>"
  have c: "channel_for_region i q - 1 = c"
    using assms(5) by (simp add: q_def)
  have "\<exists>u. channel_wait c q = Returned () (q\<lparr>received := u, mem := overlay (map_bytes l) m1 (mem q)\<rparr>) \<and>
    tmap_ok u \<and> map_bytes u = map_bytes (received q) \<union> map_bytes l"
    by (rule channel_wait_spec [where ch = ch])
      (use assms in \<open>auto simp: q_def slot_of_def Int_Un_distrib\<close>)
  then obtain u where "channel_wait c q = Returned () (q\<lparr>received := u, mem := overlay (map_bytes l) m1 (mem r)\<rparr>)"
    by (auto simp: q_def)
  moreover have "BOP_ordered_begin pt i r =
      seq (channel_wait (channel_for_region i q - 1)) (\<lambda>_. on_enter_ordered pt) q"
    using assms(3,4) by (auto simp: BOP_ordered_begin_def Let_def q_def)
  ultimately show ?thesis using assms(1,5) by (simp add: no_callbacks_def q_def)
qed

section \<open>Properties\<close>

definition example_region :: bop_state where
  "example_region = example_poster\<lparr>local_ch_id := 0,
     local_ch_data := init_empty_map (Some metacow_space) ''local_ch_data'',
     in_ordered_region := True, ordered_region_id := 2,
     ordered_writes := (init_empty_map (Some metacow_space) [])
       \<lparr>root := Node Leaf (new_range 64 4 None) Leaf, msize := 1\<rparr>\<rparr>"

text \<open>
  C17: an ordered region hands its writes on.  A speculative task leaves an ordered region in which
  it wrote something: its data is posted.  The task with the next index, entering the same region
  and not having touched these bytes before, is let in with exactly these bytes taken over.
\<close>

theorem ordered_region_hands_on:
  assumes "leaving i s" and "no_callbacks pt" and "given = map_bytes (ordered_writes s)"
  shows "\<exists>s'. BOP_ordered_end pt i s = Returned () s' \<and> \<not> in_ordered_region s' \<and>
    (\<forall>r. task_status r = SPEC \<and> \<not> in_ordered_region r \<and> residence (ordered_writes r) \<noteq> None \<and>
       BOP_get_group_size r = BOP_get_group_size s \<and> BOP_ppr_index r = BOP_ppr_index s + 1 \<and>
       small_map (read_map r) \<and> small_map (write_map r) \<and> tmap_ok (received r) \<and>
       given \<inter> (map_bytes (read_map r) \<union> map_bytes (write_map r) \<union> map_bytes (received r)) = {} \<longrightarrow>
       (\<exists>r'. BOP_ordered_begin pt i (r\<lparr>channels := channels s'\<rparr>) = Returned () r' \<and> in_ordered_region r' \<and>
         mem r' = (\<lambda>a. if a \<in> given then mem s a else mem r a)))"
proof -
  define c where "c = channel_for_region i s"
  obtain s' ch l where s': "BOP_ordered_end pt i s = Returned () s'" "\<not> in_ordered_region s'"
    "channels s' = (channels s)[slot_of c s := ch]" "ch_id ch = c" "is_posted ch" "cc_first ch = None"
    "ranges (ch_data ch) = map (with_data (mem s)) (ranges l)" "small_map l" "small_map (ch_data ch)"
    "map_bytes l = given" unfolding c_def assms(3) by (rule ordered_end_spec [OF assms(1,2)])
  have k: "slot_of c s < length (channels s)" "channels s \<noteq> []"
    using assms(1) slot_of_less by (simp_all add: leaving_def board_free_def)
  have "\<exists>r'. BOP_ordered_begin pt i (r\<lparr>channels := channels s'\<rparr>) = Returned () r' \<and> in_ordered_region r' \<and>
      mem r' = (\<lambda>a. if a \<in> given then mem s a else mem r a)"
    if r: "task_status r = SPEC" "\<not> in_ordered_region r" "residence (ordered_writes r) \<noteq> None"
      "BOP_get_group_size r = BOP_get_group_size s" "BOP_ppr_index r = BOP_ppr_index s + 1"
      "small_map (read_map r)" "small_map (write_map r)" "tmap_ok (received r)"
      "given \<inter> (map_bytes (read_map r) \<union> map_bytes (write_map r) \<union> map_bytes (received r)) = {}" for r
  proof -
    have "channel_for_region i r - 1 = c" using channel_for_next [OF r(4,5)] by (simp add: c_def)
    then have c: "channel_for_region i (r\<lparr>channels := channels s'\<rparr>) - 1 = c"
      by simp
    have "\<exists>r'. BOP_ordered_begin pt i (r\<lparr>channels := channels s'\<rparr>) = Returned () r' \<and> in_ordered_region r' \<and>
      mem r' = overlay (map_bytes l) (mem s) (mem (r\<lparr>channels := channels s'\<rparr>))"
      by (rule ordered_begin_spec [OF assms(2), where c = c and ch = ch])
        (use r k s' c in \<open>auto simp: slot_of_def\<close>)
    then show ?thesis by (auto simp: overlay_def s'(10))
  qed
  with s'(1,2) show ?thesis by blast
qed

lemma leaving_example_region: "leaving 2 example_region"
proof -
  have c: "channel_for_region 2 example_region = 2"
    by (simp add: channel_for_region_def example_region_def example_poster_def example_task_def
        program_start_def BOP_get_group_size_def ppr_group_get_size_def BOP_ppr_index_def)
  have b: "board_free example_region"
    using example_poster_ok(4) by (simp add: board_free_def example_region_def)
  then have "slot_of 2 example_region < 10"
    using slot_of_less [of example_region 2]
    by (simp add: board_free_def) (simp add: example_region_def example_poster_def)
  then have "can_post 2 (channels example_region ! slot_of 2 example_region)"
    by (simp add: can_post_def zero_channel_def example_region_def example_poster_def)
  moreover have "small_map (ordered_writes example_region)" by (simp add: example_region_def small_one_range)
  moreover have "speculative example_region" "small_map (write_map example_region)"
    using example_poster_ok(1,3) by (simp_all add: example_region_def speculative_def)
  moreover have "map_bytes (ordered_writes example_region) \<subseteq> map_bytes (write_map example_region)"
    by (auto simp: example_region_def example_poster_def example_task_def) (auto intro: less_trans)
  ultimately show ?thesis using b
    by (simp add: leaving_def c) (simp add: example_region_def init_empty_map_def map_ok_def)
qed

theorem ordered_region_hands_on_witness:
  "\<exists>s'. BOP_ordered_end no_ports 2 example_region = Returned () s' \<and> \<not> in_ordered_region s'"
proof -
  have "no_callbacks no_ports"
    by (simp add: no_callbacks_def port_steps call_all_def registered_def no_ports_def)
  from ordered_region_hands_on [OF leaving_example_region this refl] show ?thesis by blast
qed

end
