(* ===== verification/Bop_IO.thy ===== *)
theory Bop_IO
  imports Ports Processes
begin

text \<open>
  \<^verbatim>\<open>bop_io.c\<close>: output that is kept back in buffers until it is known which processes win.

  The formatted text is the argument \<open>txt\<close> of the printing functions, \<open>None\<close> when the C library reports
  an error.  A buffer is the list of the \<^verbatim>\<open>alloc\<close> characters it has; \<^verbatim>\<open>vsnprintf\<close> writes at most the
  number of characters it is given, the last one a null character, and returns the length of the
  whole text.  What \<^verbatim>\<open>malloc\<close> and \<^verbatim>\<open>realloc\<close> leave uninitialised is the argument \<open>junk\<close>.
\<close>

section \<open>Buffers\<close>

definition nul :: char where "nul = CHR 0x00"

definition null_buffer :: output_buffer where
  "null_buffer = \<lparr>ob_alloc = 0, ob_used = 0, ob_data = None\<rparr>"

definition put_at :: "nat \<Rightarrow> string \<Rightarrow> string \<Rightarrow> string res" where
  "put_at off xs dat =
     (if length dat < off + length xs then Inl BadAccess
      else Inr (take off dat @ xs @ drop (off + length xs) dat))"

definition vsnprintf :: "nat \<Rightarrow> size_t \<Rightarrow> string \<Rightarrow> string \<Rightarrow> string res" where
  "vsnprintf off avail txt dat =
     (if avail = 0 then Inr dat else put_at off (take (unat avail - 1) txt @ [nul]) dat)"

text \<open>
  The doubling loop.  After 64 doublings the size is 0 and stays 0, so a loop that has not ended
  within its fuel of 65 never ends.
\<close>

fun grow_size :: "nat \<Rightarrow> size_t \<Rightarrow> size_t \<Rightarrow> size_t res" where
  "grow_size 0 n need = Inl Diverges"
| "grow_size (Suc fuel) n need =
     (let n' = n * 2 in if n' < need then grow_size fuel n' need else Inr n')"

definition printf_into :: "(nat \<Rightarrow> char) \<Rightarrow> string option \<Rightarrow> output_buffer \<Rightarrow> (int \<times> output_buffer) res" where
  "printf_into junk txt buf =
     (case ob_data buf of
        None \<Rightarrow> Inl AssertFailed
      | Some dat \<Rightarrow>
        let off = unat (ob_used buf) - 1; avail = ob_alloc buf - ob_used buf in
        if ob_used buf = 0 \<or> length dat \<le> off then Inl BadAccess
        else if dat ! off \<noteq> nul then Inl AssertFailed
        else case txt of
          None \<Rightarrow> Inr (-1, buf)
        | Some t \<Rightarrow>
          res_bind (vsnprintf off avail t dat) (\<lambda>dat1.
            let sz = of_nat (length t) :: size_t in
            res_bind
              (if sz > avail then
                 res_bind (grow_size 65 (ob_alloc buf) (ob_used buf + sz)) (\<lambda>new_size.
                 let dat2 = realloc_list junk dat1 (unat new_size);
                     avail2 = new_size - ob_used buf
                 in if \<not> avail2 \<ge> sz then Inl AssertFailed
                    else res_bind (vsnprintf off avail2 t dat2) (\<lambda>dat3.
                      Inr (buf\<lparr>ob_data := Some dat3, ob_alloc := new_size\<rparr>)))
               else Inr (buf\<lparr>ob_data := Some dat1\<rparr>))
              (\<lambda>buf1.
                let buf2 = buf1\<lparr>ob_used := ob_used buf1 + sz\<rparr>
                in if \<not> ob_used buf2 \<le> ob_alloc buf2 then Inl AssertFailed
                   else Inr (int (length t), buf2))))"

definition BOP_printf :: "(nat \<Rightarrow> char) \<Rightarrow> string option \<Rightarrow> int bop" where
  "BOP_printf junk txt s =
     (case task_status s of
        UNDY \<Rightarrow>
          (case printf_into junk txt (undy_buffer s) of
             Inl e \<Rightarrow> Aborted e
           | Inr (v, buf) \<Rightarrow> Returned v (s\<lparr>undy_buffer := buf\<rparr>))
      | SPEC \<Rightarrow> if output_buffers s = None then Aborted AssertFailed else Exited 0 s
      | _ \<Rightarrow>
          (case txt of
             None \<Rightarrow> Returned (-1) s
           | Some t \<Rightarrow> Returned (int (length t)) (s\<lparr>stdout := stdout s @ t\<rparr>)))"

definition init_buffer :: "string option \<Rightarrow> size_t \<Rightarrow> output_buffer res" where
  "init_buffer dat sz =
     (case dat of
        None \<Rightarrow> Inl AssertFailed
      | Some d \<Rightarrow>
        if \<not> sz \<ge> 1 then Inl AssertFailed
        else res_bind (put_at 0 [nul] d) (\<lambda>d'. Inr \<lparr>ob_alloc = sz, ob_used = 1, ob_data = Some d'\<rparr>))"

text \<open>Printing to a file stops the speculation; \<open>out\<close> is what the stream's owner gets.\<close>

definition BOP_fprintf :: "string option \<Rightarrow> int bop" where
  "BOP_fprintf txt =
     seq BOP_abort_spec (\<lambda>_. ret (case txt of None \<Rightarrow> -1 | Some t \<Rightarrow> int (length t)))"

definition all_buffs_empty :: "bop_state \<Rightarrow> int res" where
  "all_buffs_empty s =
     (if num_buffers s = 0 then Inr 0
      else case output_buffers s of
        None \<Rightarrow> Inl BadAccess
      | Some bufs \<Rightarrow>
        if length bufs < unat (num_buffers s) then Inl BadAccess
        else Inr (if \<exists>b \<in> set (take (unat (num_buffers s)) bufs). ob_used b \<noteq> 0 then 1 else 0))"

section \<open>The port\<close>

definition io_group_init :: "(nat \<Rightarrow> char) \<Rightarrow> unit bop" where
  "io_group_init junk s =
     (let n = of_int (BOP_get_group_size s - 1) :: uint;
          s1 = s\<lparr>num_buffers := n, io_mspace := (if io_mspace s = None then Some 4 else io_mspace s)\<rparr>;
          fresh = init_buffer (Some [junk 0]) 1
      in case (if output_buffers s1 = None then Inr 1 else all_buffs_empty s1) of
           Inl e \<Rightarrow> Aborted e
         | Inr v \<Rightarrow>
           if v = 0 then Aborted AssertFailed
           else if ob_data (undy_buffer s1) \<noteq> None then Aborted AssertFailed
           else case fresh of
             Inl e \<Rightarrow> Aborted e
           | Inr b \<Rightarrow>
             Returned () (s1\<lparr>undy_buffer := b, output_buffers := Some (replicate (unat n) b)\<rparr>))"

definition free_all_buffers :: "unit bop" where
  "free_all_buffers s =
     (if num_buffers s \<noteq> 0 \<and> output_buffers s = None then Aborted BadAccess
      else Returned () (s\<lparr>undy_buffer := (undy_buffer s)\<lparr>ob_data := None\<rparr>, output_buffers := None\<rparr>))"

text \<open>\<^verbatim>\<open>printf("%s", data)\<close> writes the characters before the first null character.\<close>

definition c_string :: "string option \<Rightarrow> string" where
  "c_string dat = (case dat of None \<Rightarrow> ''(null)'' | Some d \<Rightarrow> takeWhile (\<lambda>c. c \<noteq> nul) d)"

definition io_group_succ :: "unit bop" where
  "io_group_succ s =
     (case output_buffers s of
        None \<Rightarrow> if num_buffers s = 0 then free_all_buffers s else Aborted BadAccess
      | Some bufs \<Rightarrow>
        free_all_buffers (s\<lparr>stdout := stdout s @
          concat (map (\<lambda>b. c_string (ob_data b)) (take (unat (num_buffers s)) bufs))\<rparr>))"

definition io_undy_succ :: "unit bop" where
  "io_undy_succ s = free_all_buffers (s\<lparr>stdout := stdout s @ c_string (ob_data (undy_buffer s))\<rparr>)"

definition io_on_malloc_rescue :: "(nat \<Rightarrow> char) \<Rightarrow> unit bop" where
  "io_on_malloc_rescue junk =
     seq free_all_buffers (\<lambda>_ s.
       case init_buffer (Some [junk 0]) 1 of
         Inl e \<Rightarrow> Aborted e
       | Inr b \<Rightarrow> Returned () (s\<lparr>undy_buffer := b\<rparr>))"

definition bop_io_port :: "(nat \<Rightarrow> char) \<Rightarrow> bop_state bop_port_t" where
  "bop_io_port junk = \<lparr>p_ppr_group_init = Some (io_group_init junk), p_ppr_task_init = None,
     p_ppr_check_correctness = None, p_report_conflict = None, p_data_commit = None,
     p_task_group_commit = None, p_task_group_succ_fini = Some io_group_succ, p_undy_init = None,
     p_undy_succ_fini = Some io_undy_succ, p_on_enter_ordered = None, p_on_exit_ordered = None,
     p_on_main_complete = None\<rparr>"

section \<open>The terminal\<close>

text \<open>\<open>tcsetpgrp\<close> is the operating system's: the argument gives its result for a process group.\<close>

definition terminal_helper :: "(int \<Rightarrow> int) \<Rightarrow> int \<Rightarrow> int bop" where
  "terminal_helper tcsetpgrp gpid =
     seq (block_signal SIGTTIN) (\<lambda>_ s.
       let e = tcsetpgrp (if gpid < 0 then - gpid else gpid)
       in seq (unblock_signal SIGTTIN) (\<lambda>_. ret e) s)"

definition bop_terminal_to_monitor :: "(int \<Rightarrow> int) \<Rightarrow> int bop" where
  "bop_terminal_to_monitor tcsetpgrp s =
     (let s1 = s\<lparr>given_to_workers := False\<rparr> in terminal_helper tcsetpgrp (monitor_process_id s1) s1)"

definition bop_terminal_to_workers :: "(int \<Rightarrow> int) \<Rightarrow> int bop" where
  "bop_terminal_to_workers tcsetpgrp s =
     (if \<not> given_to_workers s then terminal_helper tcsetpgrp (monitor_group s) s else Returned 0 s)"

section \<open>Printing into a buffer\<close>










section \<open>Properties\<close>

definition example_undy :: "nat \<Rightarrow> bop_state" where
  "example_undy n = (program_start (\<lambda>_. 0))\<lparr>task_status := UNDY, num_buffers := 0,
     undy_buffer := \<lparr>ob_alloc = of_nat n, ob_used = 1, ob_data = Some (replicate n nul)\<rparr>\<rparr>"



text \<open>
  A text that fills the buffer exactly loses its last character: the understudy prints \<open>abc\<close> into
  its fresh buffer and \<open>ab\<close> comes out.
\<close>

theorem undy_output_truncated:
  "(case seq (BOP_printf (\<lambda>_. nul) (Some ''abc'')) (\<lambda>_. io_undy_succ) (example_undy 1) of
      Returned _ s \<Rightarrow> stdout s | _ \<Rightarrow> ''?'') = ''ab''"
  by code_simp

text \<open>
  A speculative task that prints ends its process: the case for its output buffer runs into the
  default case.
\<close>

theorem spec_printf_exits:
  "task_status s = SPEC \<Longrightarrow> output_buffers s = Some bufs \<Longrightarrow> BOP_printf junk txt s = Exited 0 s"
  by (simp add: BOP_printf_def)

theorem spec_printf_exits_witness:
  "BOP_printf (\<lambda>_. nul) (Some ''a'') ((program_start (\<lambda>_. 0))\<lparr>task_status := SPEC, output_buffers := Some []\<rparr>) =
    Exited 0 ((program_start (\<lambda>_. 0))\<lparr>task_status := SPEC, output_buffers := Some []\<rparr>)"
  by (rule spec_printf_exits [of _ "[]"]) simp_all

end
