(* ===== verification/Ppr.thy ===== *)
theory Ppr
  imports Ordered Bop_IO
begin

text \<open>
  The life of a task in \<^verbatim>\<open>bop_ppr.c\<close>: the start and the end of the runtime, the start and the end of a
  possibly parallel region, the understudy, and the commit of a task and of a group.

  \<^verbatim>\<open>fork\<close> is the operating system's: its outcome is an argument, so that one call describes what each
  of the two processes does next.  The port table is an argument, as in \<open>Ports\<close>.  Signal dispositions
  and the clock are not part of the state; messages have no effect on it.
\<close>

section \<open>The operating system\<close>

datatype fork_result = ForkFailed | InParent int | InChild int

definition fork :: "fork_result \<Rightarrow> int bop" where
  "fork r s =
     (case r of
        ForkFailed \<Rightarrow> Returned (-1) s
      | InParent child \<Rightarrow> Returned child s
      | InChild pid \<Rightarrow> Returned 0 (s\<lparr>my_pid := pid, children := []\<rparr>))"

text \<open>\<^verbatim>\<open>fork\<close> as the sources call it, with the two user signals blocked around it.\<close>

definition guarded_fork :: "fork_result \<Rightarrow> int bop" where
  "guarded_fork r =
     seq block_wait (\<lambda>_. seq (fork r) (\<lambda>fid. seq unblock_wait (\<lambda>_. ret fid)))"

section \<open>Start of a group and of a task\<close>

definition in_own_group :: "bop_state \<Rightarrow> bool" where
  "in_own_group s \<longleftrightarrow> my_pgrp s = - monitor_group s"



section \<open>Begin of a region\<close>




section \<open>The understudy\<close>

definition count_undy :: "bop_state \<Rightarrow> bop_state" where
  "count_undy s = s\<lparr>bop_stats := (bop_stats s)\<lparr>num_by_undy := num_by_undy (bop_stats s) + undy_ppr_count s\<rparr>\<rparr>"

definition post_ppr_undy :: "bop_state port_table \<Rightarrow> unit bop" where
  "post_ppr_undy pt =
     seq (\<lambda>s. Returned () (s\<lparr>undy_ppr_count := undy_ppr_count s + 1\<rparr>)) (\<lambda>_.
     seq partial_group_get_size (\<lambda>n s.
       if undy_ppr_count s < n - 1 then Returned () s
       else
         seq (kill 0 SIGUSR2) (\<lambda>_.
         seq (\<lambda>s. kill (- monitor_group s) SIGUSR1 s) (\<lambda>_.
         seq (undy_succ_fini pt) (\<lambda>_ s.
           Returned () (count_undy (s\<lparr>task_status := SEQ, ppr_pos := GAP\<rparr>))))) s))"

definition count_main :: "bop_state \<Rightarrow> bop_state" where
  "count_main s = s\<lparr>bop_stats := (bop_stats s)\<lparr>num_by_main := num_by_main (bop_stats s) + 1\<rparr>\<rparr>"

definition spawn_undy :: "bop_state port_table \<Rightarrow> fork_result \<Rightarrow> bool bop" where
  "spawn_undy pt fk =
     seq (guarded_fork fk) (\<lambda>fid s.
       if fid = -1 then Returned True (s\<lparr>task_status := SEQ, bop_mode := SERIAL\<rparr>)
       else if fid = 0 then
         seq (assertion in_own_group) (\<lambda>_.
         seq (signal_undy_created fid) (\<lambda>_.
         seq (\<lambda>s. Returned () ((count_main s)\<lparr>undy_ppr_count := 0\<rparr>)) (\<lambda>_.
         seq (undy_init pt) (\<lambda>_. ret True))))
           (s\<lparr>task_status := UNDY, ppr_pos := GAP, spec_order := -1\<rparr>)
       else Returned False s)"

section \<open>Commit\<close>

definition checked_or_abort :: "bop_state port_table \<Rightarrow> unit bop" where
  "checked_or_abort pt =
     seq (\<lambda>s. if task_status s \<noteq> MAIN then wait_prior_check_done s else ret () s) (\<lambda>_.
     seq (ppr_check_correctness conflict_addr pt) (\<lambda>passed.
     seq (assertion (\<lambda>s. task_status s = MAIN \<longrightarrow> passed \<noteq> 0)) (\<lambda>_.
     seq (signal_check_done passed) (\<lambda>_.
       if passed = 0 then BOP_abort_spec else ret ()))))"

definition group_commit :: "bop_state port_table \<Rightarrow> unit bop" where
  "group_commit pt s =
     (if task_status s = MAIN then
        (if bop_mode s = SERIAL then
           seq (task_group_commit pt) (\<lambda>_.
           seq (task_group_succ_fini pt) (\<lambda>_ s.
             Returned () ((count_main s)\<lparr>task_status := SEQ\<rparr>))) s
         else end_clean s)
      else
        seq wait_group_commit_done (\<lambda>_.
        seq (task_group_commit pt) (\<lambda>_.
        seq signal_commit_done (\<lambda>_.
        seq (\<lambda>s. if bop_mode s = PARALLEL
                  then seq wait_undy_created (\<lambda>_. seq (kill 0 SIGUSR1) (\<lambda>_. wait_undy_conceded)) s
                  else ret () s) (\<lambda>_.
        seq (task_group_succ_fini pt) (\<lambda>_ s.
          let st = bop_stats s;
              s = s\<lparr>bop_stats := st\<lparr>num_by_spec := num_by_spec st + spec_order s\<rparr>\<rparr>
          in Returned () ((count_main s)\<lparr>task_status := SEQ\<rparr>)))))) s)"

section \<open>End of the runtime\<close>

text \<open>
  \<^verbatim>\<open>BOP_fini\<close> runs at \<^verbatim>\<open>exit\<close>.  Only a process of the parallel mode has registered it, the one in which
  \<^verbatim>\<open>monitor_process_id\<close> has been set.
\<close>

definition BOP_fini :: "bop_state port_table \<Rightarrow> (int \<Rightarrow> int) \<Rightarrow> unit bop" where
  "BOP_fini pt tcsetpgrp =
     seq (\<lambda>s. case task_status s of
            SPEC \<Rightarrow>
              seq BOP_abort_spec (\<lambda>_.
              seq (kill 0 SIGUSR2) (\<lambda>_ s.
                if bop_mode s = SERIAL then
                  seq (data_commit pt) (\<lambda>_.
                  seq (partial_group_set_size 1) (\<lambda>_.
                  seq (task_group_commit pt) (\<lambda>_. task_group_succ_fini pt))) s
                else ret () s)) s
          | UNDY \<Rightarrow>
              seq (kill 0 SIGUSR2) (\<lambda>_.
              seq (\<lambda>s. kill (- monitor_group s) SIGUSR1 s) (\<lambda>_.
              seq (undy_succ_fini pt) (\<lambda>_ s. Returned () (count_undy s)))) s
          | MAIN \<Rightarrow> ret () s
          | SEQ \<Rightarrow> ret () s) (\<lambda>_.
     seq cleanup_children (\<lambda>exitv.
     seq (\<lambda>s. kill (monitor_process_id s) SIGUSR1 s) (\<lambda>_.
     seq (bop_terminal_to_monitor tcsetpgrp) (\<lambda>_ s.
       if exitv \<noteq> 0 then Exited exitv s else Returned () s))))"

definition exit_with :: "bop_state port_table \<Rightarrow> (int \<Rightarrow> int) \<Rightarrow> int \<Rightarrow> 'a bop" where
  "exit_with pt tcsetpgrp code =
     seq (\<lambda>s. if monitor_process_id s \<noteq> 0 then BOP_fini pt tcsetpgrp s else ret () s) (\<lambda>_ s. Exited code s)"

section \<open>End of a region\<close>

definition ppr_task_commit :: "bop_state port_table \<Rightarrow> (int \<Rightarrow> int) \<Rightarrow> unit bop" where
  "ppr_task_commit pt tcsetpgrp =
     seq partial_group_get_size (\<lambda>n s.
     if spec_order s \<ge> n then seq cleanup_children (\<lambda>code. exit_with pt tcsetpgrp code) s
     else
       seq (checked_or_abort pt) (\<lambda>_.
       seq partial_group_get_size (\<lambda>n s.
       seq (if spec_order s < n - 1 then
              seq (data_commit pt) (\<lambda>_.
              seq signal_commit_done (\<lambda>_ s.
                if bop_mode s = SERIAL then Returned True s
                else seq wait_next_commit_done (\<lambda>_. ret False) s))
            else ret False) (\<lambda>returned.
       if returned then ret ()
       else
         seq partial_group_get_size (\<lambda>n s.
           if spec_order s = n - 1 then group_commit pt s else end_clean s)) s)) s)"

definition BOP_group_over :: "int \<Rightarrow> unit bop" where
  "BOP_group_over i s =
     (if ppr_static_id s \<noteq> i then Returned () s
      else if task_status s = SPEC then Exited 0 s
      else Returned () s)"

definition BOP_this_group_over :: "unit bop" where
  "BOP_this_group_over s = BOP_group_over (ppr_static_id s) s"

definition BOP_ppr_end :: "bop_state port_table \<Rightarrow> fork_result \<Rightarrow> (int \<Rightarrow> int) \<Rightarrow> int \<Rightarrow> unit bop" where
  "BOP_ppr_end pt fk tcsetpgrp i s =
     (if ppr_pos s = GAP \<or> ppr_static_id s \<noteq> i then Returned () s
      else case task_status s of
        SEQ \<Rightarrow> Returned () s
      | MAIN \<Rightarrow>
          seq (on_main_complete pt) (\<lambda>_.
          seq (\<lambda>s. if bop_mode s \<noteq> SERIAL then spawn_undy pt fk s else ret False s) (\<lambda>undy.
            if undy then ret () else ppr_task_commit pt tcsetpgrp)) s
      | SPEC \<Rightarrow> ppr_task_commit pt tcsetpgrp s
      | UNDY \<Rightarrow>
          seq (post_ppr_undy pt) (\<lambda>_ s. Returned () (s\<lparr>ppr_pos := GAP\<rparr>)) s)"

section \<open>Memory shortage\<close>

definition BOP_malloc_rescue :: "bop_state port_table \<Rightarrow> fork_result \<Rightarrow> unit bop" where
  "BOP_malloc_rescue pt fk s =
     (if task_status s = SEQ \<or> task_status s = UNDY \<or> bop_mode s = SERIAL then Exited 0 s
      else if task_status s = MAIN \<or> task_status s = SPEC \<and> spec_order s = 0 then
        seq (spawn_undy pt fk) (\<lambda>now_undy s. if \<not> now_undy then Exited 0 s else Returned () s) s
      else if task_status s = SPEC \<and> spec_order s > 0 then Exited 0 s
      else seq BOP_abort_spec (\<lambda>_ s. Exited 0 s) s)"

section \<open>Start of the runtime\<close>

definition SigBopExit :: "(int \<Rightarrow> int) \<Rightarrow> unit bop" where
  "SigBopExit tcsetpgrp = seq (bop_terminal_to_monitor tcsetpgrp) (\<lambda>_ s. Exited 0 s)"

text \<open>
  What \<^verbatim>\<open>BOP_init\<close> finds around it: the environment variables, the outcome of the system calls, the
  events that will reach the monitor, and the ports it registers.
\<close>

record init_env =
  ie_getenv :: "string \<Rightarrow> string option"
  ie_fork :: fork_result
  ie_setpgid_fails :: bool
  ie_waitpid_fails :: bool
  ie_events :: "monitor_event list"
  ie_status_junk :: "nat \<Rightarrow> sync_status_t"
  ie_ports :: "bop_state bop_port_t list"

text \<open>
  The part of \<^verbatim>\<open>BOP_init\<close> for the parallel mode: the parent becomes the monitor, the child gets a
  process group of its own and goes on.  \<^verbatim>\<open>exit(-1)\<close> ends the process with 255; nothing is
  registered at exit yet.
\<close>

definition start_monitor :: "init_env \<Rightarrow> unit bop" where
  "start_monitor e =
     seq (\<lambda>s. Returned () (s\<lparr>monitor_process_id := my_pid s\<rparr>)) (\<lambda>_.
     seq (guarded_fork (ie_fork e)) (\<lambda>fd s.
       if fd = -1 then Exited 255 s
       else if fd = 0 then
         (if ie_setpgid_fails e then Exited 255 s
          else Returned () (s\<lparr>my_pgrp := my_pid s, monitor_group := - my_pid s\<rparr>))
       else
         seq (wait_process (ie_waitpid_fails e) (ie_events e)) (\<lambda>_ s. Exited 0 s)
           (s\<lparr>monitor_group := - fd, is_monitoring := True\<rparr>)))"

definition BOP_init :: "init_env \<Rightarrow> bop_state port_table bop" where
  "BOP_init e =
     seq (lift_res (\<lambda>_. get_int_from_env (ie_getenv e) ''BOP_Verbose'' 0 6 0)) (\<lambda>v.
     seq (\<lambda>s. Returned () (s\<lparr>bop_verbose := v\<rparr>)) (\<lambda>_.
     seq (lift_res (\<lambda>_. get_int_from_env (ie_getenv e) ''BOP_GroupSize'' 1 100 2)) (\<lambda>g.
     seq (BOP_set_group_size (ie_status_junk e) g) (\<lambda>_.
     seq (\<lambda>s. Returned () (s\<lparr>bop_mode := (if g < 2 then SERIAL else PARALLEL)\<rparr>)) (\<lambda>_.
     seq (\<lambda>s. if bop_mode s \<noteq> SERIAL then start_monitor e s else ret () s) (\<lambda>_.
     seq (assertion in_own_group) (\<lambda>_.
     seq (\<lambda>s. Returned () (s\<lparr>task_status := SEQ\<rparr>)) (\<lambda>_.
     lift_res (\<lambda>s. register_all (\<lambda>_. None) (ie_ports e) no_ports)))))))))"

text \<open>
  \<^verbatim>\<open>ipa_hooks.c\<close>: the port of the allocator.  Its callbacks are in the allocator, which is not part of
  the sources, so they are arguments.
\<close>

definition speculating :: "bop_state \<Rightarrow> bool" where
  "speculating s \<longleftrightarrow> \<not> (bop_mode s = SERIAL \<or> BOP_task_status s = SEQ \<or> BOP_task_status s = UNDY)"

definition record_allocation :: "addr_t \<Rightarrow> size_t \<Rightarrow> unit bop" where
  "record_allocation payload n = BOP_record_write payload n"

definition getuniqueid :: "bop_state \<Rightarrow> int" where
  "getuniqueid s = monitor_process_id s"



section \<open>Ports that leave the state of the task alone\<close>




text \<open>The ports of the runtime whose callbacks are in the sources keep this contract.\<close>

definition runtime_table :: "(nat \<Rightarrow> map_t) \<Rightarrow> (nat \<Rightarrow> channel_t) \<Rightarrow> (nat \<Rightarrow> char) \<Rightarrow> bop_state port_table" where
  "runtime_table jm jc jo =
     \<lparr>bop_ports = Some (map Some [bop_merge_port jm, postwait_port jc, bop_ordered_port, bop_io_port jo]),
      num_ports = 4, pt_alloc_size = 10\<rparr>"

lemma registered_runtime_table [simp]:
  "registered (runtime_table jm jc jo) = [bop_merge_port jm, postwait_port jc, bop_ordered_port, bop_io_port jo]"
  by (simp add: registered_def runtime_table_def List.map_filter_def)






section \<open>The contract in use\<close>


section \<open>Properties\<close>

definition example_seq :: bop_state where
  "example_seq = (program_start (\<lambda>_. 0))\<lparr>sync_data := Some example_sync, my_pid := 7, my_pgrp := 7,
     monitor_group := -7, monitor_process_id := 6\<rparr>"




text \<open>
  The runtime does not start in the serial mode.  A process with a process group, asked by its
  environment for groups of one task, fails an assertion in its constructor: \<^verbatim>\<open>monitor_group\<close> is set
  only when there is a monitor.
\<close>

theorem serial_start_aborts:
  assumes "ie_getenv e ''BOP_GroupSize'' = Some v" and "atoi v < 2" and "my_pgrp s > 0"
    and "task_status s = SEQ" and "sync_data s = None" and "monitor_group s = 0"
  shows "BOP_init e s = Aborted AssertFailed"
proof -
  obtain vb where vb: "get_int_from_env (ie_getenv e) ''BOP_Verbose'' 0 6 0 = Inr vb"
    using get_int_from_env_eq [of 0 6] by simp
  have g: "get_int_from_env (ie_getenv e) ''BOP_GroupSize'' 1 100 2 = Inr 1"
    using assms(1,2) get_int_from_env_eq [of 1 100] by simp
  obtain sd where "ppr_group_set_size (ie_status_junk e) 1 (s\<lparr>bop_verbose := vb\<rparr>) =
      Returned () (s\<lparr>bop_verbose := vb, sync_data := Some sd\<rparr>)"
    using ppr_group_set_size_ok [of 1 "s\<lparr>bop_verbose := vb\<rparr>" "ie_status_junk e"] assms(4,5) by auto
  then show ?thesis
    using vb g assms(3,6) by (simp add: BOP_init_def BOP_set_group_size_def lift_res_def seq_def assertion_def in_own_group_def)
qed

theorem serial_start_aborts_witness:
  "BOP_init \<lparr>ie_getenv = (\<lambda>_. Some (decimal 1)), ie_fork = InChild 8, ie_setpgid_fails = False, ie_waitpid_fails = False,
      ie_events = [], ie_status_junk = (\<lambda>_. zero_status), ie_ports = []\<rparr> (program_start (\<lambda>_. 0)) = Aborted AssertFailed"
  by (rule serial_start_aborts [of _ "decimal 1"]) (simp_all add: atoi_decimal program_start_def)



text \<open>
  A task that finds itself outside of the group ends with exit code 0, also when one of its children
  ended badly: the handler that runs at exit reaps no child any more and ends the process itself.
\<close>

theorem outside_group_exits_0:
  assumes "task_status s = SPEC" and "bop_mode s = PARALLEL" and "monitor_process_id s \<noteq> 0"
    and "sync_data s = Some sd" and "sync_ok sd" and "spec_order s = int k" and "partial_size sd \<le> int k"
    and "k < length (sync_status sd)" and "k \<le> 100"
  shows "\<exists>s'. ppr_task_commit pt tcsetpgrp s = Exited 0 s'"
proof -
  obtain s1 where c: "cleanup_children s =
      Returned (of_bool (list_ex bad_child (children s))) (s1\<lparr>children := []\<rparr>)" "same_but_monitoring s s1"
    by (rule cleanup_children_spec)
  let ?t = "s1\<lparr>children := []\<rparr>"
  have t: "task_status ?t = SPEC" "bop_mode ?t = PARALLEL" "sync_data ?t = Some sd" "spec_order ?t = int k"
    "monitor_process_id ?t \<noteq> 0"
    using c(2) assms(1-6) by (auto simp: same_but_monitoring_def)
  have "1 \<le> k" using assms(5,7) by (simp add: sync_ok_def)
  obtain s2 where "BOP_abort_spec ?t = Exited (of_bool (list_ex bad_child (children ?t))) (s2\<lparr>children := []\<rparr>)"
    by (rule abort_spec_by_spec [OF t(1-3) assms(5) t(4) \<open>1 \<le> k\<close> assms(8,9)])
  then have "\<exists>u. exit_with pt tcsetpgrp code ?t = Exited 0 u" for code
    using t(1,5) by (simp add: exit_with_def BOP_fini_def seq_def)
  then show ?thesis
    using assms(4,6,7) c(1)
    by (simp add: ppr_task_commit_def partial_group_get_size_def with_sync_def seq_def sync_data_same) blast
qed

theorem outside_group_exits_0_witness:
  "\<exists>s'. ppr_task_commit no_ports (\<lambda>_. 0) (example_seq\<lparr>task_status := SPEC, spec_order := 1,
      sync_data := Some (example_sync\<lparr>partial_size := 1\<rparr>), children := [(9, WSignaled SIGSEGV)]\<rparr>) = Exited 0 s'"
proof -
  have "sync_ok (example_sync\<lparr>partial_size := 1\<rparr>)" "1 < length (sync_status example_sync)"
    using sync_ok_example by (simp_all add: sync_ok_def)
  then show ?thesis
    by (intro outside_group_exits_0 [where sd = "example_sync\<lparr>partial_size := 1\<rparr>" and k = 1])
      (simp_all add: example_seq_def program_start_def)
qed

end
