(* ===== verification/Protocol.thy ===== *)
theory Protocol
  imports Ppr
begin

text \<open>
  The commit protocol of a group as a state machine: the tasks of the group run \<^verbatim>\<open>ppr_task_commit\<close> of
  \<^verbatim>\<open>bop_ppr.c\<close> side by side on one sync record.  A task is at a stage of that function; a step takes one
  task from one access of the shared record to the next, through the operations of \<open>Sync\<close>, so every
  interleaving of the accesses is a sequence of steps.

  A step has a choice: whether a running task reaches the end of its region (or aborts), and whether
  the ports accept its accesses.  The main task must be accepted.  The data commit between two accesses
  is local to the task and is not part of the state here; \<open>Speculation\<close> is about it.
\<close>

section \<open>Stages\<close>

text \<open>
  \<open>Shrunk\<close> and \<open>Gone\<close> carry whether the task had signalled its check before; \<open>GroupWait\<close> the index of
  the loop of \<^verbatim>\<open>wait_group_commit_done\<close>.
\<close>

datatype stage =
    AtEnd
  | AwaitCheck
  | Checking
  | Failed
  | Shrunk bool
  | Checked
  | Middle
  | DataDone
  | Tail
  | GroupWait nat
  | Committed
  | Gone bool

record group_state =
  gs_sync :: sync_data_t
  gs_stage :: "stage list"

text \<open>A call made by the task of order \<open>k\<close> on the shared record; \<open>None\<close> when it has to wait.\<close>

definition as_task :: "nat \<Rightarrow> sync_data_t \<Rightarrow> bop_state" where
  "as_task k sd = (program_start (\<lambda>_. 0))\<lparr>task_status := (if k = 0 then MAIN else SPEC), spec_order := int k,
     sync_data := Some sd\<rparr>"

definition by_task :: "nat \<Rightarrow> unit bop \<Rightarrow> stage \<Rightarrow> sync_data_t \<Rightarrow> (stage \<times> sync_data_t) option" where
  "by_task k f st sd =
     (case f (as_task k sd) of
        Returned _ s \<Rightarrow> map_option (\<lambda>sd'. (st, sd')) (sync_data s)
      | _ \<Rightarrow> None)"

text \<open>One turn of the loop in \<^verbatim>\<open>wait_group_commit_done\<close>.\<close>

definition acquire_committed :: "nat \<Rightarrow> unit bop" where
  "acquire_committed i = with_sync (with_status (int i) (bop_lock_acquire data_committed set_data_committed))"

fun next_stage :: "bool \<Rightarrow> nat \<Rightarrow> stage \<Rightarrow> sync_data_t \<Rightarrow> (stage \<times> sync_data_t) option" where
  "next_stage c k AtEnd sd =
     (if int k \<ge> partial_size sd then by_task k signal_commit_done (Gone False) sd
      else if c then Some (AwaitCheck, sd)
      else if k = 0 then None
      else by_task k (partial_group_set_size (int k)) (Shrunk False) sd)"
| "next_stage c k AwaitCheck sd =
     (if k = 0 then Some (Checking, sd) else by_task k wait_prior_check_done Checking sd)"
| "next_stage c k Checking sd =
     (if c then by_task k (signal_check_done 1) Checked sd
      else if k = 0 then None
      else by_task k (signal_check_done 0) Failed sd)"
| "next_stage c k Failed sd = by_task k (partial_group_set_size (int k)) (Shrunk True) sd"
| "next_stage c k (Shrunk b) sd = by_task k signal_commit_done (Gone b) sd"
| "next_stage c k Checked sd = Some (if int k < partial_size sd - 1 then Middle else Tail, sd)"
| "next_stage c k Middle sd = by_task k signal_commit_done DataDone sd"
| "next_stage c k DataDone sd = by_task k wait_next_commit_done Tail sd"
| "next_stage c k Tail sd =
     Some (if int k = partial_size sd - 1 \<and> k \<noteq> 0 then GroupWait 0 else Gone True, sd)"
| "next_stage c k (GroupWait i) sd =
     (if int i < partial_size sd - 1 then by_task k (acquire_committed i) (GroupWait (Suc i)) sd
      else Some (Committed, sd))"
| "next_stage c k Committed sd = None"
| "next_stage c k (Gone b) sd = None"

inductive gstep :: "bool \<Rightarrow> group_state \<Rightarrow> group_state \<Rightarrow> bool" where
  task_moves: "k < length (gs_stage g) \<Longrightarrow> next_stage c k (gs_stage g ! k) (gs_sync g) = Some (st, sd) \<Longrightarrow>
    gstep c g \<lparr>gs_sync = sd, gs_stage = (gs_stage g)[k := st]\<rparr>"

inductive_cases gstepE: "gstep c g g'"

text \<open>A group of \<open>n\<close> tasks starts with the sync record that the reset leaves.\<close>

definition group_start :: "nat \<Rightarrow> group_state \<Rightarrow> bool" where
  "group_start n g \<longleftrightarrow> sync_ok (gs_sync g) \<and> fresh_sync (gs_sync g) \<and> group_size (gs_sync g) = int n \<and>
     gs_stage g = replicate n AtEnd"


inductive clean_reach :: "nat \<Rightarrow> group_state \<Rightarrow> bool" for n where
  clean_start: "group_start n g \<Longrightarrow> clean_reach n g"
| clean_step: "clean_reach n g \<Longrightarrow> gstep True g g' \<Longrightarrow> clean_reach n g'"

section \<open>What a step does to the record\<close>

abbreviation status_at :: "sync_data_t \<Rightarrow> nat \<Rightarrow> sync_status_t" where
  "status_at sd k \<equiv> sync_status sd ! k"

lemma as_task_simps [simp]:
  "sync_data (as_task k sd) = Some sd"
  "spec_order (as_task k sd) = int k"
  by (simp_all add: as_task_def)

lemma by_task_eq_Some:
  "by_task k f st sd = Some (st', sd') \<longleftrightarrow> st' = st \<and> (\<exists>s. f (as_task k sd) = Returned () s \<and> sync_data s = Some sd')"
  by (auto simp: by_task_def split: outcome.splits)

lemma by_task_signal_commit:
  assumes "k < length (sync_status sd)"
  shows "by_task k signal_commit_done st sd =
    Some (st, sd\<lparr>sync_status := (sync_status sd)[k := (status_at sd k)\<lparr>data_committed := False\<rparr>]\<rparr>)"
  by (simp add: by_task_def signal_commit_eval [OF _ _ assms])

lemma by_task_signal_check:
  assumes "k < length (sync_status sd)"
  shows "by_task k (signal_check_done p) st sd =
    Some (st, sd\<lparr>sync_status := (sync_status sd)[k := (status_at sd k)\<lparr>spec_correct := p, spec_checked := False\<rparr>]\<rparr>)"
  by (simp add: by_task_def signal_check_eval [OF _ _ assms])

lemma by_task_wait_prior:
  assumes "0 < k" and "k < length (sync_status sd)"
  shows "by_task k wait_prior_check_done st sd =
    (if spec_checked (status_at sd (k - 1)) then None
     else Some (st, sd\<lparr>sync_status := (sync_status sd)[k - 1 := (status_at sd (k - 1))\<lparr>spec_checked := True\<rparr>]\<rparr>))"
  using assms wait_prior_eval [of "as_task k sd" sd "k - 1"] by (simp add: by_task_def)

lemma by_task_wait_next:
  assumes "Suc k < length (sync_status sd)"
  shows "by_task k wait_next_commit_done st sd = (if data_committed (status_at sd (Suc k)) then None else Some (st, sd))"
  by (simp add: by_task_def wait_next_eval [OF _ _ assms])

lemma by_task_acquire:
  assumes "i < length (sync_status sd)"
  shows "by_task k (acquire_committed i) st sd =
    (if data_committed (status_at sd i) then None
     else Some (st, sd\<lparr>sync_status := (sync_status sd)[i := (status_at sd i)\<lparr>data_committed := True\<rparr>]\<rparr>))"
  using assms
  by (simp add: by_task_def acquire_committed_def with_sync_def with_status_def bop_lock_acquire_def set_data_committed_def)

lemma by_task_shrink:
  assumes "0 < k" and "k \<le> 100" and "sync_ok sd"
  shows "by_task k (partial_group_set_size (int k)) st sd =
    Some (st, sd\<lparr>partial_size := min (partial_size sd) (int k)\<rparr>)"
  using assms partial_group_set_size_ok(1) [of "int k" "as_task k sd" sd] by (simp add: by_task_def)

lemmas by_task_eval = by_task_signal_commit by_task_signal_check by_task_wait_prior by_task_wait_next
  by_task_acquire by_task_shrink


section \<open>The checks come in order\<close>

fun signalled :: "stage \<Rightarrow> bool" where
  "signalled AtEnd = False"
| "signalled AwaitCheck = False"
| "signalled Checking = False"
| "signalled (Shrunk b) = b"
| "signalled (Gone b) = b"
| "signalled _ = True"

definition started :: "stage \<Rightarrow> bool" where
  "started st \<longleftrightarrow> st = Checking \<or> signalled st"

definition group_inv :: "nat \<Rightarrow> group_state \<Rightarrow> bool" where
  "group_inv n g \<longleftrightarrow> sync_ok (gs_sync g) \<and> group_size (gs_sync g) = int n \<and> length (gs_stage g) = n \<and>
     (\<forall>k < n. gs_stage g ! k \<in> {Middle, DataDone} \<longrightarrow> Suc k < n) \<and>
     (\<forall>k < n. gs_stage g ! k = Failed \<longrightarrow> 0 < k) \<and>
     (\<forall>k < n. \<not> spec_checked (status_at (gs_sync g) k) \<longrightarrow> signalled (gs_stage g ! k)) \<and>
     (\<forall>k < n. 0 < k \<and> started (gs_stage g ! k) \<longrightarrow> signalled (gs_stage g ! (k - 1)))"

lemma group_inv_sizes:
  assumes "group_inv n g"
  shows "n \<le> length (sync_status (gs_sync g))" "n \<le> 100" "partial_size (gs_sync g) \<le> int n" "1 \<le> n"
  using assms by (auto simp: group_inv_def sync_ok_def)

lemma group_inv_move:
  assumes "group_inv n g" and "k < n" and "sync_ok sd" and "group_size sd = int n"
    and "st \<in> {Middle, DataDone} \<Longrightarrow> Suc k < n" and "st = Failed \<Longrightarrow> 0 < k"
    and "signalled (gs_stage g ! k) \<Longrightarrow> signalled st"
    and "\<And>j. j < n \<Longrightarrow> \<not> spec_checked (status_at sd j) \<Longrightarrow>
      \<not> spec_checked (status_at (gs_sync g) j) \<or> j = k \<and> signalled st"
    and "started st \<Longrightarrow> 0 < k \<Longrightarrow> started (gs_stage g ! k) \<or> signalled (gs_stage g ! (k - 1))"
  shows "group_inv n \<lparr>gs_sync = sd, gs_stage = (gs_stage g)[k := st]\<rparr>"
proof -
  have a: "length (gs_stage g) = n" "\<And>k. k < n \<Longrightarrow> gs_stage g ! k \<in> {Middle, DataDone} \<Longrightarrow> Suc k < n"
    "\<And>k. k < n \<Longrightarrow> gs_stage g ! k = Failed \<Longrightarrow> 0 < k"
    "\<And>k. k < n \<Longrightarrow> \<not> spec_checked (status_at (gs_sync g) k) \<Longrightarrow> signalled (gs_stage g ! k)"
    "\<And>k. k < n \<Longrightarrow> 0 < k \<Longrightarrow> started (gs_stage g ! k) \<Longrightarrow> signalled (gs_stage g ! (k - 1))"
    using assms(1) by (auto simp: group_inv_def)
  have keeps: "signalled ((gs_stage g)[k := st] ! j)" if "signalled (gs_stage g ! j)" "j < n" for j
    using that assms(7) a(1) by (cases "j = k") auto
  have "signalled ((gs_stage g)[k := st] ! (j - 1))" if "j < n" "0 < j" "started ((gs_stage g)[k := st] ! j)" for j
    using that a(1,5) assms(2,9) keeps [of "j - 1"] by (cases "j = k") auto
  moreover have "signalled ((gs_stage g)[k := st] ! j)" if "j < n" "\<not> spec_checked (status_at sd j)" for j
    using assms(8) [OF that] a(1,4) that(1) keeps by auto
  moreover have "Suc j < n" if "j < n" "(gs_stage g)[k := st] ! j \<in> {Middle, DataDone}" for j
    using that a(1,2) assms(5) by (cases "j = k") auto
  moreover have "0 < j" if "j < n" "(gs_stage g)[k := st] ! j = Failed" for j
    using that a(1,3) assms(6) by (cases "j = k") auto
  ultimately show ?thesis using assms(3,4) a(1) by (simp add: group_inv_def)
qed

lemma sync_ok_status [simp]:
  "sync_ok (sd\<lparr>sync_status := (sync_status sd)[k := x]\<rparr>) = sync_ok sd"
  by (simp add: sync_ok_def)

lemma group_inv_step:
  assumes "group_inv n g" and "gstep c g g'"
  shows "group_inv n g'"
  using assms(2)
proof cases
  case (task_moves k st sd)
  have n: "length (gs_stage g) = n" "sync_ok (gs_sync g)" "group_size (gs_sync g) = int n"
    "\<And>k. k < n \<Longrightarrow> \<not> spec_checked (status_at (gs_sync g) k) \<Longrightarrow> signalled (gs_stage g ! k)"
    "\<And>k. k < n \<Longrightarrow> gs_stage g ! k \<in> {Middle, DataDone} \<Longrightarrow> Suc k < n"
    "\<And>k. k < n \<Longrightarrow> gs_stage g ! k = Failed \<Longrightarrow> 0 < k"
    using assms(1) by (auto simp: group_inv_def)
  note sizes = group_inv_sizes [OF assms(1)]
  have k: "k < n" "k < length (sync_status (gs_sync g))" "k \<le> 100" using task_moves(2) n(1) sizes by auto
  have shrink: "sync_ok (gs_sync g\<lparr>partial_size := min (partial_size (gs_sync g)) (int k)\<rparr>)" if "0 < k"
    using n(2) that by (auto simp: sync_ok_def)
  show ?thesis unfolding task_moves(1)
  proof (rule group_inv_move [OF assms(1) k(1)])
    have "Suc k < n \<Longrightarrow> Suc k < length (sync_status (gs_sync g))"
      "\<And>i. int i < partial_size (gs_sync g) - 1 \<Longrightarrow> i < length (sync_status (gs_sync g))" using sizes by auto
    note mv = this task_moves(3) k n(2) n(5,6) [OF k(1)]
    show "sync_ok sd" using mv shrink by (cases "gs_stage g ! k") (auto simp: by_task_eval split: if_splits)
    show "group_size sd = int n" using mv n(3) by (cases "gs_stage g ! k") (auto simp: by_task_eval split: if_splits)
    show "Suc k < n" if "st \<in> {Middle, DataDone}"
      using that mv sizes(3) by (cases "gs_stage g ! k") (auto simp: by_task_eval split: if_splits)
    show "0 < k" if "st = Failed" using that mv by (cases "gs_stage g ! k") (auto simp: by_task_eval split: if_splits)
    show "signalled st" if "signalled (gs_stage g ! k)"
      using that mv by (cases "gs_stage g ! k") (auto simp: by_task_eval split: if_splits)
    show "started (gs_stage g ! k) \<or> signalled (gs_stage g ! (k - 1))" if "started st" "0 < k"
      using that mv n(4) [of "k - 1"]
      by (cases "gs_stage g ! k") (auto simp: by_task_eval started_def split: if_splits)
    show "\<not> spec_checked (status_at (gs_sync g) j) \<or> j = k \<and> signalled st" if "j < n" "\<not> spec_checked (status_at sd j)" for j
      using that mv sizes(1)
      by (cases "gs_stage g ! k") (auto simp: by_task_eval nth_list_update split: if_splits)
  qed
qed


lemma group_inv_start: "group_start n g \<Longrightarrow> group_inv n g"
  by (auto simp: group_start_def group_inv_def fresh_sync_def sync_ok_def started_def)



section \<open>Executions without a failure\<close>

text \<open>A task before the last that has released its commit lock.\<close>

definition handed_over :: "stage \<Rightarrow> bool" where
  "handed_over st \<longleftrightarrow> st \<in> {DataDone, Tail, Gone True}"

fun waits_past :: "stage \<Rightarrow> nat \<Rightarrow> bool" where
  "waits_past (GroupWait i) j = (j < i)"
| "waits_past Committed j = True"
| "waits_past _ j = False"

definition clean_inv :: "nat \<Rightarrow> group_state \<Rightarrow> bool" where
  "clean_inv n g \<longleftrightarrow> group_inv n g \<and> partial_size (gs_sync g) = int n \<and>
     (\<forall>k < n. gs_stage g ! k \<notin> {Failed, Shrunk True, Shrunk False, Gone False}) \<and>
     (\<forall>k < n - 1. \<not> (\<exists>i. gs_stage g ! k = GroupWait i) \<and> gs_stage g ! k \<noteq> Committed) \<and>
     (1 < n \<longrightarrow> gs_stage g ! (n - 1) \<noteq> Gone True) \<and>
     (\<forall>k < n. \<not> data_committed (status_at (gs_sync g) k) \<longrightarrow> k < n - 1 \<and> handed_over (gs_stage g ! k)) \<and>
     (\<forall>k < n - 1. waits_past (gs_stage g ! (n - 1)) k \<longrightarrow> handed_over (gs_stage g ! k)) \<and>
     (\<forall>k < n - 1. handed_over (gs_stage g ! k) \<longrightarrow>
        \<not> data_committed (status_at (gs_sync g) k) \<or> waits_past (gs_stage g ! (n - 1)) k) \<and>
     (\<forall>k < n - 1. signalled (gs_stage g ! k) \<longrightarrow>
        \<not> spec_checked (status_at (gs_sync g) k) \<or> started (gs_stage g ! Suc k))"

lemma clean_inv_start:
  assumes "group_start n g"
  shows "clean_inv n g"
proof -
  have "1 \<le> n" "gs_stage g = replicate n AtEnd" "partial_size (gs_sync g) = int n"
    "n \<le> length (sync_status (gs_sync g))"
    using assms by (auto simp: group_start_def fresh_sync_def sync_ok_def)
  moreover have "data_committed (status_at (gs_sync g) k)" if "k < n" for k
    using that assms calculation(4) by (auto simp: group_start_def fresh_sync_def)
  ultimately show ?thesis using group_inv_start [OF assms]
    by (auto simp: clean_inv_def handed_over_def)
qed

text \<open>What one step changes, as far as the invariant is concerned.\<close>

lemma clean_effect:
  assumes "next_stage True k cur sd = Some (st, sd')" and "k < n" and "n \<le> length (sync_status sd)"
    and "partial_size sd = int n" and "cur \<notin> {Failed, Shrunk True, Shrunk False, Gone False}"
    and "cur \<in> {Middle, DataDone} \<longrightarrow> Suc k < n"
    and "(\<exists>i. cur = GroupWait i) \<or> cur = Committed \<longrightarrow> k = n - 1"
  shows "partial_size sd' = int n \<and> st \<notin> {Failed, Shrunk True, Shrunk False, Gone False}"
    and "(\<exists>i. st = GroupWait i) \<or> st = Committed \<Longrightarrow> k = n - 1"
    and "st = Gone True \<Longrightarrow> \<not> (k = n - 1 \<and> k \<noteq> 0)"
    and "j < n \<Longrightarrow> \<not> data_committed (status_at sd' j) \<Longrightarrow>
      \<not> data_committed (status_at sd j) \<or> j = k \<and> k < n - 1 \<and> handed_over st"
    and "k < n - 1 \<Longrightarrow> handed_over cur \<Longrightarrow> handed_over st"
    and "k < n - 1 \<Longrightarrow> handed_over st \<Longrightarrow> handed_over cur \<or> \<not> data_committed (status_at sd' k)"
    and "j < n - 1 \<Longrightarrow> waits_past st j \<Longrightarrow> waits_past cur j \<or> \<not> data_committed (status_at sd j)"
    and "waits_past cur j \<Longrightarrow> waits_past st j"
    and "j < n \<Longrightarrow> data_committed (status_at sd' j) \<Longrightarrow> data_committed (status_at sd j) \<or> waits_past st j"
    and "j < n \<Longrightarrow> spec_checked (status_at sd' j) \<Longrightarrow> spec_checked (status_at sd j) \<or> k = Suc j \<and> started st"
    and "signalled st \<Longrightarrow> signalled cur \<or> \<not> spec_checked (status_at sd' k)"
    and "started cur \<Longrightarrow> started st"
proof -
  have "k < length (sync_status sd)" "Suc k < n \<Longrightarrow> Suc k < length (sync_status sd)"
    "\<And>i. int i < partial_size sd - 1 \<Longrightarrow> i < length (sync_status sd)" using assms(2-4) by auto
  note mv = this assms
  show "partial_size sd' = int n \<and> st \<notin> {Failed, Shrunk True, Shrunk False, Gone False}"
    using mv by (cases cur) (auto simp: by_task_eval split: if_splits)
  show "(\<exists>i. st = GroupWait i) \<or> st = Committed \<Longrightarrow> k = n - 1"
    using mv by (cases cur) (auto simp: by_task_eval split: if_splits)
  show "st = Gone True \<Longrightarrow> \<not> (k = n - 1 \<and> k \<noteq> 0)"
    using mv by (cases cur) (auto simp: by_task_eval split: if_splits)
  show "j < n \<Longrightarrow> \<not> data_committed (status_at sd' j) \<Longrightarrow>
      \<not> data_committed (status_at sd j) \<or> j = k \<and> k < n - 1 \<and> handed_over st"
    using mv by (cases cur) (auto simp: by_task_eval handed_over_def nth_list_update split: if_splits)
  show "k < n - 1 \<Longrightarrow> handed_over cur \<Longrightarrow> handed_over st"
    using mv by (cases cur) (auto simp: by_task_eval handed_over_def split: if_splits)
  show "k < n - 1 \<Longrightarrow> handed_over st \<Longrightarrow> handed_over cur \<or> \<not> data_committed (status_at sd' k)"
    using mv by (cases cur) (auto simp: by_task_eval handed_over_def split: if_splits)
  show "j < n - 1 \<Longrightarrow> waits_past st j \<Longrightarrow> waits_past cur j \<or> \<not> data_committed (status_at sd j)"
    using mv by (cases cur) (auto simp: by_task_eval less_Suc_eq split: if_splits)
  show "waits_past cur j \<Longrightarrow> waits_past st j"
    using mv by (cases cur) (auto simp: by_task_eval split: if_splits)
  show "j < n \<Longrightarrow> data_committed (status_at sd' j) \<Longrightarrow> data_committed (status_at sd j) \<or> waits_past st j"
    using mv by (cases cur) (auto simp: by_task_eval nth_list_update split: if_splits)
  show "j < n \<Longrightarrow> spec_checked (status_at sd' j) \<Longrightarrow> spec_checked (status_at sd j) \<or> k = Suc j \<and> started st"
    using mv by (cases cur) (auto simp: by_task_eval nth_list_update started_def split: if_splits)
  show "signalled st \<Longrightarrow> signalled cur \<or> \<not> spec_checked (status_at sd' k)"
    using mv by (cases cur) (auto simp: by_task_eval split: if_splits)
  show "started cur \<Longrightarrow> started st"
    using mv by (cases cur) (auto simp: by_task_eval started_def split: if_splits)
qed

lemma clean_inv_step:
  assumes "clean_inv n g" and "gstep True g g'"
  shows "clean_inv n g'"
  using assms(2)
proof cases
  case (task_moves k st sd)
  have gi: "group_inv n g" using assms(1) by (simp add: clean_inv_def)
  note sizes = group_inv_sizes [OF gi]
  have gi': "group_inv n g'" by (rule group_inv_step [OF gi assms(2)])
  have n: "length (gs_stage g) = n" "partial_size (gs_sync g) = int n"
    "\<And>k. k < n \<Longrightarrow> gs_stage g ! k \<in> {Middle, DataDone} \<Longrightarrow> Suc k < n"
    "\<And>k. k < n \<Longrightarrow> gs_stage g ! k \<notin> {Failed, Shrunk True, Shrunk False, Gone False}"
    "\<And>k. k < n - 1 \<Longrightarrow> \<not> (\<exists>i. gs_stage g ! k = GroupWait i) \<and> gs_stage g ! k \<noteq> Committed"
    "1 < n \<Longrightarrow> gs_stage g ! (n - 1) \<noteq> Gone True"
    using assms(1) by (auto simp: clean_inv_def group_inv_def)
  have cm: "\<And>k. k < n \<Longrightarrow> \<not> data_committed (status_at (gs_sync g) k) \<Longrightarrow> k < n - 1 \<and> handed_over (gs_stage g ! k)"
    "\<And>k. k < n - 1 \<Longrightarrow> waits_past (gs_stage g ! (n - 1)) k \<Longrightarrow> handed_over (gs_stage g ! k)"
    "\<And>k. k < n - 1 \<Longrightarrow> handed_over (gs_stage g ! k) \<Longrightarrow>
       \<not> data_committed (status_at (gs_sync g) k) \<or> waits_past (gs_stage g ! (n - 1)) k"
    "\<And>k. k < n - 1 \<Longrightarrow> signalled (gs_stage g ! k) \<Longrightarrow>
       \<not> spec_checked (status_at (gs_sync g) k) \<or> started (gs_stage g ! Suc k)"
    using assms(1) by (simp_all add: clean_inv_def)
  have k: "k < n" using task_moves(2) n(1) by simp
  have "gs_stage g ! k \<in> {Middle, DataDone} \<longrightarrow> Suc k < n"
    "(\<exists>i. gs_stage g ! k = GroupWait i) \<or> gs_stage g ! k = Committed \<longrightarrow> k = n - 1"
    using n(3,5) [of k] k by (cases "k < n - 1"; auto)+
  note ef = clean_effect [OF task_moves(3) k sizes(1) n(2) n(4) [OF k] this]
  have upd: "gs_stage g' ! j = (if j = k then st else gs_stage g ! j)" if "j < n" for j
    using that n(1) by (simp add: task_moves(1))
  have sy: "gs_sync g' = sd" by (simp add: task_moves(1))
  show ?thesis unfolding clean_inv_def sy
  proof (intro conjI allI impI gi')
    show "partial_size sd = int n" using ef(1) by simp
    show "gs_stage g' ! j \<notin> {Failed, Shrunk True, Shrunk False, Gone False}" if "j < n" for j
      using upd [OF that] ef(1) n(4) [OF that] by simp
    show "\<nexists>i. gs_stage g' ! j = GroupWait i" "gs_stage g' ! j \<noteq> Committed" if "j < n - 1" for j
      using upd [of j] ef(2) n(5) [OF that] that by auto
    show "gs_stage g' ! (n - 1) \<noteq> Gone True" if "1 < n"
      using upd [of "n - 1"] ef(3) n(6) [OF that] that by auto
    show "j < n - 1" "handed_over (gs_stage g' ! j)" if "j < n" "\<not> data_committed (status_at sd j)" for j
      using upd [OF that(1)] ef(4) [OF that] ef(5) cm(1) [OF that(1)] by auto
    show "handed_over (gs_stage g' ! j)" if "j < n - 1" "waits_past (gs_stage g' ! (n - 1)) j" for j
      using upd [of j] upd [of "n - 1"] ef(5) ef(7) [of j] cm(1,2) [of j] that by (auto split: if_splits)
    show "\<not> data_committed (status_at sd j) \<or> waits_past (gs_stage g' ! (n - 1)) j"
      if "j < n - 1" "handed_over (gs_stage g' ! j)" for j
    proof -
      have "waits_past st j \<Longrightarrow> k = n - 1" using ef(2) by (cases st) auto
      then show ?thesis
        using upd [of j] upd [of "n - 1"] ef(6) ef(8,9) [of j] cm(3) [of j] that by (auto split: if_splits)
    qed
    show "\<not> spec_checked (status_at sd j) \<or> started (gs_stage g' ! Suc j)"
      if "j < n - 1" "signalled (gs_stage g' ! j)" for j
    proof -
      have j: "j < n" "Suc j < n" using that(1) by simp_all
      show ?thesis using upd [OF j(1)] upd [OF j(2)] ef(10) [OF j(1)] ef(11,12) cm(4) [OF that(1)] that(2)
        by (auto split: if_splits)
    qed
  qed
qed

lemma clean_reach_inv: "clean_reach n g \<Longrightarrow> clean_inv n g"
  by (induction rule: clean_reach.induct) (blast intro: clean_inv_start clean_inv_step)+

text \<open>Every step takes one task further; \<open>L\<close> is the length of the status array, which bounds the last loop.\<close>

fun rank :: "nat \<Rightarrow> stage \<Rightarrow> nat" where
  "rank L AtEnd = 0"
| "rank L AwaitCheck = 1"
| "rank L Checking = 2"
| "rank L Failed = 3"
| "rank L Checked = 3"
| "rank L (Shrunk b) = 4"
| "rank L Middle = 4"
| "rank L DataDone = 5"
| "rank L Tail = 6"
| "rank L (GroupWait i) = 7 + min i L"
| "rank L Committed = 8 + L"
| "rank L (Gone b) = 8 + L"

definition work_left :: "group_state \<Rightarrow> nat" where
  "work_left g = (let L = length (sync_status (gs_sync g)) in (\<Sum>st \<leftarrow> gs_stage g. 8 + L - rank L st))"

lemma length_by_task:
  assumes "by_task k f st sd = Some (st', sd')"
    and "f = signal_commit_done \<or> (\<exists>p. f = signal_check_done p) \<or> f = wait_prior_check_done \<or>
      f = wait_next_commit_done \<or> (\<exists>i. f = acquire_committed i) \<or> (\<exists>p. f = partial_group_set_size p)"
  shows "length (sync_status sd') = length (sync_status sd)"
  using assms(2) assms(1) [unfolded by_task_eq_Some]
  by (elim disjE exE conjE)
    (auto simp: signal_commit_done_def signal_check_done_def wait_prior_check_done_def wait_next_commit_done_def
      acquire_committed_def partial_group_set_size_def sync_simps split: if_splits)

lemma length_next_stage:
  assumes "next_stage c k cur sd = Some (st, sd')"
  shows "length (sync_status sd') = length (sync_status sd)"
  using assms by (cases cur) (auto split: if_splits intro: length_by_task)

lemma acquire_in_range:
  "acquire_committed i (as_task k sd) = Returned () s \<Longrightarrow> i < length (sync_status sd)"
  by (auto simp: acquire_committed_def with_sync_def with_status_def split: outcome.splits if_splits)

lemma rank_grows:
  assumes "next_stage c k cur sd = Some (st, sd')"
  shows "rank (length (sync_status sd)) cur < rank (length (sync_status sd)) st \<and>
    rank (length (sync_status sd)) st \<le> 8 + length (sync_status sd)"
  using assms by (cases cur) (auto simp: by_task_eq_Some dest: acquire_in_range split: if_splits)

lemma work_shrinks:
  assumes "gstep c g g'"
  shows "work_left g' < work_left g"
  using assms
proof cases
  case (task_moves k st sd)
  let ?L = "length (sync_status (gs_sync g))"
  let ?f = "\<lambda>st. 8 + ?L - rank ?L st"
  have L: "length (sync_status sd) = ?L" by (rule length_next_stage [OF task_moves(3)])
  have "?f st < ?f (gs_stage g ! k)" using rank_grows [OF task_moves(3)] by auto
  moreover have "sum_list (map ?f ((gs_stage g)[k := st])) + ?f (gs_stage g ! k) = sum_list (map ?f (gs_stage g)) + ?f st"
    using task_moves(2) sum_list_update [of k "map ?f (gs_stage g)" "?f st"]
      member_le_sum_list [of "?f (gs_stage g ! k)" "map ?f (gs_stage g)"]
    by (simp add: map_update)
  ultimately show ?thesis unfolding task_moves(1) work_left_def by (simp add: L Let_def)
qed

lemma clean_progress:
  assumes "clean_inv n g" and "1 < n" and "gs_stage g ! (n - 1) \<noteq> Committed"
  shows "\<exists>g'. gstep True g g'"
proof (rule ccontr)
  assume stuck: "\<nexists>g'. gstep True g g'"
  have gi: "group_inv n g" using assms(1) by (simp add: clean_inv_def)
  note sizes = group_inv_sizes [OF gi]
  have n: "length (gs_stage g) = n" "partial_size (gs_sync g) = int n" "sync_ok (gs_sync g)"
    using assms(1) by (auto simp: clean_inv_def group_inv_def)
  have no: "next_stage True k (gs_stage g ! k) (gs_sync g) = None" if "k < n" for k
  proof (rule ccontr)
    assume "next_stage True k (gs_stage g ! k) (gs_sync g) \<noteq> None"
    then obtain st sd where "next_stage True k (gs_stage g ! k) (gs_sync g) = Some (st, sd)" by auto
    then show False using stuck task_moves [of k g True st sd] that n(1) by blast
  qed
  have st: "(\<exists>i. gs_stage g ! k = GroupWait i) \<or> gs_stage g ! k \<in> {AwaitCheck, DataDone, Committed, Gone True}"
    if "k < n" for k
    using no [OF that] that n sizes assms(1)
    by (cases "gs_stage g ! k") (auto simp: by_task_eval clean_inv_def)
  have "gs_stage g ! k \<noteq> AwaitCheck" if "k < n" for k
    using that
  proof (induction k)
    case 0
    then show ?case using no [of 0] by auto
  next
    case (Suc k)
    then have "signalled (gs_stage g ! k)" using st [of k] by auto
    then have "\<not> spec_checked (status_at (gs_sync g) k) \<or> started (gs_stage g ! Suc k)"
      using assms(1) Suc.prems by (simp add: clean_inv_def)
    then show ?case using no [OF Suc.prems] Suc.prems sizes(1)
      by (auto simp: by_task_wait_prior started_def)
  qed
  note st' = st this
  have "gs_stage g ! (n - 1) \<noteq> DataDone" "gs_stage g ! (n - 1) \<noteq> Gone True"
  proof -
    have "gs_stage g ! (n - 1) \<in> {Middle, DataDone} \<longrightarrow> Suc (n - 1) < n"
      using gi assms(2) unfolding group_inv_def by (metis diff_less less_trans zero_less_one)
    then show "gs_stage g ! (n - 1) \<noteq> DataDone" using assms(2) by auto
    show "gs_stage g ! (n - 1) \<noteq> Gone True" using assms(1,2) by (simp add: clean_inv_def)
  qed
  then obtain i where i: "gs_stage g ! (n - 1) = GroupWait i" using st' [of "n - 1"] assms(2,3) by auto
  then have lt: "i < n - 1" using no [of "n - 1"] assms(2) n(2) by (auto split: if_splits)
  then have "\<nexists>j. gs_stage g ! i = GroupWait j" "gs_stage g ! i \<noteq> Committed"
    "handed_over (gs_stage g ! i) \<Longrightarrow>
       \<not> data_committed (status_at (gs_sync g) i) \<or> waits_past (gs_stage g ! (n - 1)) i"
    using assms(1) by (simp_all add: clean_inv_def)
  moreover have "(\<exists>j. gs_stage g ! i = GroupWait j) \<or> gs_stage g ! i \<in> {DataDone, Committed, Gone True}"
    using st' [of i] lt by auto
  ultimately have "\<not> data_committed (status_at (gs_sync g) i)" using i by (auto simp: handed_over_def)
  moreover have "int i < int n - 1" "i < length (sync_status (gs_sync g))" using lt sizes(1) by auto
  ultimately show False using no [of "n - 1"] i n(2) assms(2) by (simp add: by_task_acquire)
qed

section \<open>Properties\<close>

definition example_start :: group_state where
  "example_start = \<lparr>gs_sync = example_sync, gs_stage = replicate 3 AtEnd\<rparr>"

lemma example_start_ok: "group_start 3 example_start"
  using sync_ok_example by (simp add: group_start_def example_start_def)









lemma clean_reach_steps: "(gstep True)\<^sup>*\<^sup>* g g' \<Longrightarrow> clean_reach n g \<Longrightarrow> clean_reach n g'"
  by (induction rule: rtranclp_induct) (auto intro: clean_step)

lemma no_infinite_run: "\<nexists>f. \<forall>i. gstep c (f i) (f (Suc i))"
proof
  assume "\<exists>f. \<forall>i. gstep c (f i) (f (Suc i))"
  then obtain f where f: "\<And>i. gstep c (f i) (f (Suc i))" by blast
  have "\<And>i. (f (Suc i), f i) \<in> measure work_left" using work_shrinks [OF f] by simp
  then show False using wf_no_infinite_down_chainE [OF wf_measure] by metis
qed

lemma run_ends: "\<exists>g'. (gstep c)\<^sup>*\<^sup>* g g' \<and> (\<nexists>g''. gstep c g' g'')"
proof (induction "work_left g" arbitrary: g rule: less_induct)
  case less
  show ?case
  proof (cases "\<exists>g1. gstep c g g1")
    case True
    then obtain g1 where g1: "gstep c g g1" by blast
    from less [OF work_shrinks [OF g1]] g1 show ?thesis by (meson converse_rtranclp_into_rtranclp)
  qed blast
qed

text \<open>
  C6: without failures the commit of a group is reached under every schedule: no execution goes on for
  ever, and one that cannot go on has the group committed by its last task, so there is no deadlock.
\<close>

theorem clean_commit_reached:
  assumes "clean_reach n g" and "1 < n"
  shows "(\<nexists>f. f 0 = g \<and> (\<forall>i. gstep True (f i) (f (Suc i))))
    \<and> (\<forall>g'. (gstep True)\<^sup>*\<^sup>* g g' \<and> (\<nexists>g''. gstep True g' g'') \<longrightarrow> gs_stage g' ! (n - 1) = Committed)"
proof (intro conjI allI impI)
  show "\<nexists>f. f 0 = g \<and> (\<forall>i. gstep True (f i) (f (Suc i)))" using no_infinite_run by blast
  fix g'
  assume g': "(gstep True)\<^sup>*\<^sup>* g g' \<and> (\<nexists>g''. gstep True g' g'')"
  then have "clean_reach n g'" using clean_reach_steps assms(1) by blast
  from clean_progress [OF clean_reach_inv [OF this] assms(2)] g'
  show "gs_stage g' ! (n - 1) = Committed" by blast
qed

theorem clean_commit_reached_witness:
  "\<exists>g. (gstep True)\<^sup>*\<^sup>* example_start g \<and> gs_stage g ! 2 = Committed"
proof -
  obtain g where "(gstep True)\<^sup>*\<^sup>* example_start g" "\<nexists>g''. gstep True g g''" using run_ends by blast
  then show ?thesis using clean_commit_reached [OF clean_start [OF example_start_ok]] by force
qed



end
