(* ===== verification/Key_Value.thy ===== *)
theory Key_Value
  imports Merge
begin

text \<open>
  \<^verbatim>\<open>key_value_checks.c\<close>: monitoring of accesses at the level of objects.  Every object keeps, for each
  task of the group, a list of the key and value pairs the task read and one of those it wrote; the
  check compares them.

  A linked list of entries is a list with the newest entry first.  The arrays \<^verbatim>\<open>reads\<close> and \<^verbatim>\<open>writes\<close> of an
  object are \<open>None\<close> when the pointer is null.  Objects are numbered in the order of their creation.
\<close>

section \<open>Data\<close>

datatype mem_op = READ | WRITE | READ_AND_WRITE

text \<open>\<^verbatim>\<open>data_range\<close>: the flag \<^verbatim>\<open>is_simple\<close> tells the variant; the size is the number of bytes copied.\<close>

datatype data_range = Simple int | Complex block

record kv_entry =
  kv_key :: data_range
  kv_value :: data_range

record kv_object =
  kv_reads :: "kv_entry list list option"
  kv_writes :: "kv_entry list list option"

record kv_state =
  kv_bop :: bop_state
  kv_objects :: "kv_object list"
  kv_list :: "nat list"
  kv_lock :: bool
  kv_space :: bool

type_synonym 'a kv = "(kv_state, 'a) prog"

section \<open>Operations\<close>

definition set_kv_lock :: "bool \<Rightarrow> kv_state \<Rightarrow> kv_state" where
  "set_kv_lock v s = s\<lparr>kv_lock := v\<rparr>"

definition get_lock :: "unit kv" where
  "get_lock s = (if kv_lock s then Blocked s else Returned () (s\<lparr>kv_lock := True\<rparr>))"

definition release_lock :: "unit kv" where
  "release_lock s = Returned () (s\<lparr>kv_lock := False\<rparr>)"

text \<open>\<open>push i x arr\<close> puts \<open>x\<close> in front of the list at index \<open>i\<close> of an array.\<close>

definition push :: "int \<Rightarrow> 'a \<Rightarrow> 'a list list option \<Rightarrow> 'a list list option res" where
  "push i x arr =
     (case arr of
        None \<Rightarrow> Inl BadAccess
      | Some xss \<Rightarrow>
        if 0 \<le> i \<and> i < int (length xss) then Inr (Some (xss[nat i := x # xss ! nat i])) else Inl BadAccess)"

definition with_object :: "nat \<Rightarrow> (kv_object \<Rightarrow> kv_object res) \<Rightarrow> unit kv" where
  "with_object obj f s =
     (if obj < length (kv_objects s) then
        case f (kv_objects s ! obj) of
          Inl e \<Rightarrow> Aborted e
        | Inr ob \<Rightarrow> Returned () (s\<lparr>kv_objects := (kv_objects s)[obj := ob]\<rparr>)
      else Aborted BadAccess)"

text \<open>The second branch is reached for \<^verbatim>\<open>WRITE\<close> only; the copy it would make for \<^verbatim>\<open>READ_AND_WRITE\<close> never is.\<close>

definition record_internal :: "nat \<Rightarrow> mem_op \<Rightarrow> kv_entry \<Rightarrow> unit kv" where
  "record_internal obj op new_entry =
     seq get_lock (\<lambda>_.
     seq (assertion (\<lambda>s. spec_order (kv_bop s) > 0 \<and> spec_order (kv_bop s) < BOP_get_group_size (kv_bop s))) (\<lambda>_.
     seq (\<lambda>s.
       let i = spec_order (kv_bop s) in
       if op = READ \<or> op = READ_AND_WRITE then
         with_object obj (\<lambda>ob. res_bind (push i new_entry (kv_reads ob)) (\<lambda>rs. Inr (ob\<lparr>kv_reads := rs\<rparr>))) s
       else
         with_object obj (\<lambda>ob. res_bind (push i new_entry (kv_writes ob)) (\<lambda>ws. Inr (ob\<lparr>kv_writes := ws\<rparr>))) s)
       (\<lambda>_. release_lock)))"

fun data_range_eq :: "data_range \<Rightarrow> data_range \<Rightarrow> bool" where
  "data_range_eq (Simple x) (Simple y) = (x = y)"
| "data_range_eq (Complex xs) (Complex ys) =
     (length xs = length ys \<and> list_all (\<lambda>i. xs ! i = ys ! i) [0 ..< length xs])"
| "data_range_eq _ _ = False"

definition entry_conflicts :: "kv_entry \<Rightarrow> kv_entry \<Rightarrow> bool" where
  "entry_conflicts read write \<longleftrightarrow>
     data_range_eq (kv_key read) (kv_key write) \<and> \<not> data_range_eq (kv_value read) (kv_value write)"

text \<open>
  The loops of \<^verbatim>\<open>obj_correct\<close>, from the inside out: the entries written by one task, the later tasks, the
  entries read by one task, the tasks, the objects.  Each returns whether a conflict was found.
\<close>

definition slot :: "int \<Rightarrow> 'a list list option \<Rightarrow> 'a list res" where
  "slot i arr =
     (case arr of
        None \<Rightarrow> Inl BadAccess
      | Some xss \<Rightarrow> if 0 \<le> i \<and> i < int (length xss) then Inr (xss ! nat i) else Inl BadAccess)"

fun any_res :: "('a \<Rightarrow> bool res) \<Rightarrow> 'a list \<Rightarrow> bool res" where
  "any_res f [] = Inr False"
| "any_res f (x # xs) = res_bind (f x) (\<lambda>b. if b then Inr True else any_res f xs)"

definition read_conflicts :: "kv_object \<Rightarrow> int \<Rightarrow> int \<Rightarrow> kv_entry \<Rightarrow> bool res" where
  "read_conflicts ob gs r rd =
     any_res (\<lambda>w. res_bind (slot w (kv_writes ob)) (\<lambda>wds. Inr (list_ex (entry_conflicts rd) wds))) [r + 1 .. gs - 1]"

definition object_conflicts :: "kv_object \<Rightarrow> int \<Rightarrow> bool res" where
  "object_conflicts ob gs =
     any_res (\<lambda>r. res_bind (slot r (kv_reads ob)) (any_res (read_conflicts ob gs r))) [0 .. gs - 1]"

definition obj_correct :: "int kv" where
  "obj_correct =
     lift_res (\<lambda>s.
       let gs = BOP_get_group_size (kv_bop s) in
       res_bind (any_res (\<lambda>o'. if o' < length (kv_objects s) then object_conflicts (kv_objects s ! o') gs else Inl BadAccess)
           (kv_list s))
         (\<lambda>conflict. Inr (if conflict then 0 else 1)))"

definition init_obj_lock :: "unit kv" where
  "init_obj_lock s = Returned () (s\<lparr>kv_lock := False\<rparr>)"

definition init_mspace :: "unit kv" where
  "init_mspace s = Returned () (s\<lparr>kv_space := True\<rparr>)"

definition obj_marking_init :: "unit kv" where
  "obj_marking_init = seq init_obj_lock (\<lambda>_. init_mspace)"

definition obj_marking_teardown :: "unit kv" where
  "obj_marking_teardown s = Returned () (s\<lparr>kv_lock := False, kv_space := True\<rparr>)"

text \<open>\<^verbatim>\<open>mspace_calloc\<close> leaves both arrays null.\<close>

definition register_new_object :: "nat kv" where
  "register_new_object =
     seq init_mspace (\<lambda>_ s.
       let kvo = length (kv_objects s) in
       Returned kvo (s\<lparr>kv_objects := kv_objects s @ [\<lparr>kv_reads = None, kv_writes = None\<rparr>],
                       kv_list := kvo # kv_list s\<rparr>))"

text \<open>
  The recording functions.  They allocate the entry, and the copies of complex data, from the space of
  the module; strings are given without their end.
\<close>

definition alloc_entry :: "unit kv" where
  "alloc_entry s = (if kv_space s then Returned () s else Aborted BadAccess)"

definition complex_data :: "block \<Rightarrow> data_range" where
  "complex_data dat = Complex dat"

definition simple_data :: "int \<Rightarrow> data_range" where
  "simple_data num = Simple num"

definition record_str_pr :: "nat \<Rightarrow> mem_op \<Rightarrow> block \<Rightarrow> block \<Rightarrow> unit kv" where
  "record_str_pr obj op k v =
     seq alloc_entry (\<lambda>_. record_internal obj op \<lparr>kv_key = complex_data k, kv_value = complex_data v\<rparr>)"

definition record_array :: "nat \<Rightarrow> mem_op \<Rightarrow> addr_t \<Rightarrow> int \<Rightarrow> size_t \<Rightarrow> unit kv" where
  "record_array obj op ary index array_data_size =
     seq alloc_entry (\<lambda>_ s.
       let value = ary + of_int index * array_data_size in
       record_internal obj op \<lparr>kv_key = simple_data index,
         kv_value = complex_data (read_mem (mem (kv_bop s)) value (unat array_data_size))\<rparr> s)"

definition record_str_array :: "nat \<Rightarrow> mem_op \<Rightarrow> int \<Rightarrow> block \<Rightarrow> unit kv" where
  "record_str_array obj op ind v =
     seq alloc_entry (\<lambda>_. record_internal obj op \<lparr>kv_key = simple_data ind, kv_value = complex_data v\<rparr>)"

definition record_int_pair :: "nat \<Rightarrow> mem_op \<Rightarrow> int \<Rightarrow> int \<Rightarrow> unit kv" where
  "record_int_pair obj op ind v =
     seq alloc_entry (\<lambda>_. record_internal obj op \<lparr>kv_key = simple_data ind, kv_value = simple_data v\<rparr>)"

definition record_int_array :: "nat \<Rightarrow> mem_op \<Rightarrow> int \<Rightarrow> int list \<Rightarrow> unit kv" where
  "record_int_array obj op ind ary =
     (if 0 \<le> ind \<and> ind < int (length ary) then record_int_pair obj op ind (ary ! nat ind)
      else (\<lambda>_. Aborted BadAccess))"

definition object_rw_port :: "kv_state bop_port_t" where
  "object_rw_port = \<lparr>p_ppr_group_init = Some obj_marking_init, p_ppr_task_init = None,
     p_ppr_check_correctness = Some obj_correct, p_report_conflict = None, p_data_commit = None,
     p_task_group_commit = None, p_task_group_succ_fini = None, p_undy_init = None,
     p_undy_succ_fini = None, p_on_enter_ordered = None, p_on_exit_ordered = None,
     p_on_main_complete = None\<rparr>"

section \<open>The check\<close>




definition reads_of :: "kv_object \<Rightarrow> int \<Rightarrow> kv_entry set" where
  "reads_of ob r = (case kv_reads ob of None \<Rightarrow> {} | Some rs \<Rightarrow> set (rs ! nat r))"

definition writes_of :: "kv_object \<Rightarrow> int \<Rightarrow> kv_entry set" where
  "writes_of ob w = (case kv_writes ob of None \<Rightarrow> {} | Some ws \<Rightarrow> set (ws ! nat w))"

text \<open>Task \<open>r\<close> read a value for a key for which the later task \<open>w\<close> wrote another value.\<close>

definition conflict :: "int \<Rightarrow> kv_object \<Rightarrow> bool" where
  "conflict gs ob \<longleftrightarrow> (\<exists>r w. 0 \<le> r \<and> r < w \<and> w < gs \<and>
     (\<exists>rd \<in> reads_of ob r. \<exists>wr \<in> writes_of ob w. kv_key rd = kv_key wr \<and> kv_value rd \<noteq> kv_value wr))"


section \<open>Properties\<close>


definition example_kv :: "kv_entry list list \<Rightarrow> kv_entry list list \<Rightarrow> kv_state" where
  "example_kv rs ws = \<lparr>kv_bop = example_group\<lparr>spec_order := 1\<rparr>, kv_objects = [\<lparr>kv_reads = Some rs, kv_writes = Some ws\<rparr>],
     kv_list = [0], kv_lock = False, kv_space = True\<rparr>"


text \<open>
  A new object cannot be used: its arrays are never allocated, so the first access that is recorded
  for it, by a task of a group and with the lock free, goes through a null pointer.
\<close>

theorem new_object_unusable:
  assumes "\<not> kv_lock s" and "0 < spec_order (kv_bop s)" and "spec_order (kv_bop s) < BOP_get_group_size (kv_bop s)"
  shows "seq register_new_object (\<lambda>obj. record_int_pair obj op ind v) s = Aborted BadAccess"
  using assms
  by (simp add: register_new_object_def init_mspace_def record_int_pair_def alloc_entry_def record_internal_def
    get_lock_def assertion_def seq_def Let_def with_object_def push_def)

theorem new_object_unusable_witness:
  "seq register_new_object (\<lambda>obj. record_int_pair obj WRITE 1 2) (example_kv [] []) = Aborted BadAccess"
  by (rule new_object_unusable)
    (use sync_ok_example(3) in \<open>simp_all add: example_kv_def BOP_get_group_size_def ppr_group_get_size_def example_group_def\<close>)

end
