(* ===== verification/Ary_Bitmap.thy ===== *)
theory Ary_Bitmap
  imports Merge
begin

text \<open>
  \<^verbatim>\<open>ary_bitmap.c\<close>: arrays that carry two bit maps behind their elements, one for the elements a task
  uses and one for those it modifies; a scan of the maps turns the bits into records of the read
  and write sets.  Also \<^verbatim>\<open>memmove\<close> of \<^verbatim>\<open>libc_overrides.c\<close>.

  Lengths and indices are 32-bit words and wrap as in the sources; a bit map is an array of 32-bit
  words in memory, little endian.  \<^verbatim>\<open>malloc\<close> and \<^verbatim>\<open>realloc\<close> are arguments.
\<close>

section \<open>Words in memory\<close>

definition load32 :: "memory \<Rightarrow> addr_t \<Rightarrow> uint" where
  "load32 m a = ucast (m a) OR push_bit 8 (ucast (m (a + 1))) OR push_bit 16 (ucast (m (a + 2))) OR
     push_bit 24 (ucast (m (a + 3)))"

definition store32 :: "addr_t \<Rightarrow> uint \<Rightarrow> memory \<Rightarrow> memory" where
  "store32 a w m = write_mem m a [ucast w, ucast (drop_bit 8 w), ucast (drop_bit 16 w), ucast (drop_bit 24 w)]"

section \<open>Operations\<close>

definition ary_map_entries :: "uint \<Rightarrow> uint" where
  "ary_map_entries ary_size = drop_bit 5 ary_size + (if ary_size AND 0x1F \<noteq> 0 then 1 else 0)"

definition get_ary_use_map :: "addr_t \<Rightarrow> uint \<Rightarrow> uint \<Rightarrow> addr_t" where
  "get_ary_use_map bs len elem_size = bs + ucast (elem_size * len)"

definition get_ary_mod_map :: "addr_t \<Rightarrow> uint \<Rightarrow> uint \<Rightarrow> addr_t" where
  "get_ary_mod_map bs len elem_size = bs + ucast (elem_size * len) + ucast (ary_map_entries len) * 4"

definition ary_maps_reset :: "addr_t \<Rightarrow> uint \<Rightarrow> uint \<Rightarrow> unit bop" where
  "ary_maps_reset bs len elem_size =
     (let maps_base = get_ary_use_map bs len elem_size;
          n = ucast (ary_map_entries len) * 2 * 4 :: size_t in
      seq (\<lambda>s. Returned () (s\<lparr>mem := write_mem (mem s) maps_base (replicate (unat n) 0)\<rparr>))
        (\<lambda>_. BOP_record_write maps_base n))"

definition ary_malloc_with_map :: "(size_t \<Rightarrow> addr_t bop) \<Rightarrow> uint \<Rightarrow> uint \<Rightarrow> addr_t bop" where
  "ary_malloc_with_map malloc len elem_size =
     seq (malloc (ucast (len * elem_size) + ucast (ary_map_entries len) * 4 * 2)) (\<lambda>ary.
     seq (ary_maps_reset ary len elem_size) (\<lambda>_. ret ary))"

definition ary_realloc_with_map :: "(addr_t \<Rightarrow> size_t \<Rightarrow> addr_t bop) \<Rightarrow> addr_t \<Rightarrow> uint \<Rightarrow> uint \<Rightarrow> addr_t bop" where
  "ary_realloc_with_map realloc old new_len elem_size =
     seq (realloc old (ucast (new_len * elem_size) + ucast (ary_map_entries new_len) * 4 * 2)) (\<lambda>ary.
     seq (ary_maps_reset ary new_len elem_size) (\<lambda>_. ret ary))"

definition mark_bit :: "addr_t \<Rightarrow> uint \<Rightarrow> memory \<Rightarrow> memory" where
  "mark_bit bmap idx m =
     (let word_idx = drop_bit 5 idx;
          offset = idx AND 0x1F;
          a = bmap + 4 * ucast word_idx
      in store32 a (load32 m a OR push_bit (unat offset) 1) m)"

definition ary_use_elem :: "addr_t \<Rightarrow> uint \<Rightarrow> uint \<Rightarrow> uint \<Rightarrow> unit bop" where
  "ary_use_elem bs len elem_size idx s =
     Returned () (s\<lparr>mem := mark_bit (get_ary_use_map bs len elem_size) idx (mem s)\<rparr>)"

definition ary_promise_elem :: "addr_t \<Rightarrow> uint \<Rightarrow> uint \<Rightarrow> uint \<Rightarrow> unit bop" where
  "ary_promise_elem bs len elem_size idx s =
     Returned () (s\<lparr>mem := mark_bit (get_ary_mod_map bs len elem_size) idx (mem s)\<rparr>)"

text \<open>The body of the outer loop of \<^verbatim>\<open>scan_one_map\<close>, for the word with index \<open>i\<close>, and the loop.\<close>

definition scan_word :: "addr_t \<Rightarrow> uint \<Rightarrow> addr_t \<Rightarrow> (addr_t \<Rightarrow> size_t \<Rightarrow> unit bop) \<Rightarrow> nat \<Rightarrow> unit bop" where
  "scan_word bs elem_size bmap bop_mon i s =
     (let w = load32 (mem s) (bmap + 4 * of_nat i);
          idx = push_bit 5 (of_nat i) :: uint in
      seq_all (map (\<lambda>j. if drop_bit j w AND 1 \<noteq> 0
                          then bop_mon (bs + ucast ((idx + of_nat j) * elem_size)) (ucast elem_size)
                          else ret ()) [0 ..< 32]) s)"

definition scan_one_map :: "addr_t \<Rightarrow> uint \<Rightarrow> uint \<Rightarrow> addr_t \<Rightarrow> (addr_t \<Rightarrow> size_t \<Rightarrow> unit bop) \<Rightarrow> unit bop" where
  "scan_one_map bs len elem_size bmap bop_mon =
     seq_all (map (scan_word bs elem_size bmap bop_mon) [0 ..< unat (ary_map_entries len)])"

definition scan_ary_maps :: "addr_t \<Rightarrow> uint \<Rightarrow> uint \<Rightarrow> unit bop" where
  "scan_ary_maps bs len elem_size =
     seq (scan_one_map bs len elem_size (get_ary_use_map bs len elem_size) BOP_record_read)
       (\<lambda>_. scan_one_map bs len elem_size (get_ary_mod_map bs len elem_size) BOP_record_write)"

text \<open>\<^verbatim>\<open>memmove\<close>: through a holder, then recorded as a write.\<close>

definition memmove_rec :: "addr_t \<Rightarrow> addr_t \<Rightarrow> size_t \<Rightarrow> addr_t bop" where
  "memmove_rec dest source n =
     seq (\<lambda>s. Returned () (s\<lparr>mem := write_mem (mem s) dest (read_mem (mem s) source (unat n))\<rparr>))
       (\<lambda>_. seq (BOP_record_write dest n) (\<lambda>_. ret dest))"

section \<open>Bits of a map\<close>

definition marked :: "addr_t \<Rightarrow> memory \<Rightarrow> nat \<Rightarrow> bool" where
  "marked bmap m k \<longleftrightarrow> bit (m (bmap + of_nat (k div 8))) (k mod 8)"

lemma bit_load32:
  assumes "j < 32"
  shows "bit (load32 m a) j = bit (m (a + of_nat (j div 8))) (j mod 8)"
proof -
  consider "j < 8" | "8 \<le> j" "j < 16" | "16 \<le> j" "j < 24" | "24 \<le> j" using assms by linarith
  then show ?thesis
  proof cases
    case 1
    then show ?thesis by (simp add: load32_def bit_simps)
  next
    case 2
    then have "j div 8 = 1" "j mod 8 = j - 8" by (simp_all add: mod_if)
    with 2 show ?thesis by (auto simp: load32_def bit_simps dest: bit_imp_le_length)
  next
    case 3
    then have "j div 8 = 2" "j mod 8 = j - 16" by (simp_all add: mod_if)
    with 3 show ?thesis by (auto simp: load32_def bit_simps dest: bit_imp_le_length)
  next
    case 4
    with assms have "j div 8 = 3" "j mod 8 = j - 24" by (simp_all add: mod_if)
    with 4 assms show ?thesis by (auto simp: load32_def bit_simps dest: bit_imp_le_length)
  qed
qed

lemma word_offset_less:
  assumes "x < 2 ^ 60" and "y < 2 ^ 60"
  shows "unat ((b :: addr_t) + of_nat x - (b + of_nat y)) < 4 \<longleftrightarrow> y \<le> x \<and> x < y + 4"
    and "y \<le> x \<Longrightarrow> unat ((b :: addr_t) + of_nat x - (b + of_nat y)) = x - y"
proof -
  have d: "b + of_nat x - (b + of_nat y) = (of_nat x - of_nat y :: addr_t)" by simp
  have u: "unat (of_nat x :: addr_t) = x" "unat (of_nat y :: addr_t) = y"
    using assms by (simp_all add: unat_of_nat take_bit_eq_mod)
  show "unat (b + of_nat x - (b + of_nat y)) < 4 \<longleftrightarrow> y \<le> x \<and> x < y + 4"
    using assms unfolding d unat_sub_if' u by auto
  show "unat (b + of_nat x - (b + of_nat y)) = x - y" if "y \<le> x"
    using assms that unfolding d unat_sub_if' u by auto
qed

lemma bit_nth_byte:
  fixes w :: uint
  assumes "i < 4" and "j < 8"
  shows "bit ([ucast w, ucast (drop_bit 8 w), ucast (drop_bit 16 w), ucast (drop_bit 24 w)] ! i :: byte) j = bit w (8 * i + j)"
proof -
  have "i = 0 \<or> i = 1 \<or> i = 2 \<or> i = 3" using assms(1) by linarith
  then show ?thesis using assms(2) by (elim disjE) (simp_all add: bit_simps ac_simps)
qed

lemma marked_store32:
  assumes "k < 2 ^ 60" and "q < 2 ^ 55"
  shows "marked bmap (store32 (bmap + of_nat (4 * q)) w m) k =
    (if k div 32 = q then bit w (k mod 32) else marked bmap m k)"
proof -
  let ?x = "k div 8"
  have b: "?x < 2 ^ 60" "4 * q < 2 ^ 60" using assms by auto
  have c: "(4 * q \<le> ?x \<and> ?x < 4 * q + 4) = (k div 32 = q)" by auto
  have "8 * (k div 8 - 4 * (k div 32)) + k mod 8 = k mod 32"
  proof -
    have "k div 32 = k div 8 div 4" by (simp add: div_mult2_eq [symmetric])
    then have "k div 8 - 4 * (k div 32) = k div 8 mod 4" by (simp add: minus_mult_div_eq_mod)
    then show ?thesis using mod_mult2_eq [of k 8 4] by simp
  qed
  then have "8 * (?x - 4 * q) + k mod 8 = k mod 32" if "k div 32 = q" using that by simp
  moreover have "4 * q \<le> ?x" "?x - 4 * q < 4" if "k div 32 = q" using that by auto
  moreover define L :: block where "L = [ucast w, ucast (drop_bit 8 w), ucast (drop_bit 16 w), ucast (drop_bit 24 w)]"
  moreover have "length L = 4" by (simp add: L_def)
  ultimately show ?thesis
    using word_offset_less [OF b, of bmap] c bit_nth_byte [of "?x - 4 * q" "k mod 8" w]
    unfolding marked_def store32_def write_mem_def L_def [symmetric] by simp
qed

lemma load32_marked:
  assumes "j < 32"
  shows "bit (load32 m (bmap + of_nat (4 * q))) j = marked bmap m (32 * q + j)"
proof -
  have "(32 * q + j) div 8 = 4 * q + j div 8" "(32 * q + j) mod 8 = j mod 8" by presburger+
  then show ?thesis using bit_load32 [OF assms, of m "bmap + of_nat (4 * q)"]
    by (simp add: marked_def add.assoc)
qed

lemma low_bits: "unat (idx AND 0x1F :: uint) = unat idx mod 32"
proof -
  have "idx AND 0x1F = take_bit 5 idx" by (simp add: take_bit_eq_mask mask_eq_exp_minus_1)
  then show ?thesis by (simp add: take_bit_eq_mod unat_mod_distrib)
qed

lemma div_mod_32: "(k :: nat) = 32 * n + i \<longleftrightarrow> k div 32 = n + i div 32 \<and> k mod 32 = i mod 32"
proof
  assume "k div 32 = n + i div 32 \<and> k mod 32 = i mod 32"
  then show "k = 32 * n + i" using div_mult_mod_eq [of k 32] div_mult_mod_eq [of i 32] by linarith
qed simp

lemma high_bits: "(ucast (drop_bit 5 (idx :: uint)) :: addr_t) = of_nat (unat idx div 32)"
proof -
  have "unat (drop_bit 5 idx) = unat idx div 32" by (simp add: drop_bit_eq_div unat_div_distrib)
  then show ?thesis by (metis of_nat_unat)
qed

text \<open>
  Marking an element sets its bit and no other; bits are counted from the start of the first of two
  adjacent maps.
\<close>

lemma mark_bit_marked:
  assumes "k < 2 ^ 60" and "n < 2 ^ 50"
  shows "marked bmap (mark_bit (bmap + of_nat (4 * n)) idx m) k \<longleftrightarrow> k = 32 * n + unat idx \<or> marked bmap m k"
proof -
  let ?q = "n + unat idx div 32"
  have q: "bmap + of_nat (4 * n) + 4 * ucast (drop_bit 5 idx) = bmap + of_nat (4 * ?q)"
    by (simp add: high_bits algebra_simps)
  have "unat idx < 2 ^ 32" using unsigned_less [of idx] by simp
  then have "?q < 2 ^ 55" using assms(2) by (simp add: div_less_dividend)
  note st = marked_store32 [OF assms(1) this]
  have "k = 32 * ?q + k mod 32" if "k div 32 = ?q" using div_mult_mod_eq [of k 32] unfolding that by simp
  then have "bit (load32 m (bmap + of_nat (4 * ?q)) OR push_bit (unat idx mod 32) 1) (k mod 32) =
      (marked bmap m k \<or> k mod 32 = unat idx mod 32)" if "k div 32 = ?q"
    using that load32_marked [of "k mod 32" m bmap ?q] by (auto simp: bit_simps)
  then show ?thesis unfolding mark_bit_def Let_def low_bits q st div_mod_32 by auto
qed

section \<open>Scanning\<close>

text \<open>Where an element lies, and the calls a scan makes for the elements marked in a map.\<close>

definition elem_addr :: "addr_t \<Rightarrow> uint \<Rightarrow> nat \<Rightarrow> addr_t" where
  "elem_addr bs elem_size k = bs + ucast (of_nat k * elem_size)"

definition calls :: "addr_t \<Rightarrow> uint \<Rightarrow> (addr_t \<Rightarrow> size_t \<Rightarrow> unit bop) \<Rightarrow> nat list \<Rightarrow> unit bop" where
  "calls bs elem_size mon ks = seq_all (map (\<lambda>k. mon (elem_addr bs elem_size k) (ucast elem_size)) ks)"

lemma seq_all_filter:
  "seq_all (map (\<lambda>j. if P j then f j else ret ()) js) s = seq_all (map f (filter P js)) s"
proof (induction js arbitrary: s)
  case Nil
  then show ?case by simp
next
  case (Cons j js)
  then show ?case by (cases "f j s") simp_all
qed

lemma test_bit: "drop_bit j w AND 1 \<noteq> 0 \<longleftrightarrow> bit (w :: uint) j"
  by (simp add: and_one_eq bit_iff_odd_drop_bit mod_2_eq_odd)

lemma index_word: "push_bit 5 (of_nat i) + of_nat j = (of_nat (32 * i + j) :: uint)"
  by (simp add: push_bit_eq_mult)

lemma scan_word_calls:
  "scan_word bs es bmap mon i s = calls bs es mon (filter (marked bmap (mem s)) [32 * i ..< 32 * i + 32]) s"
proof -
  have up: "[32 * i ..< 32 * i + 32] = map (\<lambda>j. 32 * i + j) [0 ..< 32]"
    by (simp add: map_add_upt add.commute)
  have "filter (\<lambda>j. bit (load32 (mem s) (bmap + 4 * of_nat i)) j) [0 ..< 32] =
      filter (marked bmap (mem s) \<circ> (\<lambda>j. 32 * i + j)) [0 ..< 32]"
    by (rule filter_cong) (use load32_marked [of _ "mem s" bmap i] in auto)
  then show ?thesis
    unfolding scan_word_def Let_def test_bit seq_all_filter index_word calls_def elem_addr_def up filter_map
    by (simp add: comp_def)
qed

definition keeps_mem :: "(addr_t \<Rightarrow> size_t \<Rightarrow> unit bop) \<Rightarrow> bool" where
  "keeps_mem mon \<longleftrightarrow> (\<forall>a n s s'. mon a n s = Returned () s' \<longrightarrow> mem s' = mem s)"

lemma record_keeps_mem [simp]: "keeps_mem BOP_record_read" "keeps_mem BOP_record_write"
  by (auto simp: keeps_mem_def BOP_record_read_def BOP_record_write_def Let_def split: if_splits sum.splits)

lemma calls_keep_mem:
  assumes "keeps_mem mon" and "calls bs es mon ks s = Returned () s'"
  shows "mem s' = mem s"
  using assms(2)
proof (induction ks arbitrary: s)
  case Nil
  then show ?case by (simp add: calls_def)
next
  case (Cons k ks)
  then obtain t where "mon (elem_addr bs es k) (ucast es) s = Returned () t" "calls bs es mon ks t = Returned () s'"
    by (auto simp: calls_def)
  with Cons.IH assms(1) show ?case by (metis keeps_mem_def)
qed

lemma calls_append: "calls bs es mon (ks @ ls) s = seq (calls bs es mon ks) (\<lambda>_. calls bs es mon ls) s"
  by (simp add: calls_def seq_all_append)

lemma scan_one_map_calls:
  assumes "keeps_mem mon"
  shows "scan_one_map bs len es bmap mon s =
    calls bs es mon (filter (marked bmap (mem s)) [0 ..< 32 * unat (ary_map_entries len)]) s"
proof -
  have "seq_all (map (scan_word bs es bmap mon) [0 ..< n]) s =
      calls bs es mon (filter (marked bmap (mem s)) [0 ..< 32 * n]) s" for n
  proof (induction n)
    case 0
    then show ?case by (simp add: calls_def)
  next
    case (Suc n)
    let ?p = "calls bs es mon (filter (marked bmap (mem s)) [0 ..< 32 * n])"
    have up: "[0 ..< 32 * Suc n] = [0 ..< 32 * n] @ [32 * n ..< 32 * n + 32]"
      using upt_add_eq_append [of 0 "32 * n" 32] by (simp add: add.commute)
    have "seq ?p (\<lambda>_. seq_all [scan_word bs es bmap mon n]) s =
        seq ?p (\<lambda>_. calls bs es mon (filter (marked bmap (mem s)) [32 * n ..< 32 * n + 32])) s"
    proof (cases "?p s")
      case (Returned u t)
      then have "mem t = mem s" using calls_keep_mem [OF assms, of bs es _ s t] by simp
      moreover have "seq_all [scan_word bs es bmap mon n] t = scan_word bs es bmap mon n t"
        by (cases "scan_word bs es bmap mon n t") simp_all
      ultimately show ?thesis using Returned by (simp add: scan_word_calls)
    qed simp_all
    then show ?case unfolding up filter_append calls_append
      by (cases "?p s") (simp_all add: seq_all_append Suc.IH seq_def)
  qed
  then show ?thesis by (simp add: scan_one_map_def)
qed

lemma ceil_div_32: "((x :: nat) + 31) div 32 = x div 32 + (if x mod 32 \<noteq> 0 then 1 else 0)"
proof -
  define q r where "q = x div 32" and "r = x mod 32"
  then have x: "x = 32 * q + r" "r < 32" by simp_all
  then have "(x + 31) div 32 = q + (r + 31) div 32" by simp
  moreover have "(r + 31) div 32 = (if r \<noteq> 0 then 1 else 0)" using x(2) by (auto simp: div_if)
  ultimately show ?thesis by (simp add: q_def [symmetric] r_def [symmetric])
qed

lemma ary_map_entries_eq: "unat (ary_map_entries len) = (unat len + 31) div 32"
proof -
  have l: "unat len < 2 ^ 32" using unsigned_less [of len] by simp
  have d: "unat (drop_bit 5 len) = unat len div 32" by (simp add: drop_bit_eq_div unat_div_distrib)
  have z: "(len AND 0x1F \<noteq> 0) = (unat len mod 32 \<noteq> 0)" using low_bits [of len] by (metis unat_eq_zero)
  have "(unat len + 31) div 32 = unat len div 32 + (if unat len mod 32 \<noteq> 0 then 1 else 0)"
    by (rule ceil_div_32)
  moreover have "unat (drop_bit 5 len + 1) = unat (drop_bit 5 len) + 1"
    using l by (subst unat_word_ariths) (simp add: d)
  ultimately show ?thesis unfolding ary_map_entries_def z by (simp add: d)
qed

text \<open>The program that marks elements, for use (\<open>False\<close>) or for modification (\<open>True\<close>).\<close>

definition mark_elem :: "addr_t \<Rightarrow> uint \<Rightarrow> uint \<Rightarrow> bool \<times> uint \<Rightarrow> unit bop" where
  "mark_elem bs len es op = (if fst op then ary_promise_elem else ary_use_elem) bs len es (snd op)"

lemma mark_elems:
  assumes "n = unat (ary_map_entries len)" and "bmap = get_ary_use_map bs len es"
    and "\<forall>op \<in> set ops. snd op < len"
  shows "\<exists>s'. seq_all (map (mark_elem bs len es) ops) s = Returned () s' \<and>
    (\<forall>k < 2 ^ 60. marked bmap (mem s') k \<longleftrightarrow>
       marked bmap (mem s) k \<or> (\<exists>(md, i) \<in> set ops. k = (if md then 32 * n else 0) + unat i))"
  using assms(3)
proof (induction ops arbitrary: s)
  case Nil
  then show ?case by simp
next
  case (Cons op ops)
  obtain md i where op: "op = (md, i)" by force
  let ?off = "if md then n else 0"
  let ?t = "s\<lparr>mem := mark_bit (bmap + of_nat (4 * ?off)) i (mem s)\<rparr>"
  have "n < 2 ^ 50" using unsigned_less [of "ary_map_entries len", where ?'a = nat] by (simp add: assms(1))
  then have "?off < 2 ^ 50" by simp
  note mk = mark_bit_marked [OF _ this]
  have "ucast (ary_map_entries len) * 4 = (of_nat (4 * n) :: addr_t)" by (simp add: assms(1))
  then have "mark_elem bs len es op s = Returned () ?t"
    by (simp add: op mark_elem_def ary_promise_elem_def ary_use_elem_def assms(2) get_ary_mod_map_def get_ary_use_map_def)
  moreover obtain s' where t: "seq_all (map (mark_elem bs len es) ops) ?t = Returned () s'"
    "\<forall>k < 2 ^ 60. marked bmap (mem s') k \<longleftrightarrow>
       marked bmap (mem ?t) k \<or> (\<exists>(md, i) \<in> set ops. k = (if md then 32 * n else 0) + unat i)"
    using Cons.IH [of ?t] Cons.prems by auto
  ultimately have "seq_all (map (mark_elem bs len es) (op # ops)) s = Returned () s'" by simp
  moreover have "marked bmap (mem s') k \<longleftrightarrow> marked bmap (mem s) k \<or>
      (\<exists>(md, i) \<in> set (op # ops). k = (if md then 32 * n else 0) + unat i)" if "k < 2 ^ 60" for k
  proof -
    have "marked bmap (mem ?t) k \<longleftrightarrow> k = (if md then 32 * n else 0) + unat i \<or> marked bmap (mem s) k"
      using mk [OF that] by simp
    moreover have "(\<exists>(md, i) \<in> set (op # ops). k = (if md then 32 * n else 0) + unat i) \<longleftrightarrow>
        k = (if md then 32 * n else 0) + unat i \<or> (\<exists>(md, i) \<in> set ops. k = (if md then 32 * n else 0) + unat i)"
      unfolding op list.set bex_simps by simp
    ultimately show ?thesis using t(2) that by blast
  qed
  ultimately show ?case by blast
qed

lemma ary_maps_reset_clears:
  assumes "n = unat (ary_map_entries len)" and "bmap = get_ary_use_map bs len es"
    and "ary_maps_reset bs len es s = Returned () s0" and "k < 64 * n"
  shows "\<not> marked bmap (mem s0) k"
proof -
  let ?sz = "ucast (ary_map_entries len) * 2 * 4 :: size_t"
  have n: "n < 2 ^ 32" using unsigned_less [of "ary_map_entries len", where ?'a = nat] by (simp add: assms(1))
  have "?sz = of_nat (8 * n)" by (simp add: assms(1))
  moreover have "unat (of_nat (8 * n) :: size_t) = 8 * n" using n by (simp only: unat_of_nat) (simp add: take_bit_eq_mod)
  ultimately have sz: "unat ?sz = 8 * n" by simp
  have "mem s0 = write_mem (mem s) bmap (replicate (unat ?sz) 0)"
    using assms(2,3) record_keeps_mem(2)
    by (auto simp: ary_maps_reset_def Let_def keeps_mem_def seq_def split: outcome.splits)
  moreover have "unat (of_nat (k div 8) :: addr_t) = k div 8" "k div 8 < 8 * n"
    using assms(4) n by (simp_all add: unat_of_nat take_bit_eq_mod)
  ultimately show ?thesis unfolding marked_def write_mem_def sz length_replicate by simp
qed

section \<open>Properties\<close>

text \<open>
  C34: the scan of an array reports exactly the marked elements.  After a reset and any sequence of
  uses and promises of elements of the array, the scan records a read for every element used, in
  ascending order and once each, and then a write for every element promised.
\<close>

theorem ary_scan_exact:
  assumes "ary_maps_reset bs len es s = Returned () s0" and "\<forall>op \<in> set ops. snd op < len"
  shows "\<exists>s1. seq_all (map (mark_elem bs len es) ops) s0 = Returned () s1 \<and>
    scan_ary_maps bs len es s1 =
      seq (calls bs es BOP_record_read (filter (\<lambda>k. (False, of_nat k) \<in> set ops) [0 ..< unat len]))
        (\<lambda>_. calls bs es BOP_record_write (filter (\<lambda>k. (True, of_nat k) \<in> set ops) [0 ..< unat len])) s1"
proof -
  define n bmap where n_def: "n = unat (ary_map_entries len)" and b_def: "bmap = get_ary_use_map bs len es"
  obtain s1 where s1: "seq_all (map (mark_elem bs len es) ops) s0 = Returned () s1"
    "\<And>k. k < 2 ^ 60 \<Longrightarrow> marked bmap (mem s1) k \<longleftrightarrow>
       marked bmap (mem s0) k \<or> (\<exists>(md, i) \<in> set ops. k = (if md then 32 * n else 0) + unat i)"
    using mark_elems [OF n_def b_def assms(2), of s0] by blast
  have len: "unat len < 2 ^ 32" using unsigned_less [of len] by simp
  then have n: "unat len \<le> 32 * n" "n \<le> 2 ^ 27" unfolding n_def ary_map_entries_eq by auto
  have bits: "marked bmap (mem s1) k \<longleftrightarrow> (\<exists>(md, i) \<in> set ops. k = (if md then 32 * n else 0) + unat i)"
    if "k < 64 * n" for k
    using that n s1(2) [of k] ary_maps_reset_clears [OF n_def b_def assms(1) that] by auto
  have range: "unat i < unat len" if "(md, i) \<in> set ops" for md i
    using assms(2) that by (force simp: word_less_nat_alt)
  have of_nat: "unat (of_nat k :: uint) = k" if "k < 32 * n" for k
    using that n(2) by (simp add: unat_of_nat take_bit_eq_mod)
  have use: "marked bmap (mem s1) k \<longleftrightarrow> (False, of_nat k) \<in> set ops" if "k < 32 * n" for k
    using bits [of k] that n(1) of_nat [OF that] range by (force split: if_splits)
  have md: "marked (get_ary_mod_map bs len es) (mem s1) k \<longleftrightarrow> (True, of_nat k) \<in> set ops" if "k < 32 * n" for k
  proof -
    have "(32 * n + k) div 8 = 4 * n + k div 8" "(32 * n + k) mod 8 = k mod 8"
      using div_mult_self4 [of 8 "4 * n" k] mod_mult_self4 [of 8 "4 * n" k] by (simp_all add: mult.assoc [symmetric])
    then have "marked (get_ary_mod_map bs len es) (mem s1) k = marked bmap (mem s1) (32 * n + k)"
      by (simp add: marked_def b_def get_ary_mod_map_def get_ary_use_map_def n_def add.assoc mult.commute)
    also have "\<dots> \<longleftrightarrow> (True, of_nat k) \<in> set ops"
      using bits [of "32 * n + k"] that n(1) of_nat [OF that] range by (force split: if_splits)
    finally show ?thesis .
  qed
  let ?use = "filter (\<lambda>k. (False, of_nat k) \<in> set ops) [0 ..< unat len]"
  let ?mod = "filter (\<lambda>k. (True, of_nat k) \<in> set ops) [0 ..< unat len]"
  have cut: "filter (\<lambda>k. (b, of_nat k) \<in> set ops) [0 ..< 32 * n] =
      filter (\<lambda>k. (b, of_nat k) \<in> set ops) [0 ..< unat len]" for b
  proof -
    have "filter (\<lambda>k. (b, of_nat k) \<in> set ops) [unat len ..< 32 * n] = []"
      using range of_nat by (force simp: filter_empty_conv)
    then show ?thesis
      using upt_add_eq_append [of 0 "unat len" "32 * n - unat len"] n(1) by simp
  qed
  have u: "filter (marked bmap (mem s1)) [0 ..< 32 * n] = ?use" unfolding cut [symmetric]
    by (rule filter_cong) (simp_all add: use)
  have m: "filter (marked (get_ary_mod_map bs len es) (mem s1)) [0 ..< 32 * n] = ?mod" unfolding cut [symmetric]
    by (rule filter_cong) (simp_all add: md)
  have "scan_ary_maps bs len es s1 = seq (calls bs es BOP_record_read ?use) (\<lambda>_. calls bs es BOP_record_write ?mod) s1"
  proof (cases "calls bs es BOP_record_read ?use s1")
    case (Returned x t)
    then have "mem t = mem s1" using calls_keep_mem [OF record_keeps_mem(1)] by simp
    then show ?thesis using Returned u m
      by (simp add: scan_ary_maps_def scan_one_map_calls seq_def n_def b_def)
  qed (simp_all add: scan_ary_maps_def scan_one_map_calls seq_def u [unfolded n_def b_def])
  with s1(1) show ?thesis by blast
qed


theorem ary_scan_exact_witness:
  "\<exists>s0 s1. ary_maps_reset 4096 3 4 (program_start (\<lambda>_. 7)) = Returned () s0 \<and>
    seq_all (map (mark_elem 4096 3 4) [(False, 2), (True, 0), (False, 1)]) s0 = Returned () s1 \<and>
    scan_ary_maps 4096 3 4 s1 =
      seq (calls 4096 4 BOP_record_read [1, 2]) (\<lambda>_. calls 4096 4 BOP_record_write [0]) s1"
proof -
  have "\<exists>s0. ary_maps_reset 4096 3 4 (program_start (\<lambda>_. 7)) = Returned () s0"
    by (simp add: ary_maps_reset_def Let_def seq_def BOP_record_write_def not_recording_def program_start_def)
  then obtain s0 where s0: "ary_maps_reset 4096 3 4 (program_start (\<lambda>_. 7)) = Returned () s0" ..
  have "[0 ..< unat (3 :: uint)] = [0, 1, 2]" by (simp add: upt_rec)
  then show ?thesis
    using ary_scan_exact [OF s0, of "[(False, 2), (True, 0), (False, 1)]"] s0 by auto
qed

end
