(* ===== verification/Dl_Chunks.thy ===== *)
theory Dl_Chunks
  imports Bop_Prelude
begin

text \<open>
  \<^verbatim>\<open>external/malloc.c\<close>, first part: sizes and alignment, the fields of a chunk, and the indexing of bins.
  The Makefile builds it with \<^verbatim>\<open>BOP\<close>, which sets \<^verbatim>\<open>MSPACES\<close> and \<^verbatim>\<open>FOOTERS\<close>, so a chunk has two words of
  overhead; the model is for x86-64 and gcc.  \<^verbatim>\<open>DEBUG\<close> is not set, so the \<^verbatim>\<open>check_\<close> macros are empty, but
  \<^verbatim>\<open>bop_api.h\<close> includes \<^verbatim>\<open>assert.h\<close> before the file would define an empty \<^verbatim>\<open>assert\<close>: assertions are
  checked.  \<^verbatim>\<open>USE_LOCKS\<close> is set, and with gcc the locks are spin locks.

  Memory is a function from the addresses of 8-byte words to words.  The fields of a chunk are at
  fixed distances from it, so what two chunks share, like the foot of one and the first field of the
  next, is shared here too.
\<close>

section \<open>Sizes and alignment\<close>

type_synonym words = "addr_t \<Rightarrow> size_t"

definition SIZE_T_SIZE :: size_t where "SIZE_T_SIZE = 8"
definition TWO_SIZE_T_SIZES :: size_t where "TWO_SIZE_T_SIZES = 16"
definition FOUR_SIZE_T_SIZES :: size_t where "FOUR_SIZE_T_SIZES = 32"
definition SIX_SIZE_T_SIZES :: size_t where "SIX_SIZE_T_SIZES = 48"
definition MALLOC_ALIGNMENT :: size_t where "MALLOC_ALIGNMENT = 16"
definition CHUNK_ALIGN_MASK :: size_t where "CHUNK_ALIGN_MASK = MALLOC_ALIGNMENT - 1"
definition MAX_SIZE_T :: size_t where "MAX_SIZE_T = NOT 0"

definition is_aligned :: "addr_t \<Rightarrow> bool" where
  "is_aligned a \<longleftrightarrow> a AND CHUNK_ALIGN_MASK = 0"

definition align_offset :: "addr_t \<Rightarrow> size_t" where
  "align_offset a =
     (if a AND CHUNK_ALIGN_MASK = 0 then 0
      else (MALLOC_ALIGNMENT - (a AND CHUNK_ALIGN_MASK)) AND CHUNK_ALIGN_MASK)"

definition MCHUNK_SIZE :: size_t where "MCHUNK_SIZE = 32"
definition CHUNK_OVERHEAD :: size_t where "CHUNK_OVERHEAD = TWO_SIZE_T_SIZES"
definition MMAP_CHUNK_OVERHEAD :: size_t where "MMAP_CHUNK_OVERHEAD = TWO_SIZE_T_SIZES"
definition MMAP_FOOT_PAD :: size_t where "MMAP_FOOT_PAD = FOUR_SIZE_T_SIZES"

definition MIN_CHUNK_SIZE :: size_t where
  "MIN_CHUNK_SIZE = (MCHUNK_SIZE + CHUNK_ALIGN_MASK) AND NOT CHUNK_ALIGN_MASK"

definition chunk2mem :: "addr_t \<Rightarrow> addr_t" where "chunk2mem p = p + TWO_SIZE_T_SIZES"
definition mem2chunk :: "addr_t \<Rightarrow> addr_t" where "mem2chunk m = m - TWO_SIZE_T_SIZES"

definition align_as_chunk :: "addr_t \<Rightarrow> addr_t" where
  "align_as_chunk a = a + align_offset (chunk2mem a)"

definition MAX_REQUEST :: size_t where "MAX_REQUEST = push_bit 2 (- MIN_CHUNK_SIZE)"
definition MIN_REQUEST :: size_t where "MIN_REQUEST = MIN_CHUNK_SIZE - CHUNK_OVERHEAD - 1"

definition pad_request :: "size_t \<Rightarrow> size_t" where
  "pad_request req = (req + CHUNK_OVERHEAD + CHUNK_ALIGN_MASK) AND NOT CHUNK_ALIGN_MASK"

definition request2size :: "size_t \<Rightarrow> size_t" where
  "request2size req = (if req < MIN_REQUEST then MIN_CHUNK_SIZE else pad_request req)"

section \<open>Fields of a chunk\<close>

definition prev_foot :: "words \<Rightarrow> addr_t \<Rightarrow> size_t" where "prev_foot m p = m p"
definition head :: "words \<Rightarrow> addr_t \<Rightarrow> size_t" where "head m p = m (p + 8)"
definition fd :: "words \<Rightarrow> addr_t \<Rightarrow> addr_t" where "fd m p = m (p + 16)"
definition bk :: "words \<Rightarrow> addr_t \<Rightarrow> addr_t" where "bk m p = m (p + 24)"
definition child_at :: "addr_t \<Rightarrow> nat \<Rightarrow> addr_t" where "child_at p i = p + 32 + 8 * of_nat i"
definition parent :: "words \<Rightarrow> addr_t \<Rightarrow> addr_t" where "parent m p = m (p + 48)"
definition tindex :: "words \<Rightarrow> addr_t \<Rightarrow> uint" where "tindex m p = ucast (m (p + 56))"

definition set_prev_foot :: "addr_t \<Rightarrow> size_t \<Rightarrow> words \<Rightarrow> words" where "set_prev_foot p v m = m(p := v)"
definition set_head :: "addr_t \<Rightarrow> size_t \<Rightarrow> words \<Rightarrow> words" where "set_head p v m = m(p + 8 := v)"
definition set_fd :: "addr_t \<Rightarrow> addr_t \<Rightarrow> words \<Rightarrow> words" where "set_fd p v m = m(p + 16 := v)"
definition set_bk :: "addr_t \<Rightarrow> addr_t \<Rightarrow> words \<Rightarrow> words" where "set_bk p v m = m(p + 24 := v)"
definition set_parent :: "addr_t \<Rightarrow> addr_t \<Rightarrow> words \<Rightarrow> words" where "set_parent p v m = m(p + 48 := v)"
definition set_tindex :: "addr_t \<Rightarrow> uint \<Rightarrow> words \<Rightarrow> words" where "set_tindex p v m = m(p + 56 := ucast v)"

definition child :: "words \<Rightarrow> addr_t \<Rightarrow> nat \<Rightarrow> addr_t" where "child m p i = m (child_at p i)"

definition leftmost_child :: "words \<Rightarrow> addr_t \<Rightarrow> addr_t" where
  "leftmost_child m t = (if child m t 0 \<noteq> 0 then child m t 0 else child m t 1)"

lemmas field_defs = prev_foot_def head_def fd_def bk_def child_at_def parent_def tindex_def set_prev_foot_def
  set_head_def set_fd_def set_bk_def set_parent_def set_tindex_def child_def

section \<open>Head and foot\<close>

definition PINUSE_BIT :: size_t where "PINUSE_BIT = 1"
definition CINUSE_BIT :: size_t where "CINUSE_BIT = 2"
definition FLAG4_BIT :: size_t where "FLAG4_BIT = 4"
definition INUSE_BITS :: size_t where "INUSE_BITS = PINUSE_BIT OR CINUSE_BIT"
definition FLAG_BITS :: size_t where "FLAG_BITS = PINUSE_BIT OR CINUSE_BIT OR FLAG4_BIT"
definition FENCEPOST_HEAD :: size_t where "FENCEPOST_HEAD = INUSE_BITS OR SIZE_T_SIZE"

definition cinuse :: "words \<Rightarrow> addr_t \<Rightarrow> bool" where "cinuse m p \<longleftrightarrow> head m p AND CINUSE_BIT \<noteq> 0"
definition pinuse :: "words \<Rightarrow> addr_t \<Rightarrow> bool" where "pinuse m p \<longleftrightarrow> head m p AND PINUSE_BIT \<noteq> 0"
definition is_inuse :: "words \<Rightarrow> addr_t \<Rightarrow> bool" where "is_inuse m p \<longleftrightarrow> head m p AND INUSE_BITS \<noteq> PINUSE_BIT"
definition is_mmapped :: "words \<Rightarrow> addr_t \<Rightarrow> bool" where "is_mmapped m p \<longleftrightarrow> head m p AND INUSE_BITS = 0"

definition chunksize :: "words \<Rightarrow> addr_t \<Rightarrow> size_t" where
  "chunksize m p = head m p AND NOT FLAG_BITS"

definition clear_pinuse :: "addr_t \<Rightarrow> words \<Rightarrow> words" where
  "clear_pinuse p m = set_head p (head m p AND NOT PINUSE_BIT) m"

definition chunk_plus_offset :: "addr_t \<Rightarrow> size_t \<Rightarrow> addr_t" where "chunk_plus_offset p s = p + s"
definition chunk_minus_offset :: "addr_t \<Rightarrow> size_t \<Rightarrow> addr_t" where "chunk_minus_offset p s = p - s"

definition next_chunk :: "words \<Rightarrow> addr_t \<Rightarrow> addr_t" where
  "next_chunk m p = p + (head m p AND NOT FLAG_BITS)"

definition prev_chunk :: "words \<Rightarrow> addr_t \<Rightarrow> addr_t" where
  "prev_chunk m p = p - prev_foot m p"

definition set_foot :: "addr_t \<Rightarrow> size_t \<Rightarrow> words \<Rightarrow> words" where
  "set_foot p s = set_prev_foot (p + s) s"

definition set_size_and_pinuse_of_free_chunk :: "addr_t \<Rightarrow> size_t \<Rightarrow> words \<Rightarrow> words" where
  "set_size_and_pinuse_of_free_chunk p s m = set_foot p s (set_head p (s OR PINUSE_BIT) m)"

definition set_free_with_pinuse :: "addr_t \<Rightarrow> size_t \<Rightarrow> addr_t \<Rightarrow> words \<Rightarrow> words" where
  "set_free_with_pinuse p s n m = set_size_and_pinuse_of_free_chunk p s (clear_pinuse n m)"

definition overhead_for :: "words \<Rightarrow> addr_t \<Rightarrow> size_t" where
  "overhead_for m p = (if is_mmapped m p then MMAP_CHUNK_OVERHEAD else CHUNK_OVERHEAD)"

text \<open>The size of \<^verbatim>\<open>struct malloc_segment\<close> is 32.\<close>

definition TOP_FOOT_SIZE :: size_t where
  "TOP_FOOT_SIZE = align_offset (chunk2mem 0) + pad_request 32 + MIN_CHUNK_SIZE"

section \<open>Indexing bins\<close>

definition is_small :: "size_t \<Rightarrow> bool" where "is_small s \<longleftrightarrow> drop_bit 3 s < 32"
definition small_index :: "size_t \<Rightarrow> uint" where "small_index s = ucast (drop_bit 3 s)"
definition small_index2size :: "uint \<Rightarrow> size_t" where "small_index2size i = ucast (push_bit 3 i)"

definition MAX_SMALL_REQUEST :: size_t where
  "MAX_SMALL_REQUEST = (push_bit 8 1 - 1) - CHUNK_ALIGN_MASK - CHUNK_OVERHEAD"

text \<open>\<^verbatim>\<open>__builtin_clz\<close> and \<^verbatim>\<open>__builtin_ctz\<close> of a 32-bit word that is not zero.\<close>

fun clz_from :: "nat \<Rightarrow> uint \<Rightarrow> nat" where
  "clz_from 0 x = 32"
| "clz_from (Suc n) x = (if bit x n then 31 - n else clz_from n x)"

definition builtin_clz :: "uint \<Rightarrow> nat" where "builtin_clz x = clz_from 32 x"

fun ctz_from :: "nat \<Rightarrow> nat \<Rightarrow> uint \<Rightarrow> nat" where
  "ctz_from 0 k x = k"
| "ctz_from (Suc n) k x = (if bit x k then k else ctz_from n (Suc k) x)"

definition builtin_ctz :: "uint \<Rightarrow> nat" where "builtin_ctz x = ctz_from 32 0 x"

text \<open>\<^verbatim>\<open>X\<close> is an \<^verbatim>\<open>unsigned int\<close>, which keeps the low 32 bits of the shifted size.\<close>

definition compute_tree_index :: "size_t \<Rightarrow> uint" where
  "compute_tree_index s =
     (let x = ucast (drop_bit 8 s) :: uint in
      if x = 0 then 0
      else if x > 0xFFFF then 31
      else let k = 32 - 1 - builtin_clz x in of_nat (2 * k) + ucast (drop_bit (k + 7) s AND 1))"

definition leftshift_for_tree_index :: "uint \<Rightarrow> nat" where
  "leftshift_for_tree_index i = (if i = 31 then 0 else (64 - 1) - (unat i div 2 + 8 - 2))"

definition minsize_for_tree_index :: "uint \<Rightarrow> size_t" where
  "minsize_for_tree_index i =
     push_bit (unat i div 2 + 8) 1 OR push_bit (unat i div 2 + 8 - 1) (ucast (i AND 1))"

definition idx2bit :: "uint \<Rightarrow> uint" where "idx2bit i = push_bit (unat i) 1"
definition least_bit :: "uint \<Rightarrow> uint" where "least_bit x = x AND - x"
definition left_bits :: "uint \<Rightarrow> uint" where "left_bits x = push_bit 1 x OR - push_bit 1 x"
definition compute_bit2idx :: "uint \<Rightarrow> uint" where "compute_bit2idx x = of_nat (builtin_ctz x)"

lemma constant_values [simp]:
  "CHUNK_ALIGN_MASK = 15" "MIN_CHUNK_SIZE = 32" "MIN_REQUEST = 15" "MAX_REQUEST = - 128"
  "CHUNK_OVERHEAD = 16" "MAX_SMALL_REQUEST = 224" "TOP_FOOT_SIZE = 80" "MAX_SIZE_T = - 1"
  "TWO_SIZE_T_SIZES = 16" "FOUR_SIZE_T_SIZES = 32" "MMAP_FOOT_PAD = 32"
  "PINUSE_BIT = 1" "CINUSE_BIT = 2" "INUSE_BITS = 3" "FLAG_BITS = 7"
  by code_simp+

section \<open>Rounding\<close>

lemma and_not_15: "unat ((x :: size_t) AND NOT 15) = 16 * (unat x div 16)"
proof -
  have "x AND NOT (mask 4) = push_bit 4 (drop_bit 4 x)"
    by (auto intro!: bit_word_eqI simp: bit_simps)
  then have "x AND NOT 15 = push_bit 4 (drop_bit 4 x)" by (simp add: mask_eq_exp_minus_1)
  also have "\<dots> = x div 16 * 16" by (simp add: push_bit_eq_mult drop_bit_eq_div)
  finally have "unat (x AND NOT 15) = (unat x div 16 * 16) mod 2 ^ 64"
    by (simp add: unat_word_ariths unat_div_distrib mod_mult_left_eq)
  moreover have "unat x div 16 * 16 < 2 ^ 64"
    using unsigned_less [of x, where ?'a = nat] by (simp add: order.strict_trans1 [OF div_times_less_eq_dividend])
  ultimately show ?thesis by simp
qed

lemma request2size_spec:
  assumes "req < MAX_REQUEST"
  shows "16 dvd unat (request2size req)" and "32 \<le> unat (request2size req)"
    and "unat req + 16 \<le> unat (request2size req)" and "unat (request2size req) \<le> unat req + 32"
proof -
  have small: "unat req < 2 ^ 64 - 128" using assms by (simp add: word_less_nat_alt )
  then have sum: "unat (req + 16 + 15) = unat req + 31" by (simp add: unat_word_ariths)
  have pad: "unat (pad_request req) = 16 * ((unat req + 31) div 16)"
    using and_not_15 [of "req + 16 + 15"] sum by (simp add: pad_request_def)
  show "16 dvd unat (request2size req)" using pad by (simp add: request2size_def)
  show "32 \<le> unat (request2size req)" "unat req + 16 \<le> unat (request2size req)"
    "unat (request2size req) \<le> unat req + 32"
    using pad by (auto simp: request2size_def word_less_nat_alt)
qed

section \<open>Bits\<close>

lemma clz_from_spec:
  assumes "\<exists>j < n. bit x j" and "n \<le> 32"
  shows "\<exists>k < n. clz_from n x = 31 - k \<and> bit x k \<and> (\<forall>j < n. k < j \<longrightarrow> \<not> bit x j)"
  using assms
proof (induction n)
  case 0
  then show ?case by simp
next
  case (Suc n)
  show ?case
  proof (cases "bit x n")
    case True
    then show ?thesis by (intro exI [of _ n]) auto
  next
    case False
    with Suc.prems have "\<exists>j < n. bit x j" by (metis less_Suc_eq)
    with Suc obtain k where "k < n" "clz_from n x = 31 - k" "bit x k" "\<forall>j < n. k < j \<longrightarrow> \<not> bit x j" by auto
    with False show ?thesis by (intro exI [of _ k]) (auto simp: less_Suc_eq)
  qed
qed

lemma top_bit_bounds:
  fixes x :: "'a :: len word"
  assumes "bit x k" and "\<And>j. k < j \<Longrightarrow> \<not> bit x j"
  shows "2 ^ k \<le> unat x" and "unat x < 2 ^ Suc k"
proof -
  have "take_bit (Suc k) x = x" 
  proof (rule bit_word_eqI)
    show "bit (take_bit (Suc k) x) n = bit x n" for n
      using assms(2) [of n] by (cases "k < n") (auto simp: bit_simps)
  qed
  then have "take_bit (Suc k) (unat x) = unat x" by (metis unsigned_take_bit_eq)
  then show "unat x < 2 ^ Suc k" by (simp add: take_bit_nat_eq_self_iff)
  show "2 ^ k \<le> unat x"
  proof (rule ccontr)
    assume "\<not> 2 ^ k \<le> unat x"
    then have "unat x div 2 ^ k = 0" by simp
    then have "\<not> bit (unat x) k" by (simp add: bit_iff_odd)
    then show False using assms(1) by (simp add: bit_unsigned_iff)
  qed
qed

lemma clz_spec:
  fixes x :: uint
  assumes "x \<noteq> 0" and "k = 32 - 1 - builtin_clz x"
  shows "k < 32" and "2 ^ k \<le> unat x" and "unat x < 2 ^ Suc k"
proof -
  have "x = 0" if "\<And>j. j < 32 \<Longrightarrow> \<not> bit x j" by (rule bit_word_eqI) (use that in simp)
  with assms(1) have ex: "\<exists>j < 32. bit x j" by blast
  then obtain j where j: "j < 32" "builtin_clz x = 31 - j" "bit x j" "\<forall>l < 32. j < l \<longrightarrow> \<not> bit x l"
    using clz_from_spec [of 32 x] by (auto simp: builtin_clz_def)
  then have k: "k = j" using assms(2) by simp
  have "\<not> bit x l" if "j < l" for l
    using j(4) that bit_imp_le_length [of x l] by (cases "l < 32") auto
  from top_bit_bounds [OF j(3) this] show "2 ^ k \<le> unat x" "unat x < 2 ^ Suc k" by (simp_all add: k)
  show "k < 32" using j(1) k by simp
qed

text \<open>The index of the least bit that is set.\<close>

lemma ctz_from_spec:
  assumes "bit x k" and "j \<le> k" and "k < j + n" and "\<And>l. j \<le> l \<Longrightarrow> l < k \<Longrightarrow> \<not> bit x l"
  shows "ctz_from n j x = k"
  using assms
proof (induction n arbitrary: j)
  case 0
  then show ?case by simp
next
  case (Suc n)
  show ?case
  proof (cases "bit x j")
    case True
    then have "j = k" using Suc.prems(2) Suc.prems(4) [of j] by (cases "j < k") auto
    with True show ?thesis by simp
  next
    case False
    then have "j < k" using Suc.prems(1,2) by (cases "j = k") auto
    with False Suc show ?thesis by simp
  qed
qed

lemma odd_and_minus:
  fixes z :: "'a :: len word"
  assumes "odd z"
  shows "z AND - z = 1"
proof -
  obtain y where z: "z = 1 + 2 * y" using assms by (metis oddE add.commute)
  have "- z = NOT (2 * y)" by (simp add: z minus_eq_not_minus_1)
  then show ?thesis
    by (auto intro!: bit_word_eqI simp: z bit_simps even_bit_succ_iff bit_double_iff)
qed

lemma least_bit_eq:
  fixes x :: uint
  assumes "bit x k" and "\<And>l. l < k \<Longrightarrow> \<not> bit x l"
  shows "least_bit x = push_bit k 1"
proof -
  have x: "x = push_bit k (drop_bit k x)"
  proof (rule bit_word_eqI)
    show "bit x n = bit (push_bit k (drop_bit k x)) n" if "n < LENGTH(32)" for n
      using assms(2) [of n] that by (cases "n < k") (simp_all add: bit_simps)
  qed
  have "odd (drop_bit k x)" using assms(1) by (simp add: bit_iff_odd_drop_bit)
  then have "drop_bit k x AND - drop_bit k x = 1" by (rule odd_and_minus)
  then show ?thesis unfolding least_bit_def by (subst (1 2) x) (simp add: push_bit_minus [symmetric] push_bit_and [symmetric])
qed

section \<open>Tree indices\<close>

lemma minsize_eq:
  assumes "k \<le> 16" and "b < 2"
  shows "unat (minsize_for_tree_index (of_nat (2 * k + b))) = 2 ^ (k + 8) + b * 2 ^ (k + 7)"
proof -
  have i: "unat (of_nat (2 * k + b) :: uint) = 2 * k + b"
    using assms by (simp only: unsigned_of_nat take_bit_eq_mod) simp
  have odd: "(of_nat (2 * k + b) AND 1 :: uint) = of_nat b"
    using assms(2) by (auto simp: less_2_cases_iff and_one_eq mod_2_eq_odd)
  have half: "(2 * k + b) div 2 = k" using assms(2) by simp
  have disj: "push_bit (k + 8) 1 AND push_bit (k + 7) (of_nat b) = (0 :: size_t)"
    using assms(2) by (auto intro!: bit_word_eqI simp: less_2_cases_iff bit_simps)
  have "minsize_for_tree_index (of_nat (2 * k + b)) = push_bit (k + 8) 1 OR push_bit (k + 7) (of_nat b)"
    unfolding minsize_for_tree_index_def i half odd using assms(2) by (auto simp: less_2_cases_iff add.commute)
  also have "\<dots> = push_bit (k + 8) 1 + push_bit (k + 7) (of_nat b)"
    by (rule disjunctive_add_eq_or [OF disj, symmetric])
  also have "\<dots> = of_nat (2 ^ (k + 8) + b * 2 ^ (k + 7))" by (simp add: push_bit_eq_mult)
  finally have eq: "minsize_for_tree_index (of_nat (2 * k + b)) = of_nat (2 ^ (k + 8) + b * 2 ^ (k + 7))" .
  have "b * 2 ^ (k + 7) \<le> 1 * (2 :: nat) ^ (16 + 7)"
    using assms by (intro mult_le_mono power_increasing) auto
  moreover have "(2 :: nat) ^ (k + 8) \<le> 2 ^ (16 + 8)" using assms(1) by (intro power_increasing) auto
  ultimately have "2 ^ (k + 8) + b * 2 ^ (k + 7) < (2 :: nat) ^ 64" by simp
  then show ?thesis unfolding eq by (simp only: unsigned_of_nat) (simp add: take_bit_nat_eq_self_iff)
qed

lemma tree_index_eq:
  assumes "256 \<le> unat s" and "unat s div 256 \<le> 0xFFFF"
  obtains k b where "k \<le> 15" and "b < 2" and "compute_tree_index s = of_nat (2 * k + b)"
    and "2 ^ (k + 8) + b * 2 ^ (k + 7) \<le> unat s" and "unat s < 2 ^ (k + 8) + (b + 1) * 2 ^ (k + 7)"
proof -
  define x :: uint where "x = ucast (drop_bit 8 s)"
  define k where "k = 32 - 1 - builtin_clz x"
  define b where "b = unat s div 2 ^ (k + 7) mod 2"
  have ux: "unat x = unat s div 256"
    using assms(2) by (simp add: x_def unsigned_ucast_eq unsigned_take_bit_eq drop_bit_eq_div unat_div_distrib take_bit_nat_eq_self_iff)
  then have nz: "x \<noteq> 0" "\<not> x > 0xFFFF" using assms by (auto simp: word_less_nat_alt)
  note k = clz_spec [OF nz(1) k_def]
  have "2 ^ k < (2 :: nat) ^ 16" using k(2) ux assms(2) by simp
  then have k15: "k \<le> 15" using power_less_imp_less_exp [of "2 :: nat" k 16] by simp
  have "unat s div 2 ^ (k + 8) = 1"
  proof -
    have "unat s div 2 ^ (k + 8) = unat x div 2 ^ k"
      by (simp add: ux power_add div_mult2_eq [symmetric] mult.commute)
    also have "\<dots> = 1" using k(2,3) by (simp add: div_nat_eqI)
    finally show ?thesis .
  qed
  then have "unat s div 2 ^ (k + 7) div 2 = 1"
    by (simp add: div_mult2_eq [symmetric] power_add mult.commute)
  then have q: "unat s div 2 ^ (k + 7) = 2 + b"
    using div_mult_mod_eq [of "unat s div 2 ^ (k + 7)" 2] unfolding b_def by linarith
  have "of_nat (2 * k) + ucast (drop_bit (k + 7) s AND 1) = (of_nat (2 * k + b) :: uint)"
  proof -
    have unat_power_k: "unat (2 ^ (k + 7) :: size_t) = 2 ^ (k + 7)"
    proof -
      have "unat (of_nat (2 ^ (k + 7)) :: size_t) = 2 ^ (k + 7)"
        using k15 power_strict_increasing [of "k + 7" 64 "2 :: nat"]
        by (simp only: unsigned_of_nat) (simp add: take_bit_nat_eq_self_iff)
      then show ?thesis by simp
    qed
    have "unat (drop_bit (k + 7) s AND 1) = b"
      by (simp add: b_def and_one_eq drop_bit_eq_div unat_mod_distrib unat_div_distrib unat_power_k)
    then have "drop_bit (k + 7) s AND 1 = of_nat b" by (metis of_nat_unat ucast_id)
    moreover have "b = 0 \<or> b = 1" by (auto simp: b_def)
    ultimately have "ucast (drop_bit (k + 7) s AND 1) = (of_nat b :: uint)" by auto
    then show ?thesis by (simp only: of_nat_add)
  qed
  then have "compute_tree_index s = of_nat (2 * k + b)"
    using nz unfolding compute_tree_index_def Let_def x_def [symmetric] k_def [symmetric] by simp
  moreover have "2 ^ (k + 8) + b * 2 ^ (k + 7) \<le> unat s" "unat s < 2 ^ (k + 8) + (b + 1) * 2 ^ (k + 7)"
  proof -
    have "unat s = (2 + b) * 2 ^ (k + 7) + unat s mod 2 ^ (k + 7)"
      using div_mult_mod_eq [of "unat s" "2 ^ (k + 7)"] by (simp only: q)
    moreover have "unat s mod 2 ^ (k + 7) < 2 ^ (k + 7)" by simp
    moreover have "(2 :: nat) ^ (k + 8) = 2 * 2 ^ (k + 7)" by (simp add: power_add)
    ultimately show "2 ^ (k + 8) + b * 2 ^ (k + 7) \<le> unat s" "unat s < 2 ^ (k + 8) + (b + 1) * 2 ^ (k + 7)"
      by (simp_all only: add_mult_distrib)
  qed
  ultimately show ?thesis using that [of k b] k15 by (simp add: b_def)
qed

section \<open>Requests and indices\<close>

text \<open>
  C32: For every request below \<^verbatim>\<open>MAX_REQUEST\<close> the padded size does not wrap around: it is a multiple of
  16, at least the smallest chunk, leaves room for the request and the two words of overhead, and
  wastes less than 32 bytes.
\<close>
theorem request_fits_chunk:
  assumes "req < MAX_REQUEST"
  shows "16 dvd unat (request2size req) \<and> unat MIN_CHUNK_SIZE \<le> unat (request2size req)
    \<and> unat req + unat CHUNK_OVERHEAD \<le> unat (request2size req)
    \<and> unat (request2size req) \<le> unat req + 32"
  using request2size_spec [OF assms] by simp

theorem request_fits_chunk_witness:
  "unat (request2size 100) = 128 \<and> unat (100 :: size_t) + unat CHUNK_OVERHEAD \<le> unat (request2size 100)"
proof -
  have "(100 :: size_t) < MAX_REQUEST" by code_simp
  from request_fits_chunk [OF this] show ?thesis by (simp add: request2size_def pad_request_def)
qed

text \<open>
  Up to 16 MB the tree index of a large size is the index of the one tree bin whose range holds
  it: the size is at least the smallest size of its bin and below the smallest size of the next.
\<close>
lemma tree_index_brackets:
  assumes "256 \<le> unat s" and "unat s < 2 ^ 24"
  shows "minsize_for_tree_index (compute_tree_index s) \<le> s \<and> s < minsize_for_tree_index (compute_tree_index s + 1)"
proof
  have "unat s div 256 \<le> 0xFFFF" using assms(2) by simp
  with assms(1) obtain k b where kb: "k \<le> 15" "b < 2" "compute_tree_index s = of_nat (2 * k + b)"
    "2 ^ (k + 8) + b * 2 ^ (k + 7) \<le> unat s" "unat s < 2 ^ (k + 8) + (b + 1) * 2 ^ (k + 7)"
    by (rule tree_index_eq)
  from kb(1,2,4) minsize_eq [of k b]
  show "minsize_for_tree_index (compute_tree_index s) \<le> s" unfolding kb(3) word_le_nat_alt by linarith
  have next_bin: "unat (minsize_for_tree_index (of_nat (2 * k + b) + 1)) = 2 ^ (k + 8) + (b + 1) * 2 ^ (k + 7)"
  proof (cases "b = 0")
    case True
    then show ?thesis using minsize_eq [of k 1] kb(1) by (simp add: add.commute)
  next
    case False
    with kb(2) have "b = 1" by simp
    moreover have "of_nat (2 * k + 1) + 1 = (of_nat (2 * Suc k + 0) :: uint)" by simp
    ultimately show ?thesis using minsize_eq [of "Suc k" 0] kb(1) by (simp add: power_add)
  qed
  show "s < minsize_for_tree_index (compute_tree_index s + 1)"
    unfolding kb(3) word_less_nat_alt next_bin by (rule kb(5))
qed

text \<open>
  \<^verbatim>\<open>compute_bit2idx\<close> after \<^verbatim>\<open>least_bit\<close>, the way the allocator finds a bin, is the least index whose
  bit is set in the map.
\<close>
lemma bit2idx_least_bit:
  fixes x :: uint
  assumes "x \<noteq> 0"
  shows "unat (compute_bit2idx (least_bit x)) = (LEAST k. bit x k)"
proof -
  define k where "k = (LEAST k. bit x k)"
  have "\<exists>k. bit x k" using assms by (metis bit_word_eqI bit_0_eq bot_apply bot_bool_def)
  then have k: "bit x k" "\<And>l. l < k \<Longrightarrow> \<not> bit x l"
    unfolding k_def by (auto intro: LeastI_ex dest: not_less_Least)
  have k32: "k < 32" using bit_imp_le_length [OF k(1)] by simp
  have lb: "least_bit x = push_bit k 1" by (rule least_bit_eq) (use k in auto)
  have "builtin_ctz (least_bit x) = k"
    unfolding builtin_ctz_def lb
    by (rule ctz_from_spec) (use k32 in \<open>auto simp: bit_simps\<close>)
  moreover have "unat (of_nat k :: uint) = k"
    using k32 by (simp only: unsigned_of_nat) (simp add: take_bit_nat_eq_self_iff less_trans [of k 32 "2 ^ 32"])
  ultimately show ?thesis by (simp only: compute_bit2idx_def k_def [symmetric])
qed

text \<open>
  The shifted size is kept in an \<^verbatim>\<open>unsigned int\<close>, so from \<open>2 ^ 40\<close> bytes on its high bits are lost:
  a chunk of one terabyte gets the index of the bin for the smallest large chunks, whose range it is
  far outside of, and not that of the last bin.
\<close>
theorem huge_chunk_in_first_tree:
  "compute_tree_index (2 ^ 40) = 0 \<and> minsize_for_tree_index 1 < 2 ^ 40 \<and> compute_tree_index (2 ^ 39) = 31"
  by code_simp

end
