(* ===== verification/Dl_Bins.thy ===== *)
theory Dl_Bins
  imports Dl_Chunks "HOL-Library.While_Combinator" "HOL-Library.Multiset"
begin

text \<open>
  \<^verbatim>\<open>external/malloc.c\<close>, second part: the state of an mspace, its small bins (circular lists of free chunks)
  and its tree bins, with the macros that link chunks into them and unlink them.

  The scalar fields of \<^verbatim>\<open>struct malloc_state\<close> are a record; its two arrays of bins are in memory, at
  their distances from the address \<open>M\<close> of the structure, because the code treats the bins as chunks.
  A failing assertion and both error actions (\<^verbatim>\<open>PROCEED_ON_ERROR\<close> is not set) abort the process.  A walk
  through a tree is \<open>while_option\<close>: it has no value when the links in memory form a cycle, and the
  operation is then \<open>Inl Diverges\<close>.

  The lemmas show that the small bins are lists: an operation on the links in memory is the
  operation on the list of chunks, it leaves the other bins alone, and the bit of a bin is set exactly
  when its list is not empty.
\<close>

section \<open>State of an mspace\<close>

record msegment =
  seg_base :: addr_t
  seg_size :: size_t
  seg_next :: addr_t
  seg_sflags :: uint

record malloc_state =
  smallmap :: uint
  treemap :: uint
  dvsize :: size_t
  topsize :: size_t
  least_addr :: addr_t
  dv :: addr_t
  top_chunk :: addr_t
  trim_check :: size_t
  release_checks :: size_t
  ms_magic :: size_t
  footprint :: size_t
  max_footprint :: size_t
  footprint_limit :: size_t
  mflags :: uint
  mutex :: bool
  seg :: msegment

text \<open>
  The parameters of the process.  Beside the fields of \<^verbatim>\<open>mparams\<close> there is the address of \<^verbatim>\<open>_gm_\<close>, the structure of
  the global heap, which is fixed when the program is loaded.
\<close>

record malloc_params =
  mp_magic :: size_t
  page_size :: size_t
  granularity :: size_t
  mmap_threshold :: size_t
  trim_threshold :: size_t
  default_mflags :: uint
  gm_addr :: addr_t

text \<open>An mspace at work: the memory and the scalar fields of its structure.\<close>

record heap =
  mem :: words
  ms :: malloc_state

definition upd_mem :: "(words \<Rightarrow> words) \<Rightarrow> heap \<Rightarrow> heap" where
  "upd_mem f h = h\<lparr>mem := f (mem h)\<rparr>"

definition upd_ms :: "(malloc_state \<Rightarrow> malloc_state) \<Rightarrow> heap \<Rightarrow> heap" where
  "upd_ms f h = h\<lparr>ms := f (ms h)\<rparr>"

lemma upd_simps [simp]:
  "mem (upd_mem f h) = f (mem h)" "ms (upd_mem f h) = ms h"
  "mem (upd_ms g h) = mem h" "ms (upd_ms g h) = g (ms h)"
  by (simp_all add: upd_mem_def upd_ms_def)

definition smallbin_at :: "addr_t \<Rightarrow> uint \<Rightarrow> addr_t" where
  "smallbin_at M i = M + 72 + 8 * ucast (push_bit 1 i)"

definition treebin_at :: "addr_t \<Rightarrow> uint \<Rightarrow> addr_t" where
  "treebin_at M i = M + 600 + 8 * ucast i"

definition mark_smallmap :: "uint \<Rightarrow> malloc_state \<Rightarrow> malloc_state" where
  "mark_smallmap i s = s\<lparr>smallmap := smallmap s OR idx2bit i\<rparr>"

definition clear_smallmap :: "uint \<Rightarrow> malloc_state \<Rightarrow> malloc_state" where
  "clear_smallmap i s = s\<lparr>smallmap := smallmap s AND NOT (idx2bit i)\<rparr>"

definition smallmap_is_marked :: "malloc_state \<Rightarrow> uint \<Rightarrow> bool" where
  "smallmap_is_marked s i \<longleftrightarrow> smallmap s AND idx2bit i \<noteq> 0"

definition mark_treemap :: "uint \<Rightarrow> malloc_state \<Rightarrow> malloc_state" where
  "mark_treemap i s = s\<lparr>treemap := treemap s OR idx2bit i\<rparr>"

definition clear_treemap :: "uint \<Rightarrow> malloc_state \<Rightarrow> malloc_state" where
  "clear_treemap i s = s\<lparr>treemap := treemap s AND NOT (idx2bit i)\<rparr>"

definition treemap_is_marked :: "malloc_state \<Rightarrow> uint \<Rightarrow> bool" where
  "treemap_is_marked s i \<longleftrightarrow> treemap s AND idx2bit i \<noteq> 0"

section \<open>Run-time checks\<close>

definition ok_address :: "malloc_state \<Rightarrow> addr_t \<Rightarrow> bool" where
  "ok_address s a \<longleftrightarrow> least_addr s \<le> a"

definition ok_next :: "addr_t \<Rightarrow> addr_t \<Rightarrow> bool" where
  "ok_next p n \<longleftrightarrow> p < n"

definition ok_magic :: "malloc_params \<Rightarrow> malloc_state \<Rightarrow> bool" where
  "ok_magic mp s \<longleftrightarrow> ms_magic s = mp_magic mp"

text \<open>An assertion, or a check whose error action aborts.\<close>

definition abort_unless :: "bool \<Rightarrow> 'a res \<Rightarrow> 'a res" where
  "abort_unless b r = (if b then r else Inl AssertFailed)"

lemma abort_unless_True [simp]: "b \<Longrightarrow> abort_unless b r = r"
  by (simp add: abort_unless_def)

section \<open>Chunks in use\<close>

definition mark_inuse_foot :: "malloc_params \<Rightarrow> addr_t \<Rightarrow> addr_t \<Rightarrow> size_t \<Rightarrow> words \<Rightarrow> words" where
  "mark_inuse_foot mp M p s = set_prev_foot (p + s) (M XOR mp_magic mp)"

definition get_mstate_for :: "malloc_params \<Rightarrow> words \<Rightarrow> addr_t \<Rightarrow> addr_t" where
  "get_mstate_for mp m p = prev_foot m (p + chunksize m p) XOR mp_magic mp"

definition set_inuse :: "malloc_params \<Rightarrow> addr_t \<Rightarrow> addr_t \<Rightarrow> size_t \<Rightarrow> words \<Rightarrow> words" where
  "set_inuse mp M p s m =
     (let m1 = set_head p (head m p AND PINUSE_BIT OR s OR CINUSE_BIT) m;
          m2 = set_head (p + s) (head m1 (p + s) OR PINUSE_BIT) m1
      in mark_inuse_foot mp M p s m2)"

definition set_inuse_and_pinuse :: "malloc_params \<Rightarrow> addr_t \<Rightarrow> addr_t \<Rightarrow> size_t \<Rightarrow> words \<Rightarrow> words" where
  "set_inuse_and_pinuse mp M p s m =
     (let m1 = set_head p (s OR PINUSE_BIT OR CINUSE_BIT) m;
          m2 = set_head (p + s) (head m1 (p + s) OR PINUSE_BIT) m1
      in mark_inuse_foot mp M p s m2)"

definition set_size_and_pinuse_of_inuse_chunk ::
  "malloc_params \<Rightarrow> addr_t \<Rightarrow> addr_t \<Rightarrow> size_t \<Rightarrow> words \<Rightarrow> words" where
  "set_size_and_pinuse_of_inuse_chunk mp M p s m =
     mark_inuse_foot mp M p s (set_head p (s OR PINUSE_BIT OR CINUSE_BIT) m)"

section \<open>Small bins\<close>

definition link_small :: "addr_t \<Rightarrow> addr_t \<Rightarrow> addr_t \<Rightarrow> words \<Rightarrow> words" where
  "link_small P B F m = set_bk P B (set_fd P F (set_bk F P (set_fd B P m)))"

definition insert_small_chunk :: "addr_t \<Rightarrow> addr_t \<Rightarrow> size_t \<Rightarrow> heap \<Rightarrow> heap res" where
  "insert_small_chunk M P S h =
     (let I = small_index S; B = smallbin_at M I in
      abort_unless (S \<ge> MIN_CHUNK_SIZE)
        (if \<not> smallmap_is_marked (ms h) I then
           Inr (upd_mem (link_small P B B) (upd_ms (mark_smallmap I) h))
         else
           let F = fd (mem h) B in
           abort_unless (ok_address (ms h) F) (Inr (upd_mem (link_small P B F) h))))"

definition join_links :: "addr_t \<Rightarrow> addr_t \<Rightarrow> words \<Rightarrow> words" where
  "join_links B F m = set_fd B F (set_bk F B m)"

definition unlink_small_chunk :: "addr_t \<Rightarrow> addr_t \<Rightarrow> size_t \<Rightarrow> heap \<Rightarrow> heap res" where
  "unlink_small_chunk M P S h =
     (let F = fd (mem h) P; B = bk (mem h) P; I = small_index S in
      abort_unless (P \<noteq> B \<and> P \<noteq> F \<and> chunksize (mem h) P = small_index2size I)
        (abort_unless (F = smallbin_at M I \<or> (ok_address (ms h) F \<and> bk (mem h) F = P))
          (if B = F then Inr (upd_ms (clear_smallmap I) h)
           else abort_unless (B = smallbin_at M I \<or> (ok_address (ms h) B \<and> fd (mem h) B = P))
             (Inr (upd_mem (join_links B F) h)))))"

definition unlink_first_small_chunk :: "addr_t \<Rightarrow> addr_t \<Rightarrow> uint \<Rightarrow> heap \<Rightarrow> heap res" where
  "unlink_first_small_chunk B P I h =
     (let F = fd (mem h) P in
      abort_unless (P \<noteq> B \<and> P \<noteq> F \<and> chunksize (mem h) P = small_index2size I)
        (if B = F then Inr (upd_ms (clear_smallmap I) h)
         else abort_unless (ok_address (ms h) F \<and> bk (mem h) F = P)
           (Inr (upd_mem (join_links B F) h))))"

definition replace_dv :: "addr_t \<Rightarrow> addr_t \<Rightarrow> size_t \<Rightarrow> heap \<Rightarrow> heap res" where
  "replace_dv M P S h =
     (let DVS = dvsize (ms h) in
      abort_unless (is_small DVS)
        (res_bind (if DVS \<noteq> 0 then insert_small_chunk M (dv (ms h)) DVS h else Inr h)
          (\<lambda>h1. Inr (upd_ms (\<lambda>s. s\<lparr>dvsize := S, dv := P\<rparr>) h1))))"

section \<open>Tree bins\<close>

text \<open>The bit of the size that chooses the child, and the walk that \<^verbatim>\<open>insert_large_chunk\<close> makes.\<close>

definition child_bit :: "size_t \<Rightarrow> nat" where
  "child_bit k = (if bit k 63 then 1 else 0)"

definition insert_walk :: "words \<Rightarrow> size_t \<Rightarrow> addr_t \<times> size_t \<Rightarrow> (addr_t \<times> size_t) option" where
  "insert_walk m S = while_option
     (\<lambda>(T, K). chunksize m T \<noteq> S \<and> child m T (child_bit K) \<noteq> 0)
     (\<lambda>(T, K). (child m T (child_bit K), push_bit 1 K))"

definition init_tree_chunk :: "addr_t \<Rightarrow> uint \<Rightarrow> words \<Rightarrow> words" where
  "init_tree_chunk X I m = (set_tindex X I m)(child_at X 1 := 0, child_at X 0 := 0)"

definition insert_large_chunk :: "addr_t \<Rightarrow> addr_t \<Rightarrow> size_t \<Rightarrow> heap \<Rightarrow> heap res" where
  "insert_large_chunk M X S h =
     (let I = compute_tree_index S; H = treebin_at M I; h1 = upd_mem (init_tree_chunk X I) h in
      if \<not> treemap_is_marked (ms h1) I then
        Inr (upd_mem (\<lambda>m. set_fd X X (set_bk X X (set_parent X H (m(H := X))))) (upd_ms (mark_treemap I) h1))
      else
        (case insert_walk (mem h1) S (mem h1 H, push_bit (leftshift_for_tree_index I) S) of
           None \<Rightarrow> Inl Diverges
         | Some (T, K) \<Rightarrow>
             if chunksize (mem h1) T \<noteq> S then
               let C = child_at T (child_bit K) in
               abort_unless (ok_address (ms h1) C)
                 (Inr (upd_mem (\<lambda>m. set_fd X X (set_bk X X (set_parent X T (m(C := X))))) h1))
             else
               let F = fd (mem h1) T in
               abort_unless (ok_address (ms h1) T \<and> ok_address (ms h1) F)
                 (Inr (upd_mem (\<lambda>m. set_parent X 0 (set_bk X T (set_fd X F (set_fd T X (set_bk F X m))))) h1))))"

text \<open>
  The leaf that takes the place of an inner node: the walk keeps \<^verbatim>\<open>RP\<close>, where the link to \<^verbatim>\<open>R\<close> is stored.
\<close>

definition right_first :: "words \<Rightarrow> addr_t \<Rightarrow> addr_t" where
  "right_first m R = (if child m R 1 \<noteq> 0 then child_at R 1 else child_at R 0)"

definition leaf_walk :: "words \<Rightarrow> addr_t \<Rightarrow> addr_t option" where
  "leaf_walk m = while_option (\<lambda>RP. m (right_first m (m RP)) \<noteq> 0) (\<lambda>RP. right_first m (m RP))"

definition choose_replacement :: "addr_t \<Rightarrow> heap \<Rightarrow> (addr_t \<times> heap) res" where
  "choose_replacement X h =
     (if bk (mem h) X \<noteq> X then
        let F = fd (mem h) X; R = bk (mem h) X in
        abort_unless (ok_address (ms h) F \<and> bk (mem h) F = X \<and> fd (mem h) R = X)
          (Inr (R, upd_mem (\<lambda>m. set_fd R F (set_bk F R m)) h))
      else
        let RP = right_first (mem h) X in
        if mem h RP = 0 then Inr (0, h)
        else
          (case leaf_walk (mem h) RP of
             None \<Rightarrow> Inl Diverges
           | Some RP' \<Rightarrow>
               let R = mem h RP' in
               abort_unless (ok_address (ms h) RP') (Inr (R, upd_mem (\<lambda>m. m(RP' := 0)) h))))"

definition adopt_child :: "addr_t \<Rightarrow> addr_t \<Rightarrow> nat \<Rightarrow> heap \<Rightarrow> heap res" where
  "adopt_child X R i h =
     (let C = child (mem h) X i in
      if C = 0 then Inr h
      else abort_unless (ok_address (ms h) C)
        (Inr (upd_mem (\<lambda>m. set_parent C R (m(child_at R i := C))) h)))"

definition relink_parent :: "addr_t \<Rightarrow> addr_t \<Rightarrow> addr_t \<Rightarrow> addr_t \<Rightarrow> heap \<Rightarrow> heap res" where
  "relink_parent M X XP R h =
     (let I = tindex (mem h) X; H = treebin_at M I in
      if X = mem h H then
        let h1 = upd_mem (\<lambda>m. m(H := R)) h in
        Inr (if R = 0 then upd_ms (clear_treemap (tindex (mem h1) X)) h1 else h1)
      else abort_unless (ok_address (ms h) XP)
        (Inr (upd_mem (\<lambda>m. m(child_at XP (if child m XP 0 = X then 0 else 1) := R)) h)))"

definition unlink_large_chunk :: "addr_t \<Rightarrow> addr_t \<Rightarrow> heap \<Rightarrow> heap res" where
  "unlink_large_chunk M X h =
     (let XP = parent (mem h) X in
      res_bind (choose_replacement X h) (\<lambda>(R, h1).
      if XP = 0 then Inr h1
      else
        res_bind (relink_parent M X XP R h1) (\<lambda>h2.
        if R = 0 then Inr h2
        else abort_unless (ok_address (ms h2) R)
          (res_bind (adopt_child X R 0 (upd_mem (set_parent R XP) h2)) (adopt_child X R 1)))))"

definition insert_chunk :: "addr_t \<Rightarrow> addr_t \<Rightarrow> size_t \<Rightarrow> heap \<Rightarrow> heap res" where
  "insert_chunk M P S = (if is_small S then insert_small_chunk M P S else insert_large_chunk M P S)"

definition unlink_chunk :: "addr_t \<Rightarrow> addr_t \<Rightarrow> size_t \<Rightarrow> heap \<Rightarrow> heap res" where
  "unlink_chunk M P S = (if is_small S then unlink_small_chunk M P S else unlink_large_chunk M P)"

section \<open>Circular lists in memory\<close>

lemma link_fields [simp]:
  "fd (set_fd a v m) b = (if b = a then v else fd m b)"
  "bk (set_bk a v m) b = (if b = a then v else bk m b)"
  "fd (set_bk a v m) b = (if b = a + 8 then v else fd m b)"
  "bk (set_fd a v m) b = (if a = b + 8 then v else bk m b)"
  by (auto simp: field_defs algebra_simps)

lemma link_head [simp]:
  "head (set_fd a v m) b = (if b = a + 8 then v else head m b)"
  "head (set_bk a v m) b = (if b = a + 16 then v else head m b)"
  by (auto simp: field_defs algebra_simps)

text \<open>The links from \<open>x\<close> forward through the nodes of the list to \<open>y\<close>, and back.\<close>

fun linked :: "words \<Rightarrow> addr_t \<Rightarrow> addr_t list \<Rightarrow> addr_t \<Rightarrow> bool" where
  "linked m x [] y \<longleftrightarrow> fd m x = y \<and> bk m y = x"
| "linked m x (c # cs) y \<longleftrightarrow> fd m x = c \<and> bk m c = x \<and> linked m c cs y"

text \<open>Nodes at these addresses do not share a word for their links.\<close>

definition separate :: "addr_t set \<Rightarrow> bool" where
  "separate N \<longleftrightarrow> (\<forall>x \<in> N. \<forall>y \<in> N. x \<noteq> y + 8)"

lemma separate_subset: "separate N \<Longrightarrow> N' \<subseteq> N \<Longrightarrow> separate N'"
  by (auto simp: separate_def)

lemma separateD: "separate N \<Longrightarrow> x \<in> N \<Longrightarrow> y \<in> N \<Longrightarrow> x \<noteq> y + 8"
  by (auto simp: separate_def)

lemma linked_append: "linked m x (xs @ c # ys) y \<longleftrightarrow> linked m x xs c \<and> linked m c ys y"
  by (induction xs arbitrary: x) auto

lemma linked_cong:
  assumes "\<And>a. a \<in> set (x # xs) \<Longrightarrow> fd m' a = fd m a" and "\<And>a. a \<in> set (xs @ [y]) \<Longrightarrow> bk m' a = bk m a"
  shows "linked m' x xs y \<longleftrightarrow> linked m x xs y"
  using assms by (induction xs arbitrary: x) auto

lemma linked_first: "linked m x xs y \<Longrightarrow> fd m x = hd (xs @ [y])"
  by (cases xs) auto

lemma linked_last: "linked m x xs y \<Longrightarrow> bk m y = last (x # xs)"
  by (induction xs arbitrary: x) auto

text \<open>Links that are changed outside a list do not change it.\<close>

lemma linked_join_other:
  assumes "separate N" and "{p, d} \<subseteq> N" and "set (x # xs) \<subseteq> N" and "y \<in> N"
    and "p \<notin> set (x # xs)" and "d \<notin> set (xs @ [y])"
  shows "linked (join_links p d m) x xs y \<longleftrightarrow> linked m x xs y"
proof (rule linked_cong)
  show "fd (join_links p d m) a = fd m a" if "a \<in> set (x # xs)" for a
    using that assms separateD [OF assms(1), of a d] by (auto simp: join_links_def)
  show "bk (join_links p d m) a = bk m a" if "a \<in> set (xs @ [y])" for a
    using that assms separateD [OF assms(1), of p a] by (auto simp: join_links_def)
qed

text \<open>The last link of a list can be turned to another node.\<close>

lemma linked_join_end:
  assumes "linked m x xs c" and "separate N" and "set (x # xs) \<subseteq> N" and "d \<in> N"
    and "distinct (x # xs)" and "d \<notin> set xs"
  shows "linked (join_links (last (x # xs)) d m) x xs d"
  using assms
proof (induction xs arbitrary: x)
  case Nil
  then show ?case using separateD [OF Nil.prems(2), of x d] by (auto simp: join_links_def)
next
  case (Cons a xs)
  let ?p = "last (a # xs)"
  have p: "?p \<in> set (a # xs)" by (rule last_in_set) simp
  have x: "fd (join_links ?p d m) x = a"
    using Cons.prems p separateD [OF Cons.prems(2), of x d] by (auto simp: join_links_def)
  have "bk (join_links ?p d m) a = bk m a"
    using Cons.prems p separateD [OF Cons.prems(2), of ?p a] by (auto simp: join_links_def)
  then show ?case using Cons x by simp
qed

text \<open>Taking a node out of a circular list.\<close>

lemma linked_remove:
  assumes "linked m B (xs @ P # ys) B" and "separate N" and "set (B # xs @ P # ys) \<subseteq> N"
    and "distinct (B # xs @ P # ys)"
  shows "linked (join_links (last (B # xs)) (hd (ys @ [B])) m) B (xs @ ys) B"
proof (cases ys)
  case Nil
  then show ?thesis using assms linked_join_end [of m B xs P N B] by (auto simp: linked_append)
next
  case (Cons d zs)
  let ?p = "last (B # xs)"
  have p: "?p \<in> set (B # xs)" by (rule last_in_set) simp
  have "linked (join_links ?p d m) B xs d"
    using assms Cons by (intro linked_join_end [of _ _ _ P N]) (auto simp: linked_append)
  moreover have "linked (join_links ?p d m) d zs B"
    using assms Cons p by (subst linked_join_other [of N]) (auto simp: linked_append)
  ultimately show ?thesis using Cons by (simp add: linked_append)
qed

text \<open>Putting a node in front.\<close>

lemma link_small_join:
  assumes "separate N" and "{P, B, F} \<subseteq> N" and "P \<noteq> F"
  shows "link_small P B F m = join_links P F (join_links B P m)"
proof -
  have "B \<noteq> P + 8" using assms separateD [of N B P] by auto
  then have "B + 16 \<noteq> P + 24" by (auto simp: algebra_simps)
  then have m1: "m(B + 16 := P, P + 24 := B) = m(P + 24 := B, B + 16 := P)" by (rule fun_upd_twist)
  have "F + 24 \<noteq> P + 24" "P + 16 \<noteq> P + 24" using assms(3) by auto
  then show ?thesis
    unfolding link_small_def join_links_def set_fd_def set_bk_def m1 [symmetric]
    by (simp add: fun_upd_twist [of "P + 24"])
qed

lemma linked_insert:
  assumes "cs \<noteq> [] \<Longrightarrow> linked m B cs B" and "separate N" and "set (B # P # cs) \<subseteq> N" and "distinct (B # P # cs)"
  shows "linked (link_small P B (hd (cs @ [B])) m) B (P # cs) B"
proof -
  let ?F = "hd (cs @ [B])" and ?m1 = "join_links B P m"
  have F: "?F \<in> N" "P \<noteq> ?F" using assms(3,4) by (cases cs; auto)+
  let ?m2 = "join_links P ?F ?m1"
  have eq: "link_small P B ?F m = ?m2" using assms F by (intro link_small_join [of N]) auto
  have "linked ?m1 B [] P" using assms separateD [OF assms(2), of B P] by (auto simp: join_links_def)
  then have "linked ?m2 B [] P"
    using assms F by (subst linked_join_other [of N]) auto
  moreover have "linked ?m2 P cs B"
  proof (cases cs)
    case Nil
    then show ?thesis using assms separateD [OF assms(2), of P B] by (auto simp: join_links_def)
  next
    case (Cons d ds)
    then have "linked ?m1 d ds B"
      using assms by (subst linked_join_other [of N]) auto
    then have "linked ?m2 d ds B" using assms Cons by (subst linked_join_other [of N]) auto
    moreover have "linked ?m2 P [] d"
      using assms Cons separateD [OF assms(2), of P d] by (auto simp: join_links_def)
    ultimately show ?thesis using Cons by simp
  qed
  ultimately show ?thesis using eq by simp
qed

lemma linked_link_other:
  assumes "linked m x xs y" and "separate N" and "{P, B, F} \<subseteq> N" and "P \<noteq> F" and "set (x # xs) \<subseteq> N" and "y \<in> N"
    and "P \<notin> set (x # xs @ [y])" and "B \<notin> set (x # xs)" and "F \<notin> set (xs @ [y])"
  shows "linked (link_small P B F m) x xs y"
  using assms by (simp add: link_small_join [of N] linked_join_other [of N])

section \<open>The small bins as lists\<close>

definition small_header :: "addr_t \<Rightarrow> nat \<Rightarrow> addr_t" where
  "small_header M i = smallbin_at M (of_nat i)"

definition bin_nodes :: "addr_t \<Rightarrow> (nat \<Rightarrow> addr_t list) \<Rightarrow> addr_t set" where
  "bin_nodes M f = (\<Union>i<32. insert (small_header M i) (set (f i)))"

text \<open>
  \<open>f i\<close> is the list of the chunks of bin \<open>i\<close>.  An empty bin has its bit cleared and the links of its
  header are not used; the chunks of bin \<open>i\<close> have the size of that bin; the nodes of all the bins are
  apart.
\<close>

definition heads_apart :: "addr_t set \<Rightarrow> addr_t set \<Rightarrow> bool" where
  "heads_apart C N \<longleftrightarrow> (\<forall>c \<in> C. \<forall>y \<in> N. c \<noteq> y + 16)"

definition binned :: "(nat \<Rightarrow> addr_t list) \<Rightarrow> addr_t set" where
  "binned f = (\<Union>i<32. set (f i))"

definition small_bins :: "addr_t \<Rightarrow> (nat \<Rightarrow> addr_t list) \<Rightarrow> heap \<Rightarrow> bool" where
  "small_bins M f h \<longleftrightarrow>
     separate (bin_nodes M f) \<and> heads_apart (binned f) (bin_nodes M f)
     \<and> (\<forall>i<32. distinct (small_header M i # f i) \<and> (bit (smallmap (ms h)) i \<longleftrightarrow> f i \<noteq> [])
           \<and> (f i \<noteq> [] \<longrightarrow> linked (mem h) (small_header M i) (f i) (small_header M i))
           \<and> (\<forall>c \<in> set (f i). ok_address (ms h) c \<and> chunksize (mem h) c = small_index2size (of_nat i)))
     \<and> (\<forall>i<32. \<forall>j<32. i \<noteq> j \<longrightarrow> set (small_header M i # f i) \<inter> set (small_header M j # f j) = {})"

text \<open>A chunk that is in no bin and shares no word with the chunks that are.\<close>

definition fresh_chunk :: "addr_t \<Rightarrow> (nat \<Rightarrow> addr_t list) \<Rightarrow> addr_t \<Rightarrow> heap \<Rightarrow> bool" where
  "fresh_chunk M f P h \<longleftrightarrow>
     P \<notin> bin_nodes M f \<and> separate (insert P (bin_nodes M f))
     \<and> heads_apart (insert P (binned f)) (insert P (bin_nodes M f)) \<and> ok_address (ms h) P"

lemma smallmap_bits:
  assumes "unat i < 32"
  shows "smallmap_is_marked s i \<longleftrightarrow> bit (smallmap s) (unat i)"
    and "bit (smallmap (mark_smallmap i s)) j \<longleftrightarrow> bit (smallmap s) j \<or> j = unat i"
    and "bit (smallmap (clear_smallmap i s)) j \<longleftrightarrow> bit (smallmap s) j \<and> j \<noteq> unat i"
proof -
  have "smallmap s AND push_bit (unat i) 1 = push_bit (unat i) (of_bool (bit (smallmap s) (unat i)))"
    using assms by (auto intro!: bit_word_eqI simp: bit_simps)
  moreover have "push_bit (unat i) 1 \<noteq> (0 :: uint)"
    using assms by (auto dest: arg_cong [where f = "\<lambda>x. bit x (unat i)"] simp: bit_simps)
  ultimately show "smallmap_is_marked s i \<longleftrightarrow> bit (smallmap s) (unat i)"
    by (auto simp: smallmap_is_marked_def idx2bit_def)
  show "bit (smallmap (mark_smallmap i s)) j \<longleftrightarrow> bit (smallmap s) j \<or> j = unat i"
    using assms by (auto simp: mark_smallmap_def idx2bit_def bit_simps)
  show "bit (smallmap (clear_smallmap i s)) j \<longleftrightarrow> bit (smallmap s) j \<and> j \<noteq> unat i"
    using assms by (auto simp: clear_smallmap_def idx2bit_def bit_simps dest: bit_imp_le_length)
qed

text \<open>What the invariant says of one bin.\<close>

lemma small_binsD:
  assumes "small_bins M f h" and "i < 32"
  shows "distinct (small_header M i # f i)"
    and "set (small_header M i # f i) \<subseteq> bin_nodes M f"
    and "bit (smallmap (ms h)) i \<longleftrightarrow> f i \<noteq> []"
    and "f i \<noteq> [] \<Longrightarrow> linked (mem h) (small_header M i) (f i) (small_header M i)"
    and "c \<in> set (f i) \<Longrightarrow> ok_address (ms h) c"
    and "c \<in> set (f i) \<Longrightarrow> chunksize (mem h) c = small_index2size (of_nat i)"
    and "c \<in> set (f i) \<Longrightarrow> c \<in> binned f"
  using assms by (auto simp: small_bins_def bin_nodes_def binned_def)

text \<open>Setting links does not change the sizes of chunks.\<close>

lemma link_small_chunksize:
  assumes "separate N" and "heads_apart C N" and "{P, B, F} \<subseteq> N" and "c \<in> C" and "C \<subseteq> N"
  shows "chunksize (link_small P B F m) c = chunksize m c"
  using assms by (auto simp: chunksize_def link_small_def separate_def heads_apart_def)

lemma join_links_chunksize:
  assumes "separate N" and "heads_apart C N" and "{B, F} \<subseteq> N" and "c \<in> C" and "C \<subseteq> N"
  shows "chunksize (join_links B F m) c = chunksize m c"
  using assms by (auto simp: chunksize_def join_links_def separate_def heads_apart_def)

lemma small_index_small: "is_small S \<Longrightarrow> unat (small_index S) < 32"
proof -
  assume "is_small S"
  then have "unat (drop_bit 3 S) < 32" by (simp add: is_small_def word_less_nat_alt)
  then have "unat (ucast (drop_bit 3 S) :: uint) = unat (drop_bit 3 S)"
    by (simp add: unsigned_ucast_eq unsigned_take_bit_eq take_bit_nat_eq_self_iff)
  with \<open>unat (drop_bit 3 S) < 32\<close> show ?thesis by (simp add: small_index_def)
qed

lemma small_header_index [simp]: "small_header M (unat i) = smallbin_at M i"
  by (simp add: small_header_def)

text \<open>Linking a chunk in front of a bin, in the two cases of the code.\<close>

lemma small_bins_link:
  assumes bins: "small_bins M f h" and i: "i < 32"
    and fresh: "fresh_chunk M f P h" and size: "chunksize (mem h) P = small_index2size (of_nat i)"
    and h': "mem h' = link_small P (small_header M i) (hd (f i @ [small_header M i])) (mem h)"
    and s': "\<And>j. bit (smallmap (ms h')) j \<longleftrightarrow> bit (smallmap (ms h)) j \<or> j = i" "least_addr (ms h') = least_addr (ms h)"
  shows "small_bins M (f(i := P # f i)) h'"
proof -
  let ?B = "small_header M" and ?N = "insert P (bin_nodes M f)" and ?C = "insert P (binned f)"
    and ?g = "f(i := P # f i)"
  have P: "P \<notin> bin_nodes M f" "separate ?N" "ok_address (ms h) P" "heads_apart ?C ?N"
    using fresh by (auto simp: fresh_chunk_def)
  have chunks: "binned ?g = ?C" using i by (auto simp: binned_def split: if_splits)
  have nodes: "bin_nodes M ?g = ?N" using i by (auto simp: bin_nodes_def split: if_splits)
  have F: "hd (f i @ [?B i]) \<in> set (?B i # f i)" by (cases "f i") auto
  have sub: "set (?B j # f j) \<subseteq> bin_nodes M f" if "j < 32" for j by (rule small_binsD [OF bins that])
  have apart: "set (?B j # f j) \<inter> set (?B i # f i) = {}" if "j < 32" "j \<noteq> i" for j
    using bins i that unfolding small_bins_def by blast
  have lists: "linked (mem h') (?B j) (?g j) (?B j)" if j: "j < 32" "?g j \<noteq> []" for j
  proof (cases "j = i")
    case True
    have "linked (link_small P (?B i) (hd (f i @ [?B i])) (mem h)) (?B i) (P # f i) (?B i)"
      using small_binsD(1,4) [OF bins i] P sub [OF i] by (intro linked_insert [where N = ?N]) auto
    with True show ?thesis by (simp add: h')
  next
    case False
    have "linked (mem h) (?B j) (f j) (?B j)" using small_binsD [OF bins j(1)] j False by simp
    moreover have "hd (f i @ [?B i]) \<notin> set (?B j # f j)" "?B i \<notin> set (?B j # f j)" using apart [OF j(1) False] F by auto
    moreover have "P \<noteq> hd (f i @ [?B i])" "hd (f i @ [?B i]) \<in> ?N" using F sub [OF i] P(1) by auto
    ultimately show ?thesis using False sub [OF j(1)] sub [OF i] P
      by (auto simp: h' intro!: linked_link_other [where N = ?N])
  qed
  have dist: "distinct (?B j # ?g j)" if "j < 32" for j
    using small_binsD(1) [OF bins that] sub [OF that] P(1) by (cases "j = i") auto
  have disj: "set (?B j # ?g j) \<inter> set (?B k # ?g k) = {}" if "j < 32" "k < 32" "j \<noteq> k" for j k
  proof -
    have "set (?B j # f j) \<inter> set (?B k # f k) = {}" using bins that unfolding small_bins_def by blast
    moreover have "P \<notin> set (?B j # f j)" "P \<notin> set (?B k # f k)" using sub P(1) that by auto
    ultimately show ?thesis using that by (auto split: if_splits)
  qed
  have ok: "ok_address (ms h') c \<and> chunksize (mem h') c = small_index2size (of_nat j)"
    if "j < 32" "c \<in> set (?g j)" for j c
  proof
    show "ok_address (ms h') c"
      using small_binsD(5) [OF bins that(1)] that P(3) s'(2) by (auto simp: ok_address_def split: if_splits)
    have "c \<in> ?C" using that small_binsD(7) [OF bins] by (auto split: if_splits)
    then have "chunksize (mem h') c = chunksize (mem h) c"
      unfolding h' using P F sub [OF i]
      by (intro link_small_chunksize [of ?N ?C]) (auto simp: binned_def bin_nodes_def)
    then show "chunksize (mem h') c = small_index2size (of_nat j)"
      using that small_binsD(6) [OF bins that(1)] size by (auto split: if_splits)
  qed
  have marks: "bit (smallmap (ms h')) j \<longleftrightarrow> ?g j \<noteq> []" if "j < 32" for j
    using s'(1) small_binsD(3) [OF bins that] by auto
  show ?thesis unfolding small_bins_def nodes chunks
    using P(2,4) dist lists ok disj marks by blast
qed

text \<open>Taking a chunk out of a bin.\<close>

lemma small_bins_unlink:
  assumes bins: "small_bins M f h" and i: "i < 32" and f: "f i = xs @ P # ys"
    and h': "xs @ ys \<noteq> [] \<Longrightarrow>
      mem h' = join_links (last (small_header M i # xs)) (hd (ys @ [small_header M i])) (mem h)"
      "xs @ ys = [] \<Longrightarrow> mem h' = mem h"
    and s': "\<And>j. bit (smallmap (ms h')) j \<longleftrightarrow> bit (smallmap (ms h)) j \<and> (j \<noteq> i \<or> xs @ ys \<noteq> [])"
      "least_addr (ms h') = least_addr (ms h)"
  shows "small_bins M (f(i := xs @ ys)) h'"
proof -
  let ?B = "small_header M" and ?g = "f(i := xs @ ys)"
  let ?p = "last (?B i # xs)" and ?d = "hd (ys @ [?B i])"
  have sep: "separate (bin_nodes M f)" using bins by (simp add: small_bins_def)
  have sub: "set (?B j # f j) \<subseteq> bin_nodes M f" if "j < 32" for j by (rule small_binsD [OF bins that])
  have nodes: "bin_nodes M ?g \<subseteq> bin_nodes M f" using f by (auto simp: bin_nodes_def split: if_splits)
  have less: "set (?g j) \<subseteq> set (f j)" for j using f by auto
  have heads: "heads_apart (binned f) (bin_nodes M f)" using bins by (simp add: small_bins_def)
  have chunks: "binned ?g \<subseteq> binned f" using less by (fastforce simp: binned_def)
  have ends: "?p \<in> set (?B i # f i)" "?d \<in> set (?B i # f i)"
    using last_in_set [of "?B i # xs"] hd_in_set [of "ys @ [?B i]"] unfolding f by auto
  have lists: "linked (mem h') (?B j) (?g j) (?B j)" if j: "j < 32" "?g j \<noteq> []" for j
  proof (cases "j = i")
    case True
    have "linked (join_links ?p ?d (mem h)) (?B i) (xs @ ys) (?B i)"
      using small_binsD(1,2,4) [OF bins i] sep unfolding f by (intro linked_remove [where P = P]) auto
    with True j(2) h'(1) show ?thesis by simp
  next
    case False
    have old: "linked (mem h) (?B j) (f j) (?B j)" using small_binsD(4) [OF bins j(1)] j False by simp
    have "set (?B j # f j) \<inter> set (?B i # f i) = {}" using bins i j(1) False unfolding small_bins_def by blast
    then have "linked (join_links ?p ?d (mem h)) (?B j) (f j) (?B j)"
      using old ends sub [OF j(1)] sub [OF i] sep by (subst linked_join_other [where N = "bin_nodes M f"]) auto
    with False old h' show ?thesis by (cases "xs @ ys = []") simp_all
  qed
  have dist: "distinct (?B j # ?g j)" if "j < 32" for j
    using small_binsD(1) [OF bins that] f by (cases "j = i") auto
  have disj: "set (?B j # ?g j) \<inter> set (?B k # ?g k) = {}" if "j < 32" "k < 32" "j \<noteq> k" for j k
  proof -
    have "set (?B j # f j) \<inter> set (?B k # f k) = {}" using bins that unfolding small_bins_def by blast
    with less [of j] less [of k] show ?thesis by auto
  qed
  have ok: "ok_address (ms h') c \<and> chunksize (mem h') c = small_index2size (of_nat j)"
    if "j < 32" "c \<in> set (?g j)" for j c
  proof
    have c: "c \<in> set (f j)" using less that(2) by blast
    show "ok_address (ms h') c" using small_binsD(5) [OF bins that(1) c] s'(2) by (simp add: ok_address_def)
    have "chunksize (join_links ?p ?d (mem h)) c = chunksize (mem h) c"
      using small_binsD(7) [OF bins that(1) c] sep heads ends sub [OF i]
      by (intro join_links_chunksize [of "bin_nodes M f" "binned f"]) (auto simp: binned_def bin_nodes_def)
    then show "chunksize (mem h') c = small_index2size (of_nat j)"
      using h' small_binsD(6) [OF bins that(1) c] by (cases "xs @ ys = []") simp_all
  qed
  have marks: "bit (smallmap (ms h')) j \<longleftrightarrow> ?g j \<noteq> []" if "j < 32" for j
    using s'(1) small_binsD(3) [OF bins that] f by (auto simp del: append_is_Nil_conv)
  show ?thesis unfolding small_bins_def
    using separate_subset [OF sep nodes] heads nodes chunks dist lists ok disj marks
    by (auto simp: heads_apart_def)
qed

section \<open>Small bin operations are list operations\<close>

lemma insert_small_chunk_list:
  assumes "small_bins M f h" and "is_small S" and "MIN_CHUNK_SIZE \<le> S"
    and "fresh_chunk M f P h" and "chunksize (mem h) P = small_index2size (small_index S)"
  shows "\<exists>h'. insert_small_chunk M P S h = Inr h'
    \<and> small_bins M (f(unat (small_index S) := P # f (unat (small_index S)))) h'"
proof -
  let ?i = "unat (small_index S)"
  have i: "?i < 32" by (rule small_index_small [OF assms(2)])
  have size: "chunksize (mem h) P = small_index2size (of_nat ?i)" using assms(5) by simp
  note mark = smallmap_bits [OF i]
  show ?thesis
  proof (cases "f ?i = []")
    case True
    let ?h = "upd_mem (link_small P (smallbin_at M (small_index S)) (smallbin_at M (small_index S)))
      (upd_ms (mark_smallmap (small_index S)) h)"
    have "insert_small_chunk M P S h = Inr ?h"
      using True assms(3) small_binsD(3) [OF assms(1) i] mark(1) by (simp add: insert_small_chunk_def Let_def)
    moreover have "small_bins M (f(?i := P # f ?i)) ?h"
      by (rule small_bins_link [OF assms(1) i assms(4) size]) (simp_all add: True mark(2), simp add: mark_smallmap_def)
    ultimately show ?thesis by blast
  next
    case False
    let ?F = "fd (mem h) (smallbin_at M (small_index S))"
    let ?h = "upd_mem (link_small P (smallbin_at M (small_index S)) ?F) h"
    have F: "?F = hd (f ?i @ [smallbin_at M (small_index S)])"
      using linked_first [OF small_binsD(4) [OF assms(1) i False]] by simp
    then have "ok_address (ms h) ?F" using small_binsD(5) [OF assms(1) i] False by simp
    then have "insert_small_chunk M P S h = Inr ?h"
      using False assms(3) small_binsD(3) [OF assms(1) i] mark(1) by (simp add: insert_small_chunk_def Let_def)
    moreover have "small_bins M (f(?i := P # f ?i)) ?h"
      by (rule small_bins_link [OF assms(1) i assms(4) size])
        (use False small_binsD(3) [OF assms(1) i] in \<open>auto simp: F\<close>)
    ultimately show ?thesis by blast
  qed
qed

lemma bin_ends:
  assumes "small_bins M f h" and "unat I < 32" and "f (unat I) = xs @ P # ys"
  defines "B \<equiv> smallbin_at M I"
  shows "bk (mem h) P = last (B # xs)" and "fd (mem h) P = hd (ys @ [B])"
    and "P \<noteq> last (B # xs)" and "P \<noteq> hd (ys @ [B])"
    and "last (B # xs) = hd (ys @ [B]) \<longleftrightarrow> xs @ ys = []"
    and "fd (mem h) (last (B # xs)) = P" and "bk (mem h) (hd (ys @ [B])) = P"
    and "last (B # xs) = B \<or> ok_address (ms h) (last (B # xs))"
    and "hd (ys @ [B]) = B \<or> ok_address (ms h) (hd (ys @ [B]))"
proof -
  note D = small_binsD [OF assms(1,2), unfolded small_header_index assms(3), folded B_def]
  have links: "linked (mem h) B xs P" "linked (mem h) P ys B" using D(4) by (simp_all add: linked_append)
  show "bk (mem h) P = last (B # xs)" by (rule linked_last [OF links(1)])
  show "fd (mem h) P = hd (ys @ [B])" by (rule linked_first [OF links(2)])
  show "P \<noteq> last (B # xs)" using D(1) last_in_set [of xs] by (auto split: if_splits)
  show "P \<noteq> hd (ys @ [B])" using D(1) by (cases ys) auto
  show "last (B # xs) = hd (ys @ [B]) \<longleftrightarrow> xs @ ys = []"
    using D(1) last_in_set [of xs] by (cases ys) (auto split: if_splits)
  show "fd (mem h) (last (B # xs)) = P"
    using links(1) by (induction xs arbitrary: B) auto
  show "bk (mem h) (hd (ys @ [B])) = P" using links(2) by (cases ys) auto
  show "last (B # xs) = B \<or> ok_address (ms h) (last (B # xs))"
    using D(5) last_in_set [of xs] by (auto split: if_splits)
  show "hd (ys @ [B]) = B \<or> ok_address (ms h) (hd (ys @ [B]))"
    using D(5) by (cases ys) auto
qed

lemma unlinked_heap:
  assumes "small_bins M f h" and "unat I < 32" and "f (unat I) = xs @ P # ys"
  defines "B \<equiv> smallbin_at M I"
  shows "small_bins M (f(unat I := xs @ ys))
    (if last (B # xs) = hd (ys @ [B]) then upd_ms (clear_smallmap I) h
     else upd_mem (join_links (last (B # xs)) (hd (ys @ [B]))) h)"
proof (rule small_bins_unlink [OF assms(1-3)])
  note ends = bin_ends [OF assms(1-3), folded B_def]
  note marks = small_binsD(3) [OF assms(1)] smallmap_bits [OF assms(2)]
  show "least_addr (ms (if last (B # xs) = hd (ys @ [B]) then upd_ms (clear_smallmap I) h
     else upd_mem (join_links (last (B # xs)) (hd (ys @ [B]))) h)) = least_addr (ms h)"
    by (simp add: clear_smallmap_def)
qed (use bin_ends(5) [OF assms(1-3)] in \<open>auto simp: B_def smallmap_bits [OF assms(2)]\<close>)

lemma unlink_small_chunk_list:
  assumes "small_bins M f h" and "is_small S" and "f (unat (small_index S)) = xs @ P # ys"
  shows "\<exists>h'. unlink_small_chunk M P S h = Inr h' \<and> small_bins M (f(unat (small_index S) := xs @ ys)) h'"
proof -
  let ?B = "smallbin_at M (small_index S)"
  have i: "unat (small_index S) < 32" by (rule small_index_small [OF assms(2)])
  have size: "chunksize (mem h) P = small_index2size (small_index S)"
    using small_binsD(6) [OF assms(1) i] assms(3) by simp
  note ends = bin_ends [OF assms(1) i assms(3)]
  have "unlink_small_chunk M P S h =
    Inr (if last (?B # xs) = hd (ys @ [?B]) then upd_ms (clear_smallmap (small_index S)) h
         else upd_mem (join_links (last (?B # xs)) (hd (ys @ [?B]))) h)"
    using ends(3,4,6-9) size unfolding unlink_small_chunk_def Let_def ends(1,2) by auto
  with unlinked_heap [OF assms(1) i assms(3)] show ?thesis by blast
qed

lemma unlink_first_small_chunk_list:
  assumes "small_bins M f h" and "unat I < 32" and "f (unat I) = P # ys"
  shows "fd (mem h) (smallbin_at M I) = P
    \<and> (\<exists>h'. unlink_first_small_chunk (smallbin_at M I) P I h = Inr h' \<and> small_bins M (f(unat I := ys)) h')"
proof -
  let ?B = "smallbin_at M I"
  have f: "f (unat I) = [] @ P # ys" using assms(3) by simp
  have size: "chunksize (mem h) P = small_index2size I"
    using small_binsD(6) [OF assms(1,2)] assms(3) by simp
  note ends = bin_ends [OF assms(1,2) f, simplified]
  have "unlink_first_small_chunk ?B P I h =
    Inr (if last (?B # []) = hd (ys @ [?B]) then upd_ms (clear_smallmap I) h
         else upd_mem (join_links (last (?B # [])) (hd (ys @ [?B]))) h)"
    using ends(3,4,7) size ends(9) unfolding unlink_first_small_chunk_def Let_def ends(2) by auto
  with unlinked_heap [OF assms(1,2) f] ends(6) show ?thesis by auto
qed

section \<open>The interface of the bins\<close>

text \<open>
  Free lists, as the allocator uses them: a family of lists that a state holds, from which any element
  can be taken.
\<close>

locale free_lists =
  fixes holds :: "(nat \<Rightarrow> 'c list) \<Rightarrow> 's \<Rightarrow> bool" and index :: "'i \<Rightarrow> nat" and valid_index :: "'i \<Rightarrow> bool"
    and fits :: "(nat \<Rightarrow> 'c list) \<Rightarrow> 'i \<Rightarrow> 'c \<Rightarrow> 's \<Rightarrow> bool"
    and put :: "'i \<Rightarrow> 'c \<Rightarrow> 's \<Rightarrow> 's res" and unlink :: "'i \<Rightarrow> 'c \<Rightarrow> 's \<Rightarrow> 's res" and first :: "'i \<Rightarrow> 's \<Rightarrow> 'c"
  assumes put_list: "holds f s \<Longrightarrow> valid_index i \<Longrightarrow> fits f i c s
      \<Longrightarrow> \<exists>s'. put i c s = Inr s' \<and> holds (f(index i := c # f (index i))) s'"
    and unlink_list: "holds f s \<Longrightarrow> valid_index i \<Longrightarrow> f (index i) = xs @ c # ys
      \<Longrightarrow> \<exists>s'. unlink i c s = Inr s' \<and> holds (f(index i := xs @ ys)) s'"
    and first_list: "holds f s \<Longrightarrow> valid_index i \<Longrightarrow> f (index i) = c # cs \<Longrightarrow> first i s = c"
begin

lemma put_unlink:
  assumes "holds f s" and "valid_index i" and "fits f i c s"
  shows "\<exists>s1 s2. put i c s = Inr s1 \<and> first i s1 = c \<and> unlink i c s1 = Inr s2 \<and> holds f s2"
proof -
  from put_list [OF assms] obtain s1 where s1: "put i c s = Inr s1" "holds (f(index i := c # f (index i))) s1"
    by blast
  then have "first i s1 = c" using first_list [OF s1(2) assms(2)] by simp
  moreover from unlink_list [OF s1(2) assms(2), of "[]"] obtain s2 where
    "unlink i c s1 = Inr s2" "holds f s2" by auto
  ultimately show ?thesis using s1(1) by blast
qed

lemma drain:
  assumes "holds f s" and "valid_index i" and "mset cs = mset (f (index i))"
  shows "\<exists>s'. res_fold (unlink i) cs s = Inr s' \<and> holds (f(index i := [])) s'"
  using assms
proof (induction cs arbitrary: f s)
  case Nil
  then have "f (index i) = []" by simp
  then have "f(index i := []) = f" by (rule fun_upd_idem)
  with Nil show ?case by (metis res_fold.simps(1))
next
  case (Cons c cs)
  have "c \<in> set (f (index i))" using Cons.prems(3) by (metis list.set_intros(1) set_mset_mset)
  then obtain xs ys where split: "f (index i) = xs @ c # ys" by (meson split_list)
  from unlink_list [OF Cons.prems(1,2) split] obtain s1 where
    s1: "unlink i c s = Inr s1" "holds (f(index i := xs @ ys)) s1" by blast
  have "mset cs = mset ((f(index i := xs @ ys)) (index i))" using Cons.prems(3) split by simp
  from Cons.IH [OF s1(2) Cons.prems(2) this] s1(1) show ?case
    by (simp only: res_fold.simps res_bind_simps fun_upd_upd)
qed

end

definition fits_bin :: "addr_t \<Rightarrow> (nat \<Rightarrow> addr_t list) \<Rightarrow> size_t \<Rightarrow> addr_t \<Rightarrow> heap \<Rightarrow> bool" where
  "fits_bin M f S P h \<longleftrightarrow>
     MIN_CHUNK_SIZE \<le> S \<and> fresh_chunk M f P h \<and> chunksize (mem h) P = small_index2size (small_index S)"

definition first_in_bin :: "addr_t \<Rightarrow> size_t \<Rightarrow> heap \<Rightarrow> addr_t" where
  "first_in_bin M S h = fd (mem h) (smallbin_at M (small_index S))"

interpretation bins: free_lists "small_bins M" "\<lambda>S. unat (small_index S)" is_small "fits_bin M"
  "\<lambda>S P. insert_small_chunk M P S" "\<lambda>S P. unlink_small_chunk M P S" "first_in_bin M"
proof unfold_locales
  show "\<exists>s'. insert_small_chunk M c i s = Inr s' \<and> small_bins M (f(unat (small_index i) := c # f (unat (small_index i)))) s'"
    if "small_bins M f s" "is_small i" "fits_bin M f i c s" for f s i c
    using that insert_small_chunk_list by (simp add: fits_bin_def)
  show "\<exists>s'. unlink_small_chunk M c i s = Inr s' \<and> small_bins M (f(unat (small_index i) := xs @ ys)) s'"
    if "small_bins M f s" "is_small i" "f (unat (small_index i)) = xs @ c # ys" for f s i xs c ys
    by (rule unlink_small_chunk_list [OF that])
  show "first_in_bin M i s = c"
    if "small_bins M f s" "is_small i" "f (unat (small_index i)) = c # cs" for f s i c cs
    using unlink_first_small_chunk_list [OF that(1) small_index_small [OF that(2)] that(3)]
    by (simp add: first_in_bin_def)
qed

section \<open>Bins of a new mspace\<close>

lemma small_header_eq: "small_header M i = M + of_nat (72 + 16 * i)" if "i < 32"
proof -
  have "unat (push_bit 1 (of_nat i :: uint)) = 2 * i"
    using that by (simp add: push_bit_eq_mult unat_word_ariths unsigned_of_nat take_bit_eq_mod)
  then have "ucast (push_bit 1 (of_nat i :: uint)) = (of_nat (2 * i) :: addr_t)" by (metis of_nat_unat)
  then show ?thesis by (simp add: small_header_def smallbin_at_def)
qed

lemma of_nat_addr_eq:
  assumes "a < 2 ^ 64" and "b < 2 ^ 64"
  shows "(of_nat a :: addr_t) = of_nat b \<longleftrightarrow> a = b"
proof -
  have "unat (of_nat c :: addr_t) = c" if "c < 2 ^ 64" for c
    using that by (simp add: unsigned_of_nat take_bit_nat_eq_self_iff)
  with assms show ?thesis by metis
qed

lemma small_header_apart:
  assumes "i < 32" and "j < 32"
  shows "small_header M i = small_header M j \<longleftrightarrow> i = j" and "small_header M i \<noteq> small_header M j + 8"
proof -
  have "small_header M i = small_header M j \<longleftrightarrow> of_nat (72 + 16 * i) = (of_nat (72 + 16 * j) :: addr_t)"
    using assms by (simp add: small_header_eq)
  then show "small_header M i = small_header M j \<longleftrightarrow> i = j" using assms by (subst (asm) of_nat_addr_eq) auto
  have "small_header M i = small_header M j + 8 \<longleftrightarrow> of_nat (72 + 16 * i) = (of_nat (80 + 16 * j) :: addr_t)"
    using assms by (auto simp: small_header_eq)
  also have "\<dots> \<longleftrightarrow> 72 + 16 * i = 80 + 16 * j" using assms by (intro of_nat_addr_eq) auto
  finally show "small_header M i \<noteq> small_header M j + 8" by presburger
qed

lemma empty_small_bins: "smallmap (ms h) = 0 \<Longrightarrow> small_bins M (\<lambda>_. []) h"
  using small_header_apart [of _ _ M]
  by (auto simp: small_bins_def separate_def heads_apart_def bin_nodes_def binned_def)

lemma fresh_above_headers:
  assumes "unat M + 640 \<le> unat P" and "unat P + 8 < 2 ^ 64" and "ok_address (ms h) P"
  shows "fresh_chunk M (\<lambda>_. []) P h"
proof -
  define d where "d = unat P - unat M"
  have d: "640 \<le> d" "d + 8 < 2 ^ 64" using assms by (simp_all add: d_def)
  have "unat P = unat M + d" using assms(1) by (simp add: d_def)
  then have P: "P = M + of_nat d" by (metis of_nat_add of_nat_unat ucast_id)
  have up: "P \<noteq> small_header M i + of_nat k" if "i < 32" "k \<le> 16" for i k
  proof -
    have "P = small_header M i + of_nat k \<longleftrightarrow> (of_nat d :: addr_t) = of_nat (72 + 16 * i + k)"
      using that by (simp add: P small_header_eq algebra_simps)
    also have "\<dots> \<longleftrightarrow> d = 72 + 16 * i + k" using that d by (intro of_nat_addr_eq) auto
    finally show ?thesis using that d by simp
  qed
  have down: "small_header M i \<noteq> P + 8" if "i < 32" for i
  proof -
    have "small_header M i = P + 8 \<longleftrightarrow> (of_nat (72 + 16 * i) :: addr_t) = of_nat (d + 8)"
      using that by (simp add: P small_header_eq algebra_simps)
    also have "\<dots> \<longleftrightarrow> 72 + 16 * i = d + 8" using that d by (intro of_nat_addr_eq) auto
    finally show ?thesis using that d by simp
  qed
  show ?thesis
    using up [of _ 0] up [of _ 8] up [of _ 16] down small_header_apart(2) [of _ _ M] assms(3)
    by (auto simp: fresh_chunk_def separate_def heads_apart_def bin_nodes_def binned_def)
qed

section \<open>Properties\<close>

definition bins_example :: heap where
  "bins_example = \<lparr>mem = (\<lambda>_. 0)(0x2008 := 0x31), ms = \<lparr>smallmap = 0, treemap = 0, dvsize = 0, topsize = 0,
     least_addr = 0x1000, dv = 0, top_chunk = 0, trim_check = 0, release_checks = 0, ms_magic = 0, footprint = 0,
     max_footprint = 0, footprint_limit = 0, mflags = 0, mutex = False, 
     seg = \<lparr>seg_base = 0x1000, seg_size = 0x10000, seg_next = 0, seg_sflags = 0\<rparr>\<rparr>\<rparr>"

lemma bins_example_fits:
  "small_bins 0x1010 (\<lambda>_. []) bins_example" "is_small 48" "fits_bin 0x1010 (\<lambda>_. []) 48 0x2000 bins_example"
proof -
  show "small_bins 0x1010 (\<lambda>_. []) bins_example" by (rule empty_small_bins) (simp add: bins_example_def)
  show "is_small 48" by code_simp
  have "fresh_chunk 0x1010 (\<lambda>_. []) 0x2000 bins_example"
    by (rule fresh_above_headers) (simp_all add: ok_address_def bins_example_def)
  moreover have "chunksize (mem bins_example) 0x2000 = small_index2size (small_index 48)" by code_simp
  ultimately show "fits_bin 0x1010 (\<lambda>_. []) 48 0x2000 bins_example" by (simp add: fits_bin_def)
qed

text \<open>
  C29: Linking a free chunk into its small bin is putting it in front of the list of that bin: the run-time
  checks pass, the links in memory form the longer circular list, the bit of the bin is set, and the
  lists, sizes and bits of the other bins stay as they are.
\<close>
theorem insert_small_refines_cons:
  assumes "small_bins M f h" and "is_small S" and "fits_bin M f S P h"
  shows "\<exists>h'. insert_small_chunk M P S h = Inr h' \<and> first_in_bin M S h' = P
    \<and> small_bins M (f(unat (small_index S) := P # f (unat (small_index S)))) h'"
proof -
  from bins.put_list [OF assms] obtain h' where h': "insert_small_chunk M P S h = Inr h'"
    "small_bins M (f(unat (small_index S) := P # f (unat (small_index S)))) h'" by blast
  then show ?thesis using bins.first_list [OF h'(2) assms(2)] by simp
qed

theorem insert_small_refines_cons_witness:
  "\<exists>h'. insert_small_chunk 0x1010 0x2000 48 bins_example = Inr h' \<and> first_in_bin 0x1010 48 h' = 0x2000
    \<and> small_bins 0x1010 ((\<lambda>_. [])(6 := [0x2000])) h'"
proof -
  have "unat (small_index 48) = 6" by code_simp
  then show ?thesis using insert_small_refines_cons [OF bins_example_fits] by simp
qed

text \<open>
  C30: Unlinking a chunk from anywhere in its small bin is removing it from the list: no check fails, the
  neighbours are joined, and the bit of the bin is cleared exactly when the chunk was the only one.
\<close>
theorem unlink_small_refines_remove:
  assumes "small_bins M f h" and "is_small S" and "f (unat (small_index S)) = xs @ P # ys"
  shows "\<exists>h'. unlink_small_chunk M P S h = Inr h' \<and> small_bins M (f(unat (small_index S) := xs @ ys)) h'
    \<and> (smallmap_is_marked (ms h') (small_index S) \<longleftrightarrow> xs @ ys \<noteq> [])"
proof -
  note i = small_index_small [OF assms(2)]
  from bins.unlink_list [OF assms] obtain h' where h': "unlink_small_chunk M P S h = Inr h'"
    "small_bins M (f(unat (small_index S) := xs @ ys)) h'" by blast
  then show ?thesis using small_binsD(3) [OF h'(2) i] by (simp add: smallmap_bits [OF i])
qed

theorem unlink_small_refines_remove_witness:
  "\<exists>h h'. small_bins 0x1010 ((\<lambda>_. [])(6 := [0x2000])) h \<and> unlink_small_chunk 0x1010 0x2000 48 h = Inr h'
    \<and> \<not> smallmap_is_marked (ms h') 6"
proof -
  have six: "small_index 48 = 6" "unat (small_index 48) = 6" by code_simp+
  from bins.put_list [OF bins_example_fits] obtain h where
    h: "small_bins 0x1010 ((\<lambda>_. [])(6 := [0x2000])) h" by (auto simp: six)
  with unlink_small_refines_remove [OF h bins_example_fits(2), of "[]"] six show ?thesis by fastforce
qed

text \<open>
  A small bin can be emptied by unlinking its chunks in any order, as consolidation does when
  neighbours are freed: no unlinking aborts, and at the end the bin is empty and its bit cleared.
\<close>
lemma small_bin_drains:
  assumes "small_bins M f h" and "is_small S" and "mset cs = mset (f (unat (small_index S)))"
  shows "\<exists>h'. res_fold (\<lambda>P. unlink_small_chunk M P S) cs h = Inr h'
    \<and> small_bins M (f(unat (small_index S) := [])) h' \<and> \<not> smallmap_is_marked (ms h') (small_index S)"
proof -
  note i = small_index_small [OF assms(2)]
  from bins.drain [OF assms] obtain h' where h': "res_fold (\<lambda>P. unlink_small_chunk M P S) cs h = Inr h'"
    "small_bins M (f(unat (small_index S) := [])) h'" by blast
  then show ?thesis using small_binsD(3) [OF h'(2) i] by (simp add: smallmap_bits [OF i])
qed

end
