(* ===== verification/Dl_Malloc.thy ===== *)
theory Dl_Malloc
  imports Dl_Bins
begin

text \<open>
  \<^verbatim>\<open>external/malloc.c\<close>, third part: creating an mspace, allocating from it and freeing into it.

  Two calls end outside these definitions, in the part of the allocator that obtains memory from the
  system and gives it back.  They are values: \<open>Sys_alloc nb\<close> where \<^verbatim>\<open>mspace_malloc\<close> ends with
  \<^verbatim>\<open>sys_alloc(ms, nb)\<close>, and \<open>Sys_trim\<close> and \<open>Release_unused\<close> where \<^verbatim>\<open>mspace_free\<close> ends with those calls, each
  with the heap at the call.  \<open>munmap\<close> is a parameter: whether the system unmaps a region.
\<close>

section \<open>Locking\<close>

text \<open>
  The spin lock of an mspace.  A process that finds it held spins as long as it is held: with nobody to
  release it that is for ever, which is the value \<open>Inl Diverges\<close>.
\<close>

definition USE_MMAP_BIT :: uint where "USE_MMAP_BIT = 1"
definition USE_LOCK_BIT :: uint where "USE_LOCK_BIT = 2"
definition USE_NONCONTIGUOUS_BIT :: uint where "USE_NONCONTIGUOUS_BIT = 4"
definition EXTERN_BIT :: uint where "EXTERN_BIT = 8"

definition use_lock :: "malloc_state \<Rightarrow> bool" where
  "use_lock s \<longleftrightarrow> mflags s AND USE_LOCK_BIT \<noteq> 0"

definition PREACTION :: "heap \<Rightarrow> heap res" where
  "PREACTION h =
     (if use_lock (ms h) then
        if mutex (ms h) then Inl Diverges else Inr (upd_ms (mutex_update (\<lambda>_. True)) h)
      else Inr h)"

definition POSTACTION :: "heap \<Rightarrow> heap" where
  "POSTACTION h = (if use_lock (ms h) then upd_ms (mutex_update (\<lambda>_. False)) h else h)"

definition with_lock :: "(heap \<Rightarrow> ('a \<times> heap) res) \<Rightarrow> heap \<Rightarrow> ('a \<times> heap) res" where
  "with_lock f h = res_bind (PREACTION h) (\<lambda>h1. res_bind (f h1) (\<lambda>(a, h2). Inr (a, POSTACTION h2)))"

definition set_lock :: "bool \<Rightarrow> malloc_state \<Rightarrow> malloc_state" where
  "set_lock l s = s\<lparr>mflags := (if l then mflags s OR USE_LOCK_BIT else mflags s AND NOT USE_LOCK_BIT)\<rparr>"

section \<open>Large requests\<close>

text \<open>Splitting a chunk \<open>v\<close> that is not in a bin any more: the common end of the two functions below.\<close>

definition split_or_use ::
  "malloc_params \<Rightarrow> addr_t \<Rightarrow> addr_t \<Rightarrow> size_t \<Rightarrow> size_t
    \<Rightarrow> (addr_t \<Rightarrow> size_t \<Rightarrow> heap \<Rightarrow> heap res) \<Rightarrow> heap \<Rightarrow> (addr_t \<times> heap) res" where
  "split_or_use mp M v nb rs keep h =
     res_bind
       (if rs < MIN_CHUNK_SIZE then Inr (upd_mem (set_inuse_and_pinuse mp M v (rs + nb)) h)
        else
          let r = chunk_plus_offset v nb in
          keep r rs
            (upd_mem (\<lambda>m. set_size_and_pinuse_of_free_chunk r rs
               (set_size_and_pinuse_of_inuse_chunk mp M v nb m)) h))
       (\<lambda>h1. Inr (chunk2mem v, h1))"

text \<open>The search of \<^verbatim>\<open>tmalloc_large\<close> in the tree of the size's own bin.\<close>

record large_search =
  ls_done :: bool
  ls_t :: addr_t
  ls_v :: addr_t
  ls_rsize :: size_t
  ls_bits :: size_t
  ls_rst :: addr_t

definition large_step :: "words \<Rightarrow> size_t \<Rightarrow> large_search \<Rightarrow> large_search" where
  "large_step m nb s =
     (let trem = chunksize m (ls_t s) - nb;
          s1 = (if trem < ls_rsize s then s\<lparr>ls_v := ls_t s, ls_rsize := trem\<rparr> else s)
      in
      if trem < ls_rsize s \<and> trem = 0 then s1\<lparr>ls_done := True\<rparr>
      else
        let rt = child m (ls_t s) 1;
            t = child m (ls_t s) (child_bit (ls_bits s));
            rst = (if rt \<noteq> 0 \<and> rt \<noteq> t then rt else ls_rst s)
        in
        if t = 0 then s1\<lparr>ls_t := rst, ls_rst := rst, ls_done := True\<rparr>
        else s1\<lparr>ls_t := t, ls_rst := rst, ls_bits := push_bit 1 (ls_bits s)\<rparr>)"

text \<open>The walk to the leftmost leaf, keeping the best fit.\<close>

definition leftmost_walk ::
  "words \<Rightarrow> size_t \<Rightarrow> addr_t \<times> addr_t \<times> size_t \<Rightarrow> (addr_t \<times> addr_t \<times> size_t) option" where
  "leftmost_walk m nb = while_option (\<lambda>(t, v, rs). t \<noteq> 0)
     (\<lambda>(t, v, rs).
        let trem = chunksize m t - nb in
        if trem < rs then (leftmost_child m t, t, trem) else (leftmost_child m t, v, rs))"

definition own_tree_search :: "addr_t \<Rightarrow> size_t \<Rightarrow> words \<Rightarrow> (addr_t \<times> addr_t \<times> size_t) option" where
  "own_tree_search M nb m =
     (let idx = compute_tree_index nb; t = m (treebin_at M idx) in
      if t = 0 then Some (0, 0, - nb)
      else map_option (\<lambda>s. (ls_t s, ls_v s, ls_rsize s))
        (while_option (\<lambda>s. \<not> ls_done s) (large_step m nb)
          \<lparr>ls_done = False, ls_t = t, ls_v = 0, ls_rsize = - nb,
           ls_bits = push_bit (leftshift_for_tree_index idx) nb, ls_rst = 0\<rparr>))"

definition next_tree :: "addr_t \<Rightarrow> size_t \<Rightarrow> heap \<Rightarrow> addr_t" where
  "next_tree M nb h =
     (let leftbits = left_bits (idx2bit (compute_tree_index nb)) AND treemap (ms h) in
      if leftbits \<noteq> 0 then mem h (treebin_at M (compute_bit2idx (least_bit leftbits))) else 0)"

definition tmalloc_large :: "malloc_params \<Rightarrow> addr_t \<Rightarrow> size_t \<Rightarrow> heap \<Rightarrow> (addr_t \<times> heap) res" where
  "tmalloc_large mp M nb h =
     (case own_tree_search M nb (mem h) of
        None \<Rightarrow> Inl Diverges
      | Some (t0, v0, r0) \<Rightarrow>
          let t1 = (if t0 = 0 \<and> v0 = 0 then next_tree M nb h else t0) in
          (case leftmost_walk (mem h) nb (t1, v0, r0) of
             None \<Rightarrow> Inl Diverges
           | Some (_, v, rs) \<Rightarrow>
               if v \<noteq> 0 \<and> rs < dvsize (ms h) - nb then
                 abort_unless (ok_address (ms h) v)
                   (let r = chunk_plus_offset v nb in
                    abort_unless (chunksize (mem h) v = rs + nb)
                      (abort_unless (ok_next v r)
                        (res_bind (unlink_large_chunk M v h)
                          (split_or_use mp M v nb rs (insert_chunk M)))))
               else Inr (0, h)))"

definition tmalloc_small :: "malloc_params \<Rightarrow> addr_t \<Rightarrow> size_t \<Rightarrow> heap \<Rightarrow> (addr_t \<times> heap) res" where
  "tmalloc_small mp M nb h =
     (let i = compute_bit2idx (least_bit (treemap (ms h)));
          t = mem h (treebin_at M i)
      in
      case leftmost_walk (mem h) nb (leftmost_child (mem h) t, t, chunksize (mem h) t - nb) of
        None \<Rightarrow> Inl Diverges
      | Some (_, v, rs) \<Rightarrow>
          abort_unless (ok_address (ms h) v)
            (let r = chunk_plus_offset v nb in
             abort_unless (chunksize (mem h) v = rs + nb)
               (abort_unless (ok_next v r)
                 (res_bind (unlink_large_chunk M v h)
                   (split_or_use mp M v nb rs (replace_dv M))))))"

section \<open>mspace\_malloc\<close>

datatype malloc_exit = Mem addr_t | Sys_alloc size_t

text \<open>
  Requests of at most \<^verbatim>\<open>MAX_SMALL_REQUEST\<close> bytes, as far as they are served from small bins and trees;
  \<open>None\<close> when the code falls through to the designated victim and the top.
\<close>

definition malloc_small_bins ::
  "malloc_params \<Rightarrow> addr_t \<Rightarrow> size_t \<Rightarrow> heap \<Rightarrow> (addr_t option \<times> heap) res" where
  "malloc_small_bins mp M nb h =
     (let idx = small_index nb; smallbits = drop_bit (unat idx) (smallmap (ms h)) in
      if smallbits AND 3 \<noteq> 0 then
        let idx1 = idx + (NOT smallbits AND 1);
            b = smallbin_at M idx1;
            p = fd (mem h) b
        in
        abort_unless (chunksize (mem h) p = small_index2size idx1)
          (res_bind (unlink_first_small_chunk b p idx1 h) (\<lambda>h1.
            Inr (Some (chunk2mem p), upd_mem (set_inuse_and_pinuse mp M p (small_index2size idx1)) h1)))
      else if nb > dvsize (ms h) then
        if smallbits \<noteq> 0 then
          let leftbits = push_bit (unat idx) smallbits AND left_bits (idx2bit idx);
              i = compute_bit2idx (least_bit leftbits);
              b = smallbin_at M i;
              p = fd (mem h) b;
              rs = small_index2size i - nb
          in
          abort_unless (chunksize (mem h) p = small_index2size i)
            (res_bind (unlink_first_small_chunk b p i h) (\<lambda>h1.
             res_bind
               (if rs < MIN_CHUNK_SIZE then
                  Inr (upd_mem (set_inuse_and_pinuse mp M p (small_index2size i)) h1)
                else
                  let r = chunk_plus_offset p nb in
                  replace_dv M r rs
                    (upd_mem (\<lambda>m. set_size_and_pinuse_of_free_chunk r rs
                       (set_size_and_pinuse_of_inuse_chunk mp M p nb m)) h1))
               (\<lambda>h2. Inr (Some (chunk2mem p), h2))))
        else if treemap (ms h) \<noteq> 0 then
          res_bind (tmalloc_small mp M nb h) (\<lambda>(a, h1). Inr (if a \<noteq> 0 then Some a else None, h1))
        else Inr (None, h)
      else Inr (None, h))"

definition split_top :: "malloc_params \<Rightarrow> addr_t \<Rightarrow> size_t \<Rightarrow> heap \<Rightarrow> addr_t \<times> heap" where
  "split_top mp M nb h =
     (let rs = topsize (ms h) - nb; p = top_chunk (ms h); r = chunk_plus_offset p nb in
      (chunk2mem p,
       upd_mem (\<lambda>m. set_size_and_pinuse_of_inuse_chunk mp M p nb (set_head r (rs OR PINUSE_BIT) m))
         (upd_ms (\<lambda>s. s\<lparr>topsize := rs, top_chunk := r\<rparr>) h)))"

definition malloc_dv_top :: "malloc_params \<Rightarrow> addr_t \<Rightarrow> size_t \<Rightarrow> heap \<Rightarrow> malloc_exit \<times> heap" where
  "malloc_dv_top mp M nb h =
     (if nb \<le> dvsize (ms h) then
        let rs = dvsize (ms h) - nb; p = dv (ms h) in
        if rs \<ge> MIN_CHUNK_SIZE then
          let r = chunk_plus_offset p nb in
          (Mem (chunk2mem p),
           upd_mem (\<lambda>m. set_size_and_pinuse_of_inuse_chunk mp M p nb (set_size_and_pinuse_of_free_chunk r rs m))
             (upd_ms (\<lambda>s. s\<lparr>dv := r, dvsize := rs\<rparr>) h))
        else
          (Mem (chunk2mem p),
           upd_mem (set_inuse_and_pinuse mp M p (dvsize (ms h))) (upd_ms (\<lambda>s. s\<lparr>dvsize := 0, dv := 0\<rparr>) h))
      else if nb < topsize (ms h) then
        let (a, h1) = split_top mp M nb h in (Mem a, h1)
      else (Sys_alloc nb, h))"

text \<open>The call inside the lock, and with it.  \<^verbatim>\<open>sys_alloc\<close> is called while the lock is held.\<close>

definition malloc_locked :: "malloc_params \<Rightarrow> addr_t \<Rightarrow> size_t \<Rightarrow> heap \<Rightarrow> (malloc_exit \<times> heap) res" where
  "malloc_locked mp M nbytes h =
     (if nbytes \<le> MAX_SMALL_REQUEST then
        let nb = (if nbytes < MIN_REQUEST then MIN_CHUNK_SIZE else pad_request nbytes) in
        res_bind (malloc_small_bins mp M nb h) (\<lambda>(a, h1).
          Inr (case a of Some p \<Rightarrow> (Mem p, h1) | None \<Rightarrow> malloc_dv_top mp M nb h1))
      else if nbytes \<ge> MAX_REQUEST then Inr (malloc_dv_top mp M MAX_SIZE_T h)
      else
        let nb = pad_request nbytes in
        res_bind (if treemap (ms h) \<noteq> 0 then tmalloc_large mp M nb h else Inr (0, h)) (\<lambda>(a, h1).
          Inr (if a \<noteq> 0 then (Mem a, h1) else malloc_dv_top mp M nb h1)))"

definition locked_malloc :: "malloc_params \<Rightarrow> addr_t \<Rightarrow> size_t \<Rightarrow> heap \<Rightarrow> (malloc_exit \<times> heap) res" where
  "locked_malloc mp M nbytes h =
     res_bind (PREACTION h) (\<lambda>h0.
     res_bind (malloc_locked mp M nbytes h0) (\<lambda>(e, h1).
     Inr (e, case e of Mem _ \<Rightarrow> POSTACTION h1 | Sys_alloc _ \<Rightarrow> h1)))"

definition mspace_malloc :: "malloc_params \<Rightarrow> addr_t \<Rightarrow> size_t \<Rightarrow> heap \<Rightarrow> (malloc_exit \<times> heap) res" where
  "mspace_malloc mp M nbytes h = abort_unless (ok_magic mp (ms h)) (locked_malloc mp M nbytes h)"

section \<open>mspace\_free\<close>

datatype free_exit = Freed | Sys_trim | Release_unused

definition should_trim :: "malloc_state \<Rightarrow> size_t \<Rightarrow> bool" where
  "should_trim s sz \<longleftrightarrow> sz > trim_check s"

definition all_inuse :: "words \<Rightarrow> addr_t \<Rightarrow> bool" where
  "all_inuse m p \<longleftrightarrow> head m p AND INUSE_BITS = INUSE_BITS"

definition unmap_chunk :: "(addr_t \<Rightarrow> size_t \<Rightarrow> bool) \<Rightarrow> addr_t \<Rightarrow> size_t \<Rightarrow> heap \<Rightarrow> heap" where
  "unmap_chunk munmap p psize h =
     (let prevsize = prev_foot (mem h) p; sz = psize + prevsize + MMAP_FOOT_PAD in
      if munmap (p - prevsize) sz then upd_ms (\<lambda>s. s\<lparr>footprint := footprint s - sz\<rparr>) h else h)"

definition grow_top :: "addr_t \<Rightarrow> size_t \<Rightarrow> heap \<Rightarrow> heap" where
  "grow_top p psize h =
     (let tsize = topsize (ms h) + psize;
          h1 = upd_mem (set_head p (tsize OR PINUSE_BIT)) (upd_ms (\<lambda>s. s\<lparr>topsize := tsize, top_chunk := p\<rparr>) h)
      in if p = dv (ms h) then upd_ms (\<lambda>s. s\<lparr>dv := 0, dvsize := 0\<rparr>) h1 else h1)"

definition grow_dv :: "addr_t \<Rightarrow> size_t \<Rightarrow> heap \<Rightarrow> heap" where
  "grow_dv p psize h =
     (let dsize = dvsize (ms h) + psize in
      upd_mem (set_size_and_pinuse_of_free_chunk p dsize) (upd_ms (\<lambda>s. s\<lparr>dvsize := dsize, dv := p\<rparr>) h))"

text \<open>The end of \<^verbatim>\<open>mspace_free\<close>: binning the consolidated chunk.\<close>

definition free_into_bin :: "addr_t \<Rightarrow> addr_t \<Rightarrow> size_t \<Rightarrow> heap \<Rightarrow> (free_exit \<times> heap) res" where
  "free_into_bin M p psize h =
     (if is_small psize then res_bind (insert_small_chunk M p psize h) (\<lambda>h1. Inr (Freed, h1))
      else res_bind (insert_large_chunk M p psize h) (\<lambda>h1.
        let h2 = upd_ms (\<lambda>s. s\<lparr>release_checks := release_checks s - 1\<rparr>) h1 in
        Inr (if release_checks (ms h2) = 0 then Release_unused else Freed, h2)))"

definition free_forward :: "addr_t \<Rightarrow> addr_t \<Rightarrow> size_t \<Rightarrow> addr_t \<Rightarrow> heap \<Rightarrow> (free_exit \<times> heap) res" where
  "free_forward M p psize nxt h =
     abort_unless (ok_next p nxt \<and> pinuse (mem h) nxt)
       (if \<not> cinuse (mem h) nxt then
          if nxt = top_chunk (ms h) then
            let h1 = grow_top p psize h in
            Inr (if should_trim (ms h1) (topsize (ms h1)) then Sys_trim else Freed, h1)
          else if nxt = dv (ms h) then Inr (Freed, grow_dv p psize h)
          else
            let nsize = chunksize (mem h) nxt; psize' = psize + nsize in
            res_bind (unlink_chunk M nxt nsize h) (\<lambda>h1.
              let h2 = upd_mem (set_size_and_pinuse_of_free_chunk p psize') h1 in
              if p = dv (ms h2) then Inr (Freed, upd_ms (\<lambda>s. s\<lparr>dvsize := psize'\<rparr>) h2)
              else free_into_bin M p psize' h2)
        else free_into_bin M p psize (upd_mem (set_free_with_pinuse p psize nxt) h))"

definition free_locked ::
  "(addr_t \<Rightarrow> size_t \<Rightarrow> bool) \<Rightarrow> addr_t \<Rightarrow> addr_t \<Rightarrow> heap \<Rightarrow> (free_exit \<times> heap) res" where
  "free_locked munmap M p h =
     abort_unless (ok_address (ms h) p \<and> is_inuse (mem h) p)
       (let psize = chunksize (mem h) p; nxt = chunk_plus_offset p psize in
        if \<not> pinuse (mem h) p then
          if is_mmapped (mem h) p then Inr (Freed, unmap_chunk munmap p psize h)
          else
            let prevsize = prev_foot (mem h) p; prev = chunk_minus_offset p prevsize; psize' = psize + prevsize in
            abort_unless (ok_address (ms h) prev)
              (if prev \<noteq> dv (ms h) then res_bind (unlink_chunk M prev prevsize h) (free_forward M prev psize' nxt)
               else if all_inuse (mem h) nxt then
                 Inr (Freed, upd_mem (set_free_with_pinuse prev psize' nxt) (upd_ms (\<lambda>s. s\<lparr>dvsize := psize'\<rparr>) h))
               else free_forward M prev psize' nxt h)
        else free_forward M p psize nxt h)"

text \<open>
  The mspace of a chunk is read from its foot, so the whole call works on all the mspaces of the process:
  \<open>spaces\<close> gives the structure at an address, and a foot that leads anywhere else is a bad access.
\<close>

type_synonym mspaces = "addr_t \<Rightarrow> malloc_state option"

definition mspace_free ::
  "malloc_params \<Rightarrow> (addr_t \<Rightarrow> size_t \<Rightarrow> bool) \<Rightarrow> addr_t \<Rightarrow> words \<times> mspaces \<Rightarrow> (free_exit \<times> words \<times> mspaces) res" where
  "mspace_free mp munmap a st =
     (case st of (m, spaces) \<Rightarrow>
      if a = 0 then Inr (Freed, st)
      else
        let p = mem2chunk a; fm = get_mstate_for mp m p in
        case spaces fm of
          None \<Rightarrow> Inl BadAccess
        | Some s \<Rightarrow>
            abort_unless (ok_magic mp s)
              (res_bind (PREACTION \<lparr>mem = m, ms = s\<rparr>) (\<lambda>h0.
               res_bind (free_locked munmap fm p h0) (\<lambda>(e, h1).
               let h2 = (if e = Freed then POSTACTION h1 else h1) in
               Inr (e, mem h2, spaces(fm \<mapsto> ms h2))))))"

definition get_mspace :: "malloc_params \<Rightarrow> words \<Rightarrow> addr_t \<Rightarrow> addr_t" where
  "get_mspace mp m a = (if a \<noteq> 0 then get_mstate_for mp m (mem2chunk a) else 0)"

definition usable_size :: "words \<Rightarrow> addr_t \<Rightarrow> size_t" where
  "usable_size m a =
     (if a \<noteq> 0 \<and> is_inuse m (mem2chunk a) then chunksize m (mem2chunk a) - overhead_for m (mem2chunk a) else 0)"

text \<open>
  \<^verbatim>\<open>dispose_chunk\<close> is called inside the lock for a chunk that need not be marked as in use.
\<close>

definition dispose_forward :: "addr_t \<Rightarrow> addr_t \<Rightarrow> size_t \<Rightarrow> addr_t \<Rightarrow> heap \<Rightarrow> heap res" where
  "dispose_forward M p psize nxt h =
     abort_unless (ok_address (ms h) nxt)
       (if \<not> cinuse (mem h) nxt then
          if nxt = top_chunk (ms h) then Inr (grow_top p psize h)
          else if nxt = dv (ms h) then Inr (grow_dv p psize h)
          else
            let nsize = chunksize (mem h) nxt; psize' = psize + nsize in
            res_bind (unlink_chunk M nxt nsize h) (\<lambda>h1.
              let h2 = upd_mem (set_size_and_pinuse_of_free_chunk p psize') h1 in
              if p = dv (ms h2) then Inr (upd_ms (\<lambda>s. s\<lparr>dvsize := psize'\<rparr>) h2)
              else insert_chunk M p psize' h2)
        else insert_chunk M p psize (upd_mem (set_free_with_pinuse p psize nxt) h))"

definition dispose_chunk ::
  "(addr_t \<Rightarrow> size_t \<Rightarrow> bool) \<Rightarrow> addr_t \<Rightarrow> addr_t \<Rightarrow> size_t \<Rightarrow> heap \<Rightarrow> heap res" where
  "dispose_chunk munmap M p psize h =
     (let nxt = chunk_plus_offset p psize in
      if \<not> pinuse (mem h) p then
        let prevsize = prev_foot (mem h) p in
        if is_mmapped (mem h) p then Inr (unmap_chunk munmap p psize h)
        else
          let prev = chunk_minus_offset p prevsize; psize' = psize + prevsize in
          abort_unless (ok_address (ms h) prev)
            (if prev \<noteq> dv (ms h) then res_bind (unlink_chunk M prev prevsize h) (dispose_forward M prev psize' nxt)
             else if all_inuse (mem h) nxt then
               Inr (upd_mem (set_free_with_pinuse prev psize' nxt) (upd_ms (\<lambda>s. s\<lparr>dvsize := psize'\<rparr>) h))
             else dispose_forward M prev psize' nxt h)
      else dispose_forward M p psize nxt h)"

section \<open>Creating an mspace\<close>

definition init_top :: "malloc_params \<Rightarrow> addr_t \<Rightarrow> size_t \<Rightarrow> heap \<Rightarrow> heap" where
  "init_top mp p psize h =
     (let offset = align_offset (chunk2mem p); p' = p + offset; psize' = psize - offset in
      upd_mem (\<lambda>m. set_head (chunk_plus_offset p' psize') TOP_FOOT_SIZE (set_head p' (psize' OR PINUSE_BIT) m))
        (upd_ms (\<lambda>s. s\<lparr>top_chunk := p', topsize := psize', trim_check := trim_threshold mp\<rparr>) h))"

definition init_bins :: "addr_t \<Rightarrow> words \<Rightarrow> words" where
  "init_bins M m = fold (\<lambda>i m. let b = smallbin_at M (of_nat i) in set_fd b b (set_bk b b m)) [0..<32] m"

text \<open>
  The structure is 936 bytes long.  \<open>clear_words\<close> is the \<^verbatim>\<open>memset\<close> of its padded size, a multiple of 8;
  the scalar fields it clears are those of the record.
\<close>

fun clear_words :: "addr_t \<Rightarrow> nat \<Rightarrow> words \<Rightarrow> words" where
  "clear_words a 0 m = m"
| "clear_words a (Suc n) m = clear_words (a + 8) n (m(a := 0))"

definition MSTATE_SIZE :: size_t where "MSTATE_SIZE = pad_request 936"

definition MAX_RELEASE_CHECK_RATE :: size_t where "MAX_RELEASE_CHECK_RATE = 4095"

definition init_user_mstate :: "malloc_params \<Rightarrow> addr_t \<Rightarrow> size_t \<Rightarrow> words \<Rightarrow> addr_t \<times> heap" where
  "init_user_mstate mp tbase tsize m =
     (let msp = align_as_chunk tbase;
          M = chunk2mem msp;
          m1 = set_head msp (MSTATE_SIZE OR INUSE_BITS) (clear_words M (unat MSTATE_SIZE div 8) m);
          s = \<lparr>smallmap = 0, treemap = 0, dvsize = 0, topsize = 0, least_addr = tbase, dv = 0, top_chunk = 0,
               trim_check = 0, release_checks = MAX_RELEASE_CHECK_RATE, ms_magic = mp_magic mp,
               footprint = tsize, max_footprint = tsize, footprint_limit = 0,
               mflags = default_mflags mp OR USE_NONCONTIGUOUS_BIT, mutex = False,
               seg = \<lparr>seg_base = tbase, seg_size = tsize, seg_next = 0, seg_sflags = 0\<rparr>\<rparr>;
          m2 = init_bins M m1;
          mn = next_chunk m2 (mem2chunk M)
      in (M, init_top mp mn ((tbase + tsize) - mn - TOP_FOOT_SIZE) \<lparr>mem = m2, ms = s\<rparr>))"

definition granularity_align :: "malloc_params \<Rightarrow> size_t \<Rightarrow> size_t" where
  "granularity_align mp s = (s + (granularity mp - 1)) AND NOT (granularity mp - 1)"

text \<open>
  \<open>mmap\<close> is the system's answer to \<^verbatim>\<open>CALL_SHMMAP\<close> (\<open>True\<close>) or \<^verbatim>\<open>CALL_MMAP\<close> of a size; \<open>MFAIL\<close> is its failure.
  \<open>None\<close> is the null pointer.
\<close>

definition MFAIL :: addr_t where "MFAIL = MAX_SIZE_T"

definition capacity_limit :: "malloc_params \<Rightarrow> size_t" where
  "capacity_limit mp = - (MSTATE_SIZE + TOP_FOOT_SIZE + page_size mp)"

definition region_size :: "malloc_params \<Rightarrow> size_t \<Rightarrow> size_t" where
  "region_size mp capacity =
     granularity_align mp (if capacity = 0 then granularity mp else capacity + TOP_FOOT_SIZE + MSTATE_SIZE)"

definition create_mspace ::
  "malloc_params \<Rightarrow> (bool \<Rightarrow> size_t \<Rightarrow> addr_t) \<Rightarrow> size_t \<Rightarrow> bool \<Rightarrow> bool \<Rightarrow> words \<Rightarrow> (addr_t \<times> heap) option" where
  "create_mspace mp mmap capacity locked is_shared m =
     (if capacity < capacity_limit mp then
        let tsize = region_size mp capacity; tbase = mmap is_shared tsize in
        if tbase \<noteq> MFAIL then
          let (M, h) = init_user_mstate mp tbase tsize m in
          Some (M, upd_ms (\<lambda>s. set_lock locked (s\<lparr>seg := (seg s)\<lparr>seg_sflags := USE_MMAP_BIT\<rparr>\<rparr>)) h)
        else None
      else None)"

definition create_mspace_with_base ::
  "malloc_params \<Rightarrow> addr_t \<Rightarrow> size_t \<Rightarrow> bool \<Rightarrow> words \<Rightarrow> (addr_t \<times> heap) option" where
  "create_mspace_with_base mp start capacity locked m =
     (if MSTATE_SIZE + TOP_FOOT_SIZE < capacity \<and> capacity < capacity_limit mp then
        let (M, h) = init_user_mstate mp start capacity m in
        Some (M, upd_ms (\<lambda>s. set_lock locked (s\<lparr>seg := (seg s)\<lparr>seg_sflags := EXTERN_BIT\<rparr>\<rparr>)) h)
      else None)"

definition mspace_track_large_chunks :: "bool \<Rightarrow> heap \<Rightarrow> (bool \<times> heap) res" where
  "mspace_track_large_chunks enable =
     with_lock (\<lambda>h. Inr (mflags (ms h) AND USE_MMAP_BIT = 0,
       upd_ms (\<lambda>s. s\<lparr>mflags := (if \<not> enable then mflags s OR USE_MMAP_BIT else mflags s AND NOT USE_MMAP_BIT)\<rparr>) h))"

text \<open>
  The segments of an mspace: the first record is in its structure, the others are in memory.  Each
  is read whole before it is unmapped.
\<close>

definition seg_at :: "words \<Rightarrow> addr_t \<Rightarrow> msegment" where
  "seg_at m a = \<lparr>seg_base = m a, seg_size = m (a + 8), seg_next = m (a + 16), seg_sflags = ucast (m (a + 24))\<rparr>"

definition unmap_segment :: "(addr_t \<Rightarrow> size_t \<Rightarrow> bool) \<Rightarrow> msegment \<Rightarrow> size_t \<Rightarrow> size_t" where
  "unmap_segment munmap sg freed =
     (if seg_sflags sg AND USE_MMAP_BIT \<noteq> 0 \<and> seg_sflags sg AND EXTERN_BIT = 0 \<and> munmap (seg_base sg) (seg_size sg)
      then freed + seg_size sg else freed)"

definition destroy_mspace :: "malloc_params \<Rightarrow> (addr_t \<Rightarrow> size_t \<Rightarrow> bool) \<Rightarrow> heap \<Rightarrow> size_t res" where
  "destroy_mspace mp munmap h =
     abort_unless (ok_magic mp (ms h))
       (case while_option (\<lambda>(sp, freed). sp \<noteq> 0)
               (\<lambda>(sp, freed). let sg = seg_at (mem h) sp in (seg_next sg, unmap_segment munmap sg freed))
               (seg_next (seg (ms h)), unmap_segment munmap (seg (ms h)) 0) of
          None \<Rightarrow> Inl Diverges
        | Some (_, freed) \<Rightarrow> Inr freed)"

section \<open>Heads of chunks\<close>

lemma aligned_push:
  fixes s :: size_t
  assumes "16 dvd unat s"
  shows "s = push_bit 4 (drop_bit 4 s)"
proof -
  have "unat (s div 16 * 16) = unat s div 16 * 16 mod 2 ^ 64" by (simp add: unat_word_ariths unat_div_distrib mod_mult_left_eq)
  also have "\<dots> = unat s" using assms unsigned_less [of s, where ?'a = nat] by simp
  finally have "s div 16 * 16 = s" by (simp add: word_eq_iff_unsigned [where ?'a = nat])
  then show ?thesis by (simp add: push_bit_eq_mult drop_bit_eq_div)
qed

lemma mask_values: "(mask 1 :: size_t) = 1" "(mask 2 :: size_t) = 3" "NOT (mask 3 :: size_t) = - 8" "push_bit 1 (mask 1) = (2 :: size_t)"
  by (simp_all add: mask_eq_exp_minus_1)

lemma head_bits:
  fixes s :: size_t
  assumes "16 dvd unat s"
  shows "(s OR 3) AND - 8 = s" and "(s OR 1) AND - 8 = s" and "(s OR 3) AND 3 = 3"
    and "(s OR 3) AND 1 = 1" and "(s OR 3) AND 2 = 2"
    and "(s OR 1) AND 1 = 1" and "(s OR 1) AND 2 = 0" and "(s OR 1) AND 3 = 1"
proof -
  have "(push_bit 4 t OR mask 2) AND NOT (mask 3) = push_bit 4 t"
    "(push_bit 4 t OR mask 1) AND NOT (mask 3) = push_bit 4 t"
    "(push_bit 4 t OR mask 2) AND mask 2 = mask 2" "(push_bit 4 t OR mask 2) AND mask 1 = mask 1"
    "(push_bit 4 t OR mask 2) AND push_bit 1 (mask 1) = push_bit 1 (mask 1)"
    "(push_bit 4 t OR mask 1) AND mask 1 = mask 1" "(push_bit 4 t OR mask 1) AND push_bit 1 (mask 1) = 0"
    "(push_bit 4 t OR mask 1) AND mask 2 = mask 1" for t :: size_t
    by (rule bit_word_eqI; (simp only: bit_simps; auto))+
  from this [of "drop_bit 4 s"] show "(s OR 3) AND - 8 = s" "(s OR 1) AND - 8 = s" "(s OR 3) AND 3 = 3"
    "(s OR 3) AND 1 = 1" "(s OR 3) AND 2 = 2" "(s OR 1) AND 1 = 1" "(s OR 1) AND 2 = 0" "(s OR 1) AND 3 = 1"
    unfolding aligned_push [OF assms, symmetric] mask_values by simp_all
qed

section \<open>Allocation from the top\<close>

text \<open>
  The state of an mspace from which nothing has been freed: its bins and designated victim are empty, the
  lock is free, and the top lies inside the address space.  Its words are written by \<open>take_top\<close> only.
\<close>

definition only_top :: "malloc_params \<Rightarrow> heap \<Rightarrow> bool" where
  "only_top mp h \<longleftrightarrow>
     ok_magic mp (ms h) \<and> \<not> mutex (ms h) \<and> smallmap (ms h) = 0 \<and> treemap (ms h) = 0
     \<and> dvsize (ms h) = 0 \<and> dv (ms h) = 0 \<and> least_addr (ms h) \<le> top_chunk (ms h) \<and> 0 < top_chunk (ms h)
     \<and> 16 dvd unat (topsize (ms h)) \<and> 16 dvd unat (top_chunk (ms h))
     \<and> unat (top_chunk (ms h)) + unat (topsize (ms h)) + unat TOP_FOOT_SIZE < 2 ^ 64"

definition take_top :: "malloc_params \<Rightarrow> addr_t \<Rightarrow> size_t \<Rightarrow> heap \<Rightarrow> heap" where
  "take_top mp M nb h =
     upd_mem (\<lambda>m. set_size_and_pinuse_of_inuse_chunk mp M (top_chunk (ms h)) nb
        (set_head (top_chunk (ms h) + nb) ((topsize (ms h) - nb) OR 1) m))
      (upd_ms (\<lambda>s. s\<lparr>topsize := topsize s - nb, top_chunk := top_chunk s + nb\<rparr>) h)"

lemma upd_ms_mutex:
  assumes "\<not> mutex (ms h)"
  shows "upd_ms (mutex_update (\<lambda>_. False)) (take_top mp M nb (upd_ms (mutex_update (\<lambda>_. True)) h)) = take_top mp M nb h"
  using assms by (cases h, cases "ms h") (simp add: take_top_def upd_ms_def upd_mem_def)

lemma request2size_pos: "req < MAX_REQUEST \<Longrightarrow> 0 < request2size req"
  using request2size_spec(2) [of req] by (simp add: word_less_nat_alt)

lemma malloc_locked_unbinned:
  assumes "smallmap (ms h) = 0" and "treemap (ms h) = 0" and "dvsize (ms h) = 0" and "req < MAX_REQUEST"
  shows "malloc_locked mp M req h = Inr (malloc_dv_top mp M (request2size req) h)"
proof -
  let ?nb = "request2size req"
  have pos: "0 < ?nb" by (rule request2size_pos [OF assms(4)])
  have bins: "malloc_small_bins mp M ?nb h = Inr (None, h)"
    using assms(1-3) pos by (simp add: malloc_small_bins_def Let_def)
  show ?thesis
  proof (cases "req \<le> MAX_SMALL_REQUEST")
    case True
    then have "malloc_locked mp M req h = res_bind (malloc_small_bins mp M ?nb h) (\<lambda>(a, h1).
          Inr (case a of Some p \<Rightarrow> (Mem p, h1) | None \<Rightarrow> malloc_dv_top mp M ?nb h1))"
      unfolding malloc_locked_def request2size_def Let_def by (simp only: if_True)
    then show ?thesis by (simp add: bins)
  next
    case False
    then have "pad_request req = ?nb" by (auto simp: request2size_def not_le word_less_nat_alt)
    moreover have "\<not> req \<ge> MAX_REQUEST" using assms(4) by (simp only: not_le)
    ultimately have "malloc_locked mp M req h = res_bind (if treemap (ms h) \<noteq> 0 then tmalloc_large mp M ?nb h else Inr (0, h))
        (\<lambda>(a, h1). Inr (if a \<noteq> 0 then (Mem a, h1) else malloc_dv_top mp M ?nb h1))"
      using False unfolding malloc_locked_def Let_def by (simp only: if_False)
    then show ?thesis by (simp add: assms(2))
  qed
qed

lemma malloc_locked_top:
  assumes "smallmap (ms h) = 0" and "treemap (ms h) = 0" and "dvsize (ms h) = 0"
    and "req < MAX_REQUEST" and "request2size req < topsize (ms h)"
  shows "malloc_locked mp M req h = Inr (Mem (chunk2mem (top_chunk (ms h))), take_top mp M (request2size req) h)"
  using assms request2size_pos [OF assms(4)]
  by (auto simp: malloc_locked_unbinned malloc_dv_top_def split_top_def take_top_def chunk_plus_offset_def Let_def upd_ms_def
      upd_mem_def simp del: constant_values(4))

lemma malloc_no_room:
  assumes "only_top mp h" and "req < MAX_REQUEST" and "topsize (ms h) \<le> request2size req"
  shows "\<exists>h1. mspace_malloc mp M req h = Inr (Sys_alloc (request2size req), h1)"
proof -
  have top: "malloc_locked mp M req h' = Inr (Sys_alloc (request2size req), h')"
    if "ms h' = (ms h)\<lparr>mutex := b\<rparr>" for h' b
    using assms request2size_pos [OF assms(2)] malloc_locked_unbinned [of h' req mp M] that
    by (auto simp: only_top_def malloc_dv_top_def not_le)
  have "PREACTION h = Inr (upd_ms (\<lambda>s. s\<lparr>mutex := use_lock (ms h)\<rparr>) h)"
    using assms(1) by (cases h, cases "ms h") (auto simp: PREACTION_def only_top_def upd_ms_def)
  with top [of "upd_ms (\<lambda>s. s\<lparr>mutex := use_lock (ms h)\<rparr>) h"] assms(1) show ?thesis
    by (auto simp: mspace_malloc_def locked_malloc_def only_top_def)
qed

lemma malloc_from_top:
  assumes "only_top mp h" and "req < MAX_REQUEST" and "request2size req < topsize (ms h)"
  shows "mspace_malloc mp M req h = Inr (Mem (chunk2mem (top_chunk (ms h))), take_top mp M (request2size req) h)"
proof -
  have free: "\<not> mutex (ms h)" and ok: "ok_magic mp (ms h)" using assms(1) by (simp_all add: only_top_def)
  have top: "malloc_locked mp M req h' = Inr (Mem (chunk2mem (top_chunk (ms h'))), take_top mp M (request2size req) h')"
    if "ms h' = (ms h)\<lparr>mutex := b\<rparr>" for h' b
    by (rule malloc_locked_top) (use assms in \<open>simp_all add: only_top_def that\<close>)
  show ?thesis
  proof (cases "use_lock (ms h)")
    case True
    let ?h = "upd_ms (mutex_update (\<lambda>_. True)) h"
    have "ms ?h = (ms h)\<lparr>mutex := True\<rparr>" by simp
    from top [OF this] True free ok upd_ms_mutex [OF free] show ?thesis
      by (simp add: mspace_malloc_def locked_malloc_def PREACTION_def POSTACTION_def) (simp add: take_top_def use_lock_def)
  next
    case False
    have "ms h = (ms h)\<lparr>mutex := mutex (ms h)\<rparr>" by simp
    from top [OF this] False ok show ?thesis
      by (simp add: mspace_malloc_def locked_malloc_def PREACTION_def POSTACTION_def) (simp add: take_top_def use_lock_def)
  qed
qed

lemma only_top_take:
  assumes "only_top mp h" and "req < MAX_REQUEST" and "request2size req < topsize (ms h)"
  defines "nb \<equiv> request2size req"
  shows "only_top mp (take_top mp M nb h)"
    and "unat (top_chunk (ms (take_top mp M nb h))) = unat (top_chunk (ms h)) + unat nb"
    and "unat (topsize (ms (take_top mp M nb h))) = unat (topsize (ms h)) - unat nb"
proof -
  note nb = request2size_spec [OF assms(2), folded nb_def]
  have less: "unat nb < unat (topsize (ms h))" using assms(3) by (simp add: nb_def word_less_nat_alt)
  have fits: "unat (top_chunk (ms h)) + unat (topsize (ms h)) + 80 < 2 ^ 64" using assms(1) by (simp add: only_top_def)
  show top: "unat (top_chunk (ms (take_top mp M nb h))) = unat (top_chunk (ms h)) + unat nb"
    using less fits by (simp add: take_top_def unat_word_ariths)
  show size: "unat (topsize (ms (take_top mp M nb h))) = unat (topsize (ms h)) - unat nb"
    using less by (simp add: take_top_def unat_sub_if')
  have eqs: "ms (take_top mp M nb h) = (ms h)\<lparr>topsize := topsize (ms h) - nb, top_chunk := top_chunk (ms h) + nb\<rparr>"
    by (simp add: take_top_def)
  have "least_addr (ms h) \<le> top_chunk (ms h) + nb" "0 < top_chunk (ms h) + nb"
    using assms(1) top less fits by (auto simp: only_top_def take_top_def word_le_nat_alt word_less_nat_alt)
  then show "only_top mp (take_top mp M nb h)"
    using assms(1) nb(1) top size less fits unfolding only_top_def ok_magic_def
    by (auto simp: eqs)
qed

text \<open>What the words of the new chunk and of the top say, and that no other word changes.\<close>

lemma take_top_words:
  fixes mp :: malloc_params and M :: addr_t
  assumes "32 \<le> unat nb" and "unat (top_chunk (ms h)) + unat nb + 8 < 2 ^ 64"
  defines "m \<equiv> mem (take_top mp M nb h)" and "p \<equiv> top_chunk (ms h)"
  shows "head m p = nb OR 3" and "prev_foot m (p + nb) = M XOR mp_magic mp"
    and "head m (p + nb) = (topsize (ms h) - nb) OR 1"
    and "\<And>a. a \<notin> {p + 8, p + nb, p + nb + 8} \<Longrightarrow> m a = mem h a"
    and "\<And>a. unat a \<le> unat p \<Longrightarrow> m a = mem h a"
proof -
  have nb: "nb \<noteq> 0" "nb \<noteq> 8" using assms(1) by auto
  have m: "m = (mem h)(p + nb + 8 := (topsize (ms h) - nb) OR 1, p + 8 := nb OR 3, p + nb := M XOR mp_magic mp)"
    by (simp add: m_def p_def take_top_def set_size_and_pinuse_of_inuse_chunk_def mark_inuse_foot_def
        set_head_def set_prev_foot_def fun_eq_iff)
  have ne: "p + nb \<noteq> p + 8" "p + nb + 8 \<noteq> p + 8" "p + nb \<noteq> p + nb + 8" using nb by auto
  show "head m p = nb OR 3" "prev_foot m (p + nb) = M XOR mp_magic mp"
    "head m (p + nb) = (topsize (ms h) - nb) OR 1"
    using ne nb by (auto simp: m head_def prev_foot_def)
  show frame: "m a = mem h a" if "a \<notin> {p + 8, p + nb, p + nb + 8}" for a using that by (simp add: m)
  show "m a = mem h a" if "unat a \<le> unat p" for a
  proof (rule frame)
    have "unat (p + 8) = unat p + 8" "unat (p + nb) = unat p + unat nb" "unat (p + nb + 8) = unat p + unat nb + 8"
      using assms(1,2) by (simp_all add: p_def unat_word_ariths)
    with that assms(1) show "a \<notin> {p + 8, p + nb, p + nb + 8}" by auto
  qed
qed

lemma chunk_owner:
  assumes "16 dvd unat nb" and "head m p = nb OR 3" and "prev_foot m (p + nb) = M XOR mp_magic mp" and "p + 16 \<noteq> 0"
  shows "get_mspace mp m (chunk2mem p) = M" and "usable_size m (chunk2mem p) = nb - 16" and "chunksize m p = nb"
    and "pinuse m p" and "is_inuse m p"
  using assms head_bits [OF assms(1)]
  by (auto simp: get_mspace_def get_mstate_for_def usable_size_def chunksize_def is_inuse_def pinuse_def
      overhead_for_def is_mmapped_def chunk2mem_def mem2chunk_def xor.assoc)

section \<open>A sequence of requests\<close>

fun malloc_all :: "malloc_params \<Rightarrow> addr_t \<Rightarrow> size_t list \<Rightarrow> heap \<Rightarrow> (malloc_exit list \<times> heap) res" where
  "malloc_all mp M [] h = Inr ([], h)"
| "malloc_all mp M (req # reqs) h =
     res_bind (mspace_malloc mp M req h) (\<lambda>(e, h1).
     res_bind (malloc_all mp M reqs h1) (\<lambda>(es, h2). Inr (e # es, h2)))"

text \<open>The blocks that a top at address \<open>t\<close> gives out.\<close>

fun bump :: "nat \<Rightarrow> size_t list \<Rightarrow> nat list" where
  "bump t [] = []"
| "bump t (req # reqs) = (t + 16) # bump (t + unat (request2size req)) reqs"

definition requested :: "size_t list \<Rightarrow> nat" where
  "requested reqs = (\<Sum>req\<leftarrow>reqs. unat (request2size req))"

lemma malloc_all_bump:
  assumes "only_top mp h" and "\<forall>req \<in> set reqs. req < MAX_REQUEST" and "requested reqs < unat (topsize (ms h))"
  shows "\<exists>h'. malloc_all mp M reqs h = Inr (map (Mem \<circ> of_nat) (bump (unat (top_chunk (ms h))) reqs), h')
    \<and> only_top mp h'
    \<and> unat (top_chunk (ms h')) = unat (top_chunk (ms h)) + requested reqs
    \<and> unat (topsize (ms h')) = unat (topsize (ms h)) - requested reqs
    \<and> (\<forall>a. unat a \<le> unat (top_chunk (ms h)) \<longrightarrow> mem h' a = mem h a)
    \<and> (\<forall>a \<in> set (bump (unat (top_chunk (ms h))) reqs). get_mspace mp (mem h') (of_nat a) = M)"
  using assms
proof (induction reqs arbitrary: h)
  case Nil
  then show ?case by (simp add: requested_def)
next
  case (Cons req reqs)
  define nb where "nb = request2size req"
  define p where "p = top_chunk (ms h)"
  define h1 where "h1 = take_top mp M nb h"
  have req: "req < MAX_REQUEST" using Cons.prems(2) by simp
  note size = request2size_spec [OF req, folded nb_def]
  have split: "requested (req # reqs) = unat nb + requested reqs" by (simp add: requested_def nb_def)
  then have less: "nb < topsize (ms h)" using Cons.prems(3) by (simp add: word_less_nat_alt)
  have fits: "unat p + unat (topsize (ms h)) + 80 < 2 ^ 64" using Cons.prems(1) by (simp add: only_top_def p_def)
  note step = malloc_from_top [OF Cons.prems(1) req less [unfolded nb_def], of M, folded nb_def p_def, folded h1_def]
  note top1 = only_top_take [OF Cons.prems(1) req less [unfolded nb_def], of M, folded nb_def p_def, folded h1_def]
  have words_fit: "unat (top_chunk (ms h)) + unat nb + 8 < 2 ^ 64"
    using fits less by (simp add: p_def word_less_nat_alt)
  note words1 = take_top_words [OF size(2) words_fit, where mp = mp and M = M, folded p_def h1_def]
  obtain h' where IH: "malloc_all mp M reqs h1 = Inr (map (Mem \<circ> of_nat) (bump (unat p + unat nb) reqs), h')"
    "only_top mp h'" "unat (top_chunk (ms h')) = unat p + unat nb + requested reqs"
    "unat (topsize (ms h')) = unat (topsize (ms h)) - unat nb - requested reqs"
    "\<And>a. unat a \<le> unat p + unat nb \<Longrightarrow> mem h' a = mem h1 a"
    "\<And>a. a \<in> set (bump (unat p + unat nb) reqs) \<Longrightarrow> get_mspace mp (mem h') (of_nat a) = M"
  proof -
    have "\<forall>req \<in> set reqs. req < MAX_REQUEST" using Cons.prems(2) by simp
    moreover have "requested reqs < unat (topsize (ms h1))" using Cons.prems(3) split unfolding top1(3) by linarith
    ultimately show ?thesis using Cons.IH [of h1] top1 that by auto
  qed
  have addr: "of_nat (unat p + 16) = chunk2mem p" by (simp add: chunk2mem_def)
  have "unat (p + 8) = unat p + 8" "unat (p + nb) = unat p + unat nb"
    using fits less by (simp_all add: unat_word_ariths word_less_nat_alt)
  then have kept: "head (mem h') p = nb OR 3" "prev_foot (mem h') (p + nb) = M XOR mp_magic mp"
    using IH(5) [of "p + 8"] IH(5) [of "p + nb"] words1(1,2) size(2) by (simp_all add: head_def prev_foot_def)
  have "unat (p + 16) = unat p + 16" using fits by (simp add: unat_word_ariths)
  then have "p + 16 \<noteq> 0" by auto
  from chunk_owner(1) [OF size(1) kept this] have own: "get_mspace mp (mem h') (of_nat (unat p + 16)) = M"
    unfolding addr .
  have frame: "mem h' a = mem h a" if "unat a \<le> unat p" for a
    using IH(5) [of a] words1(5) [of a] that by simp
  have "malloc_all mp M (req # reqs) h = Inr (map (Mem \<circ> of_nat) (bump (unat p) (req # reqs)), h')"
    using step IH(1) addr by (simp add: nb_def [symmetric])
  moreover have "\<forall>a \<in> set (bump (unat p) (req # reqs)). get_mspace mp (mem h') (of_nat a) = M"
    using own IH(6) by (auto simp: nb_def)
  ultimately show ?case using IH(2,3,4) frame split by (auto simp: p_def)
qed

section \<open>Freeing what was allocated last\<close>

lemma free_locked_top:
  assumes "only_top mp h" and "req < MAX_REQUEST" and "request2size req < topsize (ms h)"
    and "topsize (ms h) \<le> trim_check (ms h)"
  defines "nb \<equiv> request2size req" and "p \<equiv> top_chunk (ms h)"
  assumes h0: "mem h0 = mem (take_top mp M nb h)" "ms h0 = (ms (take_top mp M nb h))\<lparr>mutex := b\<rparr>"
  shows "free_locked munmap M p h0 =
    Inr (Freed, \<lparr>mem = set_head p (topsize (ms h) OR 1) (mem (take_top mp M nb h)), ms = (ms h)\<lparr>mutex := b\<rparr>\<rparr>)"
proof -
  note size = request2size_spec [OF assms(2), folded nb_def]
  have less: "unat nb < unat (topsize (ms h))" using assms(3) by (simp add: nb_def word_less_nat_alt)
  have top: "unat p + unat (topsize (ms h)) + 80 < 2 ^ 64" "0 < p" "least_addr (ms h) \<le> p" "dv (ms h) = 0"
    "16 dvd unat (topsize (ms h))"
    using assms(1) by (simp_all add: only_top_def p_def)
  have sum: "unat (p + nb) = unat p + unat nb" using top(1) less by (simp add: unat_word_ariths)
  have "unat (top_chunk (ms h)) + unat nb + 8 < 2 ^ 64" using top(1) less by (simp add: p_def)
  note w = take_top_words [OF size(2) this, where mp = mp and M = M, folded p_def]
  have "unat (p + 16) = unat p + 16" using top(1) by (simp add: unat_word_ariths)
  then have "p + 16 \<noteq> 0" by auto
  note own = chunk_owner [OF size(1) w(1,2) this]
  have "16 dvd unat (topsize (ms h) - nb)" using top(5) size(1) less by (simp add: unat_sub_if' dvd_diff_nat)
  note rest = head_bits(6,7) [OF this]
  have ms0: "ms h0 = (ms h)\<lparr>topsize := topsize (ms h) - nb, top_chunk := p + nb, mutex := b\<rparr>"
    by (simp add: h0(2) take_top_def p_def)
  have next_ok: "ok_next p (p + nb)" using size(2) sum by (auto simp: ok_next_def word_less_nat_alt)
  have grow: "grow_top p nb h0 = \<lparr>mem = set_head p (topsize (ms h) OR 1) (mem h0), ms = (ms h)\<lparr>mutex := b\<rparr>\<rparr>"
    using top(2,4) by (auto simp: grow_top_def Let_def ms0 p_def upd_mem_def upd_ms_def intro!: heap.equality)
  have "free_forward M p nb (p + nb) h0 = Inr (Freed, grow_top p nb h0)"
    using next_ok w(3) rest assms(4)
    by (simp add: free_forward_def h0(1) ms0 pinuse_def cinuse_def Let_def grow should_trim_def)
  then show ?thesis
    using own(3-5) top(3) by (simp add: free_locked_def h0(1) ms0 ok_address_def chunk_plus_offset_def grow)
qed

lemma free_to_top:
  fixes M :: addr_t
  assumes "only_top mp h" and "req < MAX_REQUEST" and "request2size req < topsize (ms h)"
    and "topsize (ms h) \<le> trim_check (ms h)"
  defines "h1 \<equiv> take_top mp M (request2size req) h" and "p \<equiv> top_chunk (ms h)"
  assumes "spaces M = Some (ms h1)"
  shows "mspace_free mp munmap (chunk2mem p) (mem h1, spaces) =
    Inr (Freed, set_head p (topsize (ms h) OR 1) (mem h1), spaces(M \<mapsto> ms h))"
proof -
  let ?nb = "request2size req"
  note size = request2size_spec [OF assms(2)]
  have top: "unat p + unat (topsize (ms h)) + 80 < 2 ^ 64" "\<not> mutex (ms h)" "ok_magic mp (ms h)"
    using assms(1) by (simp_all add: only_top_def p_def)
  have "unat (top_chunk (ms h)) + unat ?nb + 8 < 2 ^ 64"
    using top(1) assms(3) by (simp add: p_def word_less_nat_alt)
  note w = take_top_words [OF size(2) this, where mp = mp and M = M, folded p_def h1_def]
  have "unat (p + 16) = unat p + 16" using top(1) by (simp add: unat_word_ariths)
  then have nz: "p + 16 \<noteq> 0" by auto
  have owner: "get_mstate_for mp (mem h1) p = M"
    using chunk_owner(1) [OF size(1) w(1,2) nz] nz by (simp add: get_mspace_def chunk2mem_def mem2chunk_def)
  have ms1: "ms h1 = (ms h)\<lparr>topsize := topsize (ms h) - ?nb, top_chunk := p + ?nb\<rparr>"
    by (simp add: h1_def take_top_def p_def)
  have locked: "free_locked munmap M p \<lparr>mem = mem h1, ms = (ms h1)\<lparr>mutex := b\<rparr>\<rparr> =
      Inr (Freed, \<lparr>mem = set_head p (topsize (ms h) OR 1) (mem h1), ms = (ms h)\<lparr>mutex := b\<rparr>\<rparr>)" for b
    unfolding h1_def p_def by (rule free_locked_top [OF assms(1-4)]) simp_all
  have addr: "mem2chunk (chunk2mem p) = p" "chunk2mem p \<noteq> 0" using nz by (simp_all add: mem2chunk_def chunk2mem_def)
  have magic: "ok_magic mp (ms h1)" using top(3) by (simp add: ok_magic_def ms1)
  have unlocked: "(ms h)\<lparr>mutex := False\<rparr> = ms h" using top(2) by (cases "ms h") simp
  show ?thesis
  proof (cases "use_lock (ms h)")
    case True
    have "PREACTION \<lparr>mem = mem h1, ms = ms h1\<rparr> = Inr \<lparr>mem = mem h1, ms = (ms h1)\<lparr>mutex := True\<rparr>\<rparr>"
      using True top(2) by (simp add: PREACTION_def ms1 use_lock_def upd_ms_def)
    then show ?thesis using True top(2) owner locked [of True] magic addr assms(7)
      by (simp add: mspace_free_def POSTACTION_def use_lock_def upd_ms_def unlocked)
  next
    case False
    have "PREACTION \<lparr>mem = mem h1, ms = ms h1\<rparr> = Inr \<lparr>mem = mem h1, ms = (ms h1)\<lparr>mutex := False\<rparr>\<rparr>"
      using False top(2) by (simp add: PREACTION_def ms1 use_lock_def)
    then show ?thesis using False top(2) owner locked [of False] magic addr assms(7)
      by (simp add: mspace_free_def POSTACTION_def use_lock_def unlocked)
  qed
qed

section \<open>A new mspace\<close>

lemma and_not_mask:
  fixes x :: size_t
  assumes "k < 64"
  shows "unat (x AND NOT (mask k)) = 2 ^ k * (unat x div 2 ^ k)"
proof -
  have "x AND NOT (mask k) = push_bit k (drop_bit k x)"
    by (auto intro!: bit_word_eqI simp: bit_simps)
  then have "unat (x AND NOT (mask k)) = push_bit k (drop_bit k (unat x)) mod 2 ^ 64"
    using unsigned_less [of x, where ?'a = nat] by (simp add: unsigned_push_bit_eq unsigned_drop_bit_eq take_bit_eq_mod)
  moreover have "push_bit k (drop_bit k (unat x)) = 2 ^ k * (unat x div 2 ^ k)"
    by (simp add: push_bit_eq_mult drop_bit_eq_div)
  moreover have "2 ^ k * (unat x div 2 ^ k) < 2 ^ 64"
    using unsigned_less [of x, where ?'a = nat]
      le_less_trans [OF times_div_less_eq_dividend [of "2 ^ k" "unat x"], of "2 ^ 64"] by simp
  ultimately show ?thesis by simp
qed

lemma unat_mask_size: "unat (mask k :: size_t) = 2 ^ k - 1" if "k < 64"
proof -
  have "(mask k :: size_t) = of_nat (2 ^ k - 1)" by (simp add: mask_eq_exp_minus_1 of_nat_diff)
  moreover have "(2 :: nat) ^ k \<le> 2 ^ 64" using that by (intro power_increasing) auto
  ultimately show ?thesis by (simp only: unsigned_of_nat) (simp add: take_bit_nat_eq_self_iff le_less_trans [OF diff_le_self])
qed

lemma granularity_align_spec:
  assumes "granularity mp = 2 ^ k" and "4 \<le> k" and "k < 64" and "unat r + 2 ^ k \<le> 2 ^ 64"
  shows "16 dvd unat (granularity_align mp r)" and "unat r \<le> unat (granularity_align mp r)"
    and "unat (granularity_align mp r) < unat r + 2 ^ k"
proof -
  have m: "granularity mp - 1 = mask k" by (simp add: assms(1) mask_eq_exp_minus_1)
  from unat_mask_size [OF assms(3)] have u: "unat (r + mask k) = unat r + (2 ^ k - 1)" using assms(4) by (simp add: unat_word_ariths)
  have eq: "unat (granularity_align mp r) = 2 ^ k * ((unat r + (2 ^ k - 1)) div 2 ^ k)"
    unfolding granularity_align_def m by (simp only: and_not_mask [OF assms(3)] u)
  have "(16 :: nat) dvd 2 ^ k" using le_imp_power_dvd [OF assms(2), of "2 :: nat"] by simp
  then show "16 dvd unat (granularity_align mp r)" unfolding eq by (rule dvd_mult2)
  have pos: "0 < (2 :: nat) ^ k" by simp
  show "unat r \<le> unat (granularity_align mp r)" "unat (granularity_align mp r) < unat r + 2 ^ k"
    unfolding eq using mult_div_mod_eq [of "2 ^ k" "unat r + (2 ^ k - 1)"] mod_less_divisor [OF pos, of "unat r + (2 ^ k - 1)"] pos
    by linarith+
qed

lemma init_bins_other:
  assumes "\<And>i. i < 32 \<Longrightarrow> a \<noteq> small_header M i + 16 \<and> a \<noteq> small_header M i + 24"
  shows "init_bins M m a = m a"
proof -
  have "fold (\<lambda>i m. let b = smallbin_at M (of_nat i) in set_fd b b (set_bk b b m)) is m a = m a"
    if "set is \<subseteq> {..<32}" for "is" m
    using that
  proof (induction "is" arbitrary: m)
    case (Cons i "is")
    then show ?case using assms [of i] by (simp add: Let_def set_fd_def set_bk_def small_header_def)
  qed simp
  from this [of "[0..<32]" m] show ?thesis by (simp add: init_bins_def lessThan_atLeast0)
qed

lemma aligned_and:
  fixes a :: addr_t
  assumes "16 dvd unat a"
  shows "a AND 15 = 0"
proof -
  have "a AND mask 4 = push_bit 4 (drop_bit 4 a) AND mask 4" using aligned_push [OF assms] by simp
  also have "\<dots> = 0" by (rule bit_word_eqI) (auto simp: bit_simps)
  finally show ?thesis by (simp add: mask_eq_exp_minus_1)
qed

lemma aligned_offset:
  assumes "16 dvd unat a" and "unat a + 16 < 2 ^ 64"
  shows "align_offset (chunk2mem a) = 0"
proof -
  have "unat (a + 16) = unat a + 16" using assms(2) by (simp add: unat_word_ariths)
  then have "(a + 16) AND 15 = 0" using assms(1) by (intro aligned_and) simp
  then show ?thesis by (simp add: align_offset_def chunk2mem_def)
qed

lemma MSTATE_SIZE_value [simp]: "MSTATE_SIZE = 960"
  by code_simp

lemma header_not_first: "i < 32 \<Longrightarrow> t + 8 \<noteq> small_header (t + 16) i + 16 \<and> t + 8 \<noteq> small_header (t + 16) i + 24"
proof -
  assume i: "i < 32"
  have "(0 :: addr_t) \<noteq> of_nat (96 + 16 * i)" "(0 :: addr_t) \<noteq> of_nat (104 + 16 * i)"
    using of_nat_addr_eq [of 0 "96 + 16 * i"] of_nat_addr_eq [of 0 "104 + 16 * i"] i by simp_all
  then show ?thesis using i by (auto simp: small_header_eq algebra_simps)
qed

text \<open>The structure and the words of a new mspace: its own chunk is first, and the top is behind it.\<close>

lemma init_user_mstate_eq:
  assumes "16 dvd unat t" and "unat t + unat n < 2 ^ 64" and "1040 \<le> unat n"
  obtains m2 where "head m2 t = 963"
    and "init_user_mstate mp t n m = (t + 16,
      \<lparr>mem = set_head (t + 960 + (n - 1040)) 80 (set_head (t + 960) ((n - 1040) OR 1) m2),
       ms = \<lparr>smallmap = 0, treemap = 0, dvsize = 0, topsize = n - 1040, least_addr = t, dv = 0, top_chunk = t + 960,
               trim_check = trim_threshold mp, release_checks = MAX_RELEASE_CHECK_RATE, ms_magic = mp_magic mp,
               footprint = n, max_footprint = n, footprint_limit = 0,
               mflags = default_mflags mp OR USE_NONCONTIGUOUS_BIT, mutex = False,
               seg = \<lparr>seg_base = t, seg_size = n, seg_next = 0, seg_sflags = 0\<rparr>\<rparr>\<rparr>)"
proof -
  have t: "unat (t + 960) = unat t + 960" using assms(2,3) by (simp add: unat_word_ariths)
  have off: "align_offset (chunk2mem t) = 0" by (rule aligned_offset) (use assms in auto)
  have "(16 :: nat) dvd 960" by simp
  then have "16 dvd unat (t + 960)" unfolding t using assms(1) by (rule dvd_add [rotated])
  then have off2: "align_offset (chunk2mem (t + 960)) = 0" by (rule aligned_offset) (use assms t in auto)
  define m1 where "m1 = set_head t (MSTATE_SIZE OR INUSE_BITS) (clear_words (t + 16) (unat MSTATE_SIZE div 8) m)"
  define m2 where "m2 = init_bins (t + 16) m1"
  have "m2 (t + 8) = m1 (t + 8)" unfolding m2_def by (rule init_bins_other) (rule header_not_first)
  then have hd2: "head m2 t = 963" by (simp add: head_def m1_def set_head_def)
  then have nxt: "next_chunk m2 t = t + 960" by (simp add: next_chunk_def)
  show ?thesis
    by (rule that [OF hd2], unfold init_user_mstate_def Let_def align_as_chunk_def off)
      (simp add: chunk2mem_def mem2chunk_def m1_def [symmetric, simplified] m2_def [symmetric] nxt init_top_def
        Let_def off2 [unfolded chunk2mem_def, simplified] chunk_plus_offset_def upd_mem_def upd_ms_def)
qed

lemma init_user_mstate_words:
  assumes "16 dvd unat t" and "unat t + unat n < 2 ^ 64" and "1040 < unat n" and "init_user_mstate mp t n m = (t + 16, h)"
  shows "head (mem h) t = 963" "head (mem h) (t + 960) = (n - 1040) OR 1" "head (mem h) (t + 960 + (n - 1040)) = 80"
    "topsize (ms h) = n - 1040" "least_addr (ms h) = t" "top_chunk (ms h) = t + 960" "footprint (ms h) = n"
    "max_footprint (ms h) = n" "seg (ms h) = \<lparr>seg_base = t, seg_size = n, seg_next = 0, seg_sflags = 0\<rparr>"
proof -
  have n: "unat (n - 1040) = unat n - 1040" using assms(3) by (simp add: unat_sub_if')
  have "unat (t + 960 + q + 8) = unat t + 968 + unat q" if "unat t + 968 + unat q < 2 ^ 64" for q
    using that by (simp add: unat_word_ariths)
  from this [of "n - 1040"] have u: "unat (t + 960 + (n - 1040) + 8) = unat t + unat n - 72"
    using n assms(2,3) by auto
  have v: "unat (t + 8) = unat t + 8" "unat (t + 960 + 8) = unat t + 968"
    using assms(2,3) by (simp_all add: unat_word_ariths)
  have ne: "t + 8 \<noteq> t + 960 + 8" "t + 8 \<noteq> t + 960 + (n - 1040) + 8" "t + 960 + 8 \<noteq> t + 960 + (n - 1040) + 8"
    by (simp only: word_unat_eq_iff u v; use assms(3) in linarith)+
  have "1040 \<le> unat n" using assms(3) by simp
  then obtain m2 where m2: "head m2 t = 963"
    and eq: "init_user_mstate mp t n m = (t + 16,
      \<lparr>mem = set_head (t + 960 + (n - 1040)) 80 (set_head (t + 960) ((n - 1040) OR 1) m2),
       ms = \<lparr>smallmap = 0, treemap = 0, dvsize = 0, topsize = n - 1040, least_addr = t, dv = 0, top_chunk = t + 960,
               trim_check = trim_threshold mp, release_checks = MAX_RELEASE_CHECK_RATE, ms_magic = mp_magic mp,
               footprint = n, max_footprint = n, footprint_limit = 0,
               mflags = default_mflags mp OR USE_NONCONTIGUOUS_BIT, mutex = False,
               seg = \<lparr>seg_base = t, seg_size = n, seg_next = 0, seg_sflags = 0\<rparr>\<rparr>\<rparr>)"
    by (rule init_user_mstate_eq [OF assms(1,2)])
  show "topsize (ms h) = n - 1040" "least_addr (ms h) = t" "top_chunk (ms h) = t + 960" "footprint (ms h) = n"
    "max_footprint (ms h) = n" "seg (ms h) = \<lparr>seg_base = t, seg_size = n, seg_next = 0, seg_sflags = 0\<rparr>"
    using eq assms(4) by auto
  have "mem h = set_head (t + 960 + (n - 1040)) 80 (set_head (t + 960) ((n - 1040) OR 1) m2)" using eq assms(4) by auto
  then show "head (mem h) t = 963" "head (mem h) (t + 960) = (n - 1040) OR 1" "head (mem h) (t + 960 + (n - 1040)) = 80"
    using m2 ne by (simp_all add: head_def set_head_def)
qed

lemma init_user_mstate_top:
  assumes "16 dvd unat t" and "0 < t" and "16 dvd unat n" and "unat t + unat n < 2 ^ 64" and "1040 \<le> unat n"
  shows "\<exists>h. init_user_mstate mp t n m = (t + 16, h) \<and> top_chunk (ms h) = t + 960 \<and> topsize (ms h) = n - 1040
    \<and> trim_check (ms h) = trim_threshold mp \<and> mflags (ms h) = default_mflags mp OR USE_NONCONTIGUOUS_BIT
    \<and> only_top mp h"
proof (rule init_user_mstate_eq [OF assms(1,4,5), of mp m])
  have t: "unat (t + 960) = unat t + 960" using assms(4,5) by (simp add: unat_word_ariths)
  have "(16 :: nat) dvd 960" by simp
  then have t16: "16 dvd unat (t + 960)" unfolding t using assms(1) by (rule dvd_add [rotated])
  have n: "unat (n - 1040) = unat n - 1040" using assms(5) by (simp add: unat_sub_if')
  obtain k where k: "unat n = 16 * k" using assms(3) by (auto elim: dvdE)
  have n16: "16 dvd unat (n - 1040)" unfolding n k using assms(5) by (simp add: dvd_diff_nat)
  fix m2
  assume "init_user_mstate mp t n m = (t + 16,
      \<lparr>mem = set_head (t + 960 + (n - 1040)) 80 (set_head (t + 960) ((n - 1040) OR 1) m2),
       ms = \<lparr>smallmap = 0, treemap = 0, dvsize = 0, topsize = n - 1040, least_addr = t, dv = 0, top_chunk = t + 960,
               trim_check = trim_threshold mp, release_checks = MAX_RELEASE_CHECK_RATE, ms_magic = mp_magic mp,
               footprint = n, max_footprint = n, footprint_limit = 0,
               mflags = default_mflags mp OR USE_NONCONTIGUOUS_BIT, mutex = False,
               seg = \<lparr>seg_base = t, seg_size = n, seg_next = 0, seg_sflags = 0\<rparr>\<rparr>\<rparr>)"
  then show ?thesis
    using t16 n16 assms(2,4,5) t n by (simp add: only_top_def ok_magic_def word_le_nat_alt word_less_nat_alt)
qed

section \<open>Properties\<close>

text \<open>What the system promises of a mapping of \<open>n\<close> bytes: an aligned region inside the address space.\<close>

definition maps_region :: "addr_t \<Rightarrow> size_t \<Rightarrow> bool" where
  "maps_region a n \<longleftrightarrow> a \<noteq> MFAIL \<and> 16 dvd unat a \<and> 0 < a \<and> unat a + unat n < 2 ^ 64"

definition example_params :: malloc_params where
  "example_params = \<lparr>mp_magic = 0x55555558, page_size = 4096, granularity = 4096, mmap_threshold = 0x40000,
     trim_threshold = 0x200000, default_mflags = 3, gm_addr = 0x600000\<rparr>"

definition example_mmap :: "bool \<Rightarrow> size_t \<Rightarrow> addr_t" where
  "example_mmap is_shared n = 0x7000000"

text \<open>The region of a new mspace.\<close>

definition own_region :: "bool \<Rightarrow> malloc_state \<Rightarrow> malloc_state" where
  "own_region locked s = set_lock locked (s\<lparr>seg := (seg s)\<lparr>seg_sflags := USE_MMAP_BIT\<rparr>\<rparr>)"

lemma create_mspace_region:
  assumes "granularity mp = 2 ^ k" and "12 \<le> k" and "k \<le> 30" and "unat (page_size mp) \<le> 2 ^ 30"
    and "unat capacity < 2 ^ 62"
    and "maps_region (mmap is_shared (region_size mp capacity)) (region_size mp capacity)"
  obtains t n where "maps_region t n" "16 dvd unat n" "1040 + unat capacity \<le> unat n" "1040 < unat n"
    "\<And>h. init_user_mstate mp t n m = (t + 16, h) \<Longrightarrow>
       create_mspace mp mmap capacity locked is_shared m = Some (t + 16, upd_ms (own_region locked) h)"
proof -
  define r where "r = (if capacity = 0 then granularity mp else capacity + TOP_FOOT_SIZE + MSTATE_SIZE)"
  define n where "n = granularity_align mp r"
  have size: "region_size mp capacity = n" by (simp add: region_size_def r_def n_def)
  define t where "t = mmap is_shared n"
  have k: "(2 :: nat) ^ k \<le> 2 ^ 30" "(2 :: nat) ^ 12 \<le> 2 ^ k" using assms(2,3) by (simp_all only: power_increasing_iff)
  have "unat (2 ^ k :: size_t) = 2 ^ k"
  proof -
    have "unat (of_nat (2 ^ k) :: size_t) = 2 ^ k"
      using assms(3) by (simp only: unsigned_of_nat) (simp add: take_bit_nat_eq_self_iff)
    then show ?thesis by simp
  qed
  then have r: "capacity \<noteq> 0 \<and> unat capacity + 1040 \<le> unat r \<or> capacity = 0 \<and> unat r = 2 ^ k" "unat r \<le> 2 ^ 62 + 2 ^ 30 + 1040"
    using assms(5) k(1) by (auto simp: r_def assms(1) unat_word_ariths)
  note align = granularity_align_spec [OF assms(1), of r, folded n_def]
  have n: "16 dvd unat n" "unat r \<le> unat n" using align assms(2,3) k(1) r(2) by auto
  then have big: "1040 + unat capacity \<le> unat n" "1040 < unat n" using r(1) k(2) by (auto simp: unat_gt_0 [symmetric] simp del: unat_gt_0)
  have limit: "capacity < capacity_limit mp"
  proof -
    let ?x = "MSTATE_SIZE + TOP_FOOT_SIZE + page_size mp"
    have x: "unat ?x = 1040 + unat (page_size mp)" using assms(4) by (simp add: unat_word_ariths)
    have "unat (0 - ?x) = 2 ^ 64 - unat ?x" unfolding unat_sub_if' x by simp
    then have "unat (capacity_limit mp) = 2 ^ 64 - (1040 + unat (page_size mp))"
      unfolding capacity_limit_def x by simp
    then show ?thesis using assms(4,5) by (simp add: word_less_nat_alt)
  qed
  have region: "maps_region t n" using assms(6) unfolding t_def size .
  moreover have "create_mspace mp mmap capacity locked is_shared m = Some (t + 16, upd_ms (own_region locked) h)"
    if "init_user_mstate mp t n m = (t + 16, h)" for h
    using limit region that unfolding create_mspace_def Let_def size t_def [symmetric] own_region_def
    by (simp add: maps_region_def)
  ultimately show ?thesis using that n(1) big by blast
qed

text \<open>
  C31: Creating an mspace of a capacity below \<open>2 ^ 62\<close> succeeds whenever the system maps the region it is asked
  for: the structure is at the aligned start of the region, the bins are empty, the lock is free and is
  used exactly when asked for, and the top holds at least the capacity.
\<close>
theorem create_mspace_ready:
  assumes "granularity mp = 2 ^ k" and "12 \<le> k" and "k \<le> 30" and "unat (page_size mp) \<le> 2 ^ 30"
    and "unat capacity < 2 ^ 62"
    and "maps_region (mmap is_shared (region_size mp capacity)) (region_size mp capacity)"
  shows "\<exists>M h. create_mspace mp mmap capacity locked is_shared m = Some (M, h) \<and> only_top mp h
    \<and> small_bins M (\<lambda>_. []) h \<and> (use_lock (ms h) \<longleftrightarrow> locked) \<and> unat capacity \<le> unat (topsize (ms h))
    \<and> trim_check (ms h) = trim_threshold mp"
proof (rule create_mspace_region [where mmap = mmap and is_shared = is_shared and m = m and locked = locked, OF assms])
  fix t n
  assume region: "maps_region t n" and n: "16 dvd unat n" "1040 + unat capacity \<le> unat n"
    and made: "\<And>h. init_user_mstate mp t n m = (t + 16, h) \<Longrightarrow>
       create_mspace mp mmap capacity locked is_shared m = Some (t + 16, upd_ms (own_region locked) h)"
  obtain h where h: "init_user_mstate mp t n m = (t + 16, h)" "topsize (ms h) = n - 1040"
    "trim_check (ms h) = trim_threshold mp" "only_top mp h"
    using init_user_mstate_top [of t n mp m] region n by (auto simp: maps_region_def)
  let ?h = "upd_ms (own_region locked) h"
  note made [OF h(1)]
  moreover have "only_top mp ?h" using h(4) by (simp add: only_top_def own_region_def set_lock_def ok_magic_def)
  moreover have "small_bins (t + 16) (\<lambda>_. []) ?h"
    using h(4) by (intro empty_small_bins) (simp add: only_top_def own_region_def set_lock_def)
  moreover have "use_lock (ms ?h) \<longleftrightarrow> locked"
  proof -
    have "(f OR 2) AND 2 = 2" for f :: uint by (rule bit_word_eqI) (auto simp: bit_simps)
    then show ?thesis by (simp add: use_lock_def own_region_def set_lock_def USE_LOCK_BIT_def and.assoc)
  qed
  moreover have "unat capacity \<le> unat (topsize (ms ?h))"
    using h(2) n(2) by (simp add: own_region_def set_lock_def unat_sub_if')
  ultimately show ?thesis using h(3) by (auto simp: own_region_def set_lock_def)
qed

lemma example_mspace:
  obtains M h where "create_mspace example_params example_mmap 0 True True (\<lambda>_. 0) = Some (M, h)"
    and "only_top example_params h" and "use_lock (ms h)" and "topsize (ms h) = 3056" and "trim_check (ms h) = 0x200000"
proof -
  have n: "region_size example_params 0 = 4096" by code_simp
  have limit: "0 < capacity_limit example_params" by code_simp
  obtain h where h: "init_user_mstate example_params 0x7000000 4096 (\<lambda>_. 0) = (0x7000000 + 16, h)"
    "topsize (ms h) = 4096 - 1040" "trim_check (ms h) = trim_threshold example_params"
    "mflags (ms h) = default_mflags example_params OR USE_NONCONTIGUOUS_BIT" "only_top example_params h"
    using init_user_mstate_top [of "0x7000000" 4096 example_params "\<lambda>_. 0"] by auto
  let ?h = "upd_ms (\<lambda>s. set_lock True (s\<lparr>seg := (seg s)\<lparr>seg_sflags := USE_MMAP_BIT\<rparr>\<rparr>)) h"
  have "create_mspace example_params example_mmap 0 True True (\<lambda>_. 0) = Some (0x7000000 + 16, ?h)"
    using limit h(1) n by (simp add: create_mspace_def example_mmap_def MFAIL_def)
  moreover have "only_top example_params ?h" using h(5) by (simp add: only_top_def set_lock_def ok_magic_def)
  moreover have "use_lock (ms ?h)"
    using h(4) by (simp add: use_lock_def set_lock_def example_params_def USE_LOCK_BIT_def USE_NONCONTIGUOUS_BIT_def)
  ultimately show ?thesis using that h(2,3) by (simp add: set_lock_def example_params_def)
qed

theorem create_mspace_ready_witness:
  "\<exists>M h. create_mspace example_params example_mmap 0 True True (\<lambda>_. 0) = Some (M, h)
    \<and> only_top example_params h \<and> small_bins M (\<lambda>_. []) h \<and> use_lock (ms h)"
proof -
  have n: "region_size example_params 0 = 4096" by code_simp
  have "maps_region (example_mmap True (region_size example_params 0)) (region_size example_params 0)"
    unfolding n by (simp add: maps_region_def example_mmap_def MFAIL_def)
  from create_mspace_ready [where k = 12 and mp = example_params and mmap = example_mmap and capacity = 0
      and is_shared = True and locked = True and m = "\<lambda>_. 0", OF _ _ _ _ _ this] show ?thesis
    by (fastforce simp: example_params_def)
qed

text \<open>
  The blocks of a sequence of requests, as \<open>bump\<close> places them.
\<close>

lemma requested_take_mono: "i \<le> j \<Longrightarrow> requested (take i reqs) \<le> requested (take j reqs)"
proof (induction j)
  case (Suc j)
  then show ?case by (cases "i = Suc j"; cases "j < length reqs") (auto simp: take_Suc_conv_app_nth requested_def)
qed simp

lemma requested_take_Suc:
  "i < length reqs \<Longrightarrow> requested (take (Suc i) reqs) = requested (take i reqs) + unat (request2size (reqs ! i))"
  by (simp add: take_Suc_conv_app_nth requested_def)

lemma bump_nth: "i < length reqs \<Longrightarrow> bump t reqs ! i = t + 16 + requested (take i reqs)"
proof (induction reqs arbitrary: t i)
  case (Cons req reqs)
  then show ?case by (cases i) (auto simp: requested_def)
qed simp

lemma length_bump [simp]: "length (bump t reqs) = length reqs"
  by (induction reqs arbitrary: t) auto

lemma requested_dvd: "\<forall>req \<in> set reqs. req < MAX_REQUEST \<Longrightarrow> 16 dvd requested reqs"
  by (induction reqs) (auto simp: requested_def intro!: dvd_add request2size_spec(1))

text \<open>
  C18: A sequence of requests whose padded sizes fit into the top of an mspace from which nothing has been
  freed is served in full: the blocks are 16-byte aligned, lie one after the other between the old and
  the new top without overlapping, and each still leads \<^verbatim>\<open>get_mspace\<close> to its mspace at the end.
\<close>
theorem malloc_sequence_disjoint:
  assumes "only_top mp h" and "\<forall>req \<in> set reqs. req < MAX_REQUEST" and "requested reqs < unat (topsize (ms h))"
  shows "\<exists>as h'. malloc_all mp M reqs h = Inr (map Mem as, h') \<and> length as = length reqs \<and> only_top mp h'
    \<and> (\<forall>i < length reqs. 16 dvd unat (as ! i) \<and> get_mspace mp (mem h') (as ! i) = M
        \<and> unat (top_chunk (ms h)) < unat (as ! i) \<and> unat (as ! i) + unat (reqs ! i) \<le> unat (top_chunk (ms h')))
    \<and> (\<forall>j < length reqs. \<forall>i < j. unat (as ! i) + unat (reqs ! i) \<le> unat (as ! j))"
proof -
  let ?t = "unat (top_chunk (ms h))"
  define as :: "addr_t list" where "as = map of_nat (bump ?t reqs)"
  from malloc_all_bump [OF assms, of M] obtain h' where
    h': "malloc_all mp M reqs h = Inr (map (Mem \<circ> of_nat) (bump ?t reqs), h')" "only_top mp h'"
      "unat (top_chunk (ms h')) = ?t + requested reqs"
      "\<forall>a \<in> set (bump ?t reqs). get_mspace mp (mem h') (of_nat a) = M" by blast
  have fits: "?t + unat (topsize (ms h)) + 80 < 2 ^ 64" "16 dvd ?t" using assms(1) by (simp_all add: only_top_def)
  have at: "unat (as ! i) = ?t + 16 + requested (take i reqs)" if "i < length reqs" for i
  proof -
    have "requested (take i reqs) \<le> requested reqs" using requested_take_mono [of i "length reqs" reqs] that by simp
    then have "unat (of_nat (?t + 16 + requested (take i reqs)) :: addr_t) = ?t + 16 + requested (take i reqs)"
      using fits(1) assms(3) by (simp only: unsigned_of_nat) (simp add: take_bit_nat_eq_self_iff)
    then show ?thesis using that by (simp only: as_def nth_map length_bump bump_nth)
  qed
  have room: "unat (as ! i) + unat (reqs ! i) \<le> ?t + requested (take (Suc i) reqs)" if "i < length reqs" for i
    using at [OF that] request2size_spec(3) [of "reqs ! i"] assms(2) that by (simp add: requested_take_Suc)
  have "16 dvd unat (as ! i) \<and> get_mspace mp (mem h') (as ! i) = M \<and> ?t < unat (as ! i)
      \<and> unat (as ! i) + unat (reqs ! i) \<le> unat (top_chunk (ms h'))" if "i < length reqs" for i
  proof -
    have "16 dvd requested (take i reqs)" using assms(2) by (intro requested_dvd) (auto dest: in_set_takeD)
    then have "16 dvd unat (as ! i)" unfolding at [OF that] using fits(2) by (intro dvd_add) auto
    moreover have "requested (take (Suc i) reqs) \<le> requested reqs"
      using requested_take_mono [of "Suc i" "length reqs" reqs] that by simp
    moreover have "get_mspace mp (mem h') (as ! i) = M" using h'(4) that by (simp add: as_def)
    ultimately show ?thesis using room [OF that] at [OF that] h'(3) by simp
  qed
  moreover have "unat (as ! i) + unat (reqs ! i) \<le> unat (as ! j)" if "i < j" "j < length reqs" for i j
    using room [of i] at [of j] requested_take_mono [of "Suc i" j reqs] that by simp
  moreover have "malloc_all mp M reqs h = Inr (map Mem as, h')" using h'(1) by (simp add: as_def)
  ultimately show ?thesis using h'(2) by (intro exI [of _ as] exI [of _ h']) (simp add: as_def)
qed

theorem malloc_sequence_disjoint_witness:
  "\<exists>M h as h'. create_mspace example_params example_mmap 0 True True (\<lambda>_. 0) = Some (M, h)
    \<and> malloc_all example_params M [24, 100] h = Inr (map Mem as, h') \<and> unat (as ! 0) + 24 \<le> unat (as ! 1)"
proof -
  obtain M h where h: "create_mspace example_params example_mmap 0 True True (\<lambda>_. 0) = Some (M, h)"
    "only_top example_params h" "topsize (ms h) = 3056" by (rule example_mspace) auto
  have "requested [24, 100] = 176" by code_simp
  then have "requested [24, 100] < unat (topsize (ms h))" using h(3) by simp
  from malloc_sequence_disjoint [OF h(2) _ this, of M] obtain as h' where
    out: "malloc_all example_params M [24, 100] h = Inr (map Mem as, h')"
      "\<forall>j < length [24, 100 :: size_t]. \<forall>i < j. unat (as ! i) + unat ([24, 100 :: size_t] ! i) \<le> unat (as ! j)"
    by auto
  from out(2) have "unat (as ! 0) + unat ([24, 100 :: size_t] ! 0) \<le> unat (as ! 1)" by (metis length_Cons lessI zero_less_one list.size(3) One_nat_def)
  with h(1) out(1) show ?thesis by auto
qed

text \<open>
  C19: Freeing the block that was allocated last from the top undoes the allocation: the structure of the
  mspace is what it was, the head of the top is restored, and only the two words behind the chunk, its
  foot and the head that the top had in between, differ from before.
\<close>
theorem malloc_free_roundtrip:
  assumes "only_top mp h" and "req < MAX_REQUEST" and "request2size req < topsize (ms h)"
    and "topsize (ms h) \<le> trim_check (ms h)" and "head (mem h) (top_chunk (ms h)) = topsize (ms h) OR PINUSE_BIT"
  shows "\<exists>a h1 m2. mspace_malloc mp M req h = Inr (Mem a, h1)
    \<and> mspace_free mp munmap a (mem h1, [M \<mapsto> ms h1]) = Inr (Freed, m2, [M \<mapsto> ms h])
    \<and> head m2 (top_chunk (ms h)) = head (mem h) (top_chunk (ms h))
    \<and> (\<forall>w. w \<notin> {top_chunk (ms h) + request2size req, top_chunk (ms h) + request2size req + 8} \<longrightarrow> m2 w = mem h w)"
proof -
  let ?nb = "request2size req" and ?p = "top_chunk (ms h)"
  let ?h1 = "take_top mp M ?nb h"
  let ?m2 = "set_head ?p (topsize (ms h) OR 1) (mem ?h1)"
  have "unat ?p + unat ?nb + 8 < 2 ^ 64" using assms(1,3) by (simp add: only_top_def word_less_nat_alt)
  note w = take_top_words [OF request2size_spec(2) [OF assms(2)] this, where mp = mp and M = M]
  have m2: "?m2 w = mem h w" if "w \<notin> {?p + ?nb, ?p + ?nb + 8}" for w
    using w(4) [of w] that assms(5) by (auto simp: set_head_def head_def)
  have "head ?m2 ?p = head (mem h) ?p" using assms(5) by (simp add: set_head_def head_def)
  then show ?thesis
    using malloc_from_top [OF assms(1-3), of M] free_to_top [OF assms(1-4), of "[M \<mapsto> ms ?h1]" M munmap] m2 by auto
qed

theorem malloc_free_roundtrip_witness:
  "\<exists>a h h1 m2. mspace_malloc example_params 0x1010 100 h = Inr (Mem a, h1)
    \<and> mspace_free example_params (\<lambda>_ _. True) a (mem h1, [0x1010 \<mapsto> ms h1]) = Inr (Freed, m2, [0x1010 \<mapsto> ms h])"
proof -
  let ?s = "\<lparr>smallmap = 0, treemap = 0, dvsize = 0, topsize = 4096, least_addr = 0x1000, dv = 0, top_chunk = 0x2000,
     trim_check = 0x200000, release_checks = 4095, ms_magic = mp_magic example_params, footprint = 0x10000,
     max_footprint = 0x10000, footprint_limit = 0, mflags = 3, mutex = False, 
     seg = \<lparr>seg_base = 0x1000, seg_size = 0x10000, seg_next = 0, seg_sflags = 0\<rparr>\<rparr>"
  let ?h = "\<lparr>mem = (\<lambda>_. 0)(0x2008 := 4097), ms = ?s\<rparr>"
  have size: "request2size 100 = 128" by code_simp
  have "only_top example_params ?h" by (simp add: only_top_def ok_magic_def)
  moreover have "(100 :: size_t) < MAX_REQUEST" by code_simp
  moreover have "request2size 100 < topsize (ms ?h)" by (simp add: size)
  moreover have "topsize (ms ?h) \<le> trim_check (ms ?h)" by simp
  moreover have "head (mem ?h) (top_chunk (ms ?h)) = topsize (ms ?h) OR PINUSE_BIT" by (simp add: head_def)
  ultimately show ?thesis
    using malloc_free_roundtrip [of example_params ?h 100 "0x1010" "\<lambda>_ _. True"] by blast
qed

section \<open>The lock\<close>

text \<open>No operation on bins touches the lock, the flags, the magic or the footprint of an mspace.\<close>

definition same_books :: "heap \<Rightarrow> heap \<Rightarrow> bool" where
  "same_books h h' \<longleftrightarrow>
     mutex (ms h') = mutex (ms h) \<and> mflags (ms h') = mflags (ms h) \<and> ms_magic (ms h') = ms_magic (ms h)
     \<and> footprint (ms h') = footprint (ms h) \<and> max_footprint (ms h') = max_footprint (ms h)
     \<and> footprint_limit (ms h') = footprint_limit (ms h)"

lemma same_books_refl [simp]: "same_books h h"
  by (simp add: same_books_def)

lemma same_books_trans: "same_books h h1 \<Longrightarrow> same_books h1 h2 \<Longrightarrow> same_books h h2"
  by (simp add: same_books_def)

lemma same_books_mem [simp]: "same_books h (upd_mem f h') \<longleftrightarrow> same_books h h'" "same_books (upd_mem f h) h' \<longleftrightarrow> same_books h h'"
  by (simp_all add: same_books_def)

lemma same_books_maps [simp]:
  "same_books h (upd_ms (mark_smallmap i) h)" "same_books h (upd_ms (clear_smallmap i) h)"
  "same_books h (upd_ms (mark_treemap i) h)" "same_books h (upd_ms (clear_treemap i) h)"
  "same_books h (upd_ms (\<lambda>s. s\<lparr>dvsize := a, dv := b\<rparr>) h') \<longleftrightarrow> same_books h h'"
  by (simp_all add: same_books_def mark_smallmap_def clear_smallmap_def mark_treemap_def clear_treemap_def)

lemma abort_unless_Inr [simp]: "abort_unless b r = Inr x \<longleftrightarrow> b \<and> r = Inr x"
  by (simp add: abort_unless_def)

lemma insert_small_books: "insert_small_chunk M P S h = Inr h' \<Longrightarrow> same_books h h'"
  by (auto simp: insert_small_chunk_def Let_def split: if_splits)

lemma insert_large_books: "insert_large_chunk M P S h = Inr h' \<Longrightarrow> same_books h h'"
proof -
  have mark: "same_books h (upd_ms (mark_treemap i) (upd_mem f h))" for i f
    by (simp add: same_books_def mark_treemap_def)
  assume "insert_large_chunk M P S h = Inr h'"
  then show ?thesis
    by (auto simp: insert_large_chunk_def Let_def mark split: if_splits option.splits prod.splits)
qed

lemma insert_chunk_books: "insert_chunk M P S h = Inr h' \<Longrightarrow> same_books h h'"
  by (auto simp: insert_chunk_def dest: insert_small_books insert_large_books split: if_splits)

lemma unlink_first_books: "unlink_first_small_chunk B P I h = Inr h' \<Longrightarrow> same_books h h'"
  by (auto simp: unlink_first_small_chunk_def Let_def split: if_splits)

lemma replace_dv_books: "replace_dv M P S h = Inr h' \<Longrightarrow> same_books h h'"
  by (auto simp: res_bind_eq_Inr replace_dv_def Let_def dest: insert_small_books split: if_splits)

lemma unlink_large_books: "unlink_large_chunk M X h = Inr h' \<Longrightarrow> same_books h h'"
proof -
  have choose: "choose_replacement X h = Inr (R, h1) \<Longrightarrow> same_books h h1" for R h1
    by (auto simp: choose_replacement_def Let_def split: if_splits option.splits)
  have adopt: "adopt_child X R i h1 = Inr h2 \<Longrightarrow> same_books h1 h2" for R i h1 h2
    by (auto simp: adopt_child_def Let_def split: if_splits)
  have relink: "relink_parent M X XP R h1 = Inr h2 \<Longrightarrow> same_books h1 h2" for XP R h1 h2
    by (auto simp: relink_parent_def Let_def same_books_def clear_treemap_def split: if_splits)
  assume "unlink_large_chunk M X h = Inr h'"
  then show ?thesis
    by (auto simp: res_bind_eq_Inr unlink_large_chunk_def Let_def split: if_splits
        dest!: choose adopt relink intro: same_books_trans) (meson same_books_trans)
qed

lemma split_or_use_books:
  assumes "split_or_use mp M v nb rs keep h = Inr (a, h')" and "\<And>r x h h'. keep r x h = Inr h' \<Longrightarrow> same_books h h'"
  shows "same_books h h'"
  using assms(1) by (auto simp: res_bind_eq_Inr split_or_use_def Let_def split: if_splits dest: assms(2))

lemma tmalloc_small_books: "tmalloc_small mp M nb h = Inr (a, h') \<Longrightarrow> same_books h h'"
  by (auto simp: res_bind_eq_Inr tmalloc_small_def Let_def split: option.splits prod.splits
      dest!: unlink_large_books split_or_use_books [OF _ replace_dv_books] intro: same_books_trans)

lemma tmalloc_large_books: "tmalloc_large mp M nb h = Inr (a, h') \<Longrightarrow> same_books h h'"
  by (auto simp: res_bind_eq_Inr tmalloc_large_def Let_def split: option.splits prod.splits if_splits
      dest!: unlink_large_books split_or_use_books [OF _ insert_chunk_books] intro: same_books_trans)

lemma malloc_small_bins_books: "malloc_small_bins mp M nb h = Inr (a, h') \<Longrightarrow> same_books h h'"
  by (auto simp: malloc_small_bins_def Let_def res_bind_eq_Inr split: if_splits prod.splits
      dest!: unlink_first_books replace_dv_books tmalloc_small_books intro: same_books_trans)

lemma malloc_dv_top_books: "malloc_dv_top mp M nb h = (e, h') \<Longrightarrow> same_books h h'"
  by (auto simp: malloc_dv_top_def split_top_def Let_def same_books_def split: if_splits)

lemma malloc_locked_books: "malloc_locked mp M req h = Inr (e, h') \<Longrightarrow> same_books h h'"
proof -
  have dv: "same_books h (snd (malloc_dv_top mp M nb h))" for nb h
    using malloc_dv_top_books [of mp M nb h] by (metis prod.collapse)
  assume "malloc_locked mp M req h = Inr (e, h')"
  then show ?thesis
    unfolding malloc_locked_def Let_def
    by (force simp: res_bind_eq_Inr simp del: constant_values split: if_splits prod.splits option.splits
        dest!: malloc_small_bins_books tmalloc_large_books malloc_dv_top_books intro: same_books_trans)
qed

lemma sys_alloc_called_locked:
  assumes "mspace_malloc mp M req h = Inr (Sys_alloc nb, h1)" and "use_lock (ms h)"
  shows "mutex (ms h1)" and "use_lock (ms h1)" and "ok_magic mp (ms h1)"
proof -
  from assms(1) obtain h0 where h0: "ok_magic mp (ms h)" "PREACTION h = Inr h0"
    "malloc_locked mp M req h0 = Inr (Sys_alloc nb, h1)"
    by (auto simp: mspace_malloc_def locked_malloc_def res_bind_eq_Inr split: malloc_exit.splits)
  from h0(2) assms(2) have "mutex (ms h0)" "mflags (ms h0) = mflags (ms h)" "ms_magic (ms h0) = ms_magic (ms h)"
    by (auto simp: PREACTION_def split: if_splits)
  with malloc_locked_books [OF h0(3)] h0(1) assms(2)
  show "mutex (ms h1)" "use_lock (ms h1)" "ok_magic mp (ms h1)"
    by (simp_all add: same_books_def use_lock_def ok_magic_def)
qed

lemma held_lock_spins:
  assumes "mutex (ms h)" and "use_lock (ms h)" and "ok_magic mp (ms h)"
  shows "mspace_malloc mp M req h = Inl Diverges"
  using assms by (simp add: mspace_malloc_def locked_malloc_def PREACTION_def)

end
