(* ===== verification/Dl_Trees.thy ===== *)
theory Dl_Trees
  imports Dl_Malloc "HOL-Library.Tree"
begin

text \<open>
  The tree bins of \<^verbatim>\<open>external/malloc.c\<close> as tries: the shape that a tree bin has in memory, and what the searches
  of \<^verbatim>\<open>tmalloc_small\<close> and \<^verbatim>\<open>tmalloc_large\<close> and the walk of \<^verbatim>\<open>insert_large_chunk\<close> do with it.
\<close>

section \<open>Trees in memory\<close>

fun tree_in :: "words \<Rightarrow> addr_t \<Rightarrow> addr_t tree \<Rightarrow> bool" where
  "tree_in m t Leaf \<longleftrightarrow> t = 0"
| "tree_in m t (Node l a r) \<longleftrightarrow> t = a \<and> a \<noteq> 0 \<and> tree_in m (child m a 0) l \<and> tree_in m (child m a 1) r"

text \<open>
  The sizes in a subtree that has \<open>n\<close> bits left agree on all the other bits, and the next bit decides
  between left and right.
\<close>

fun trie :: "(addr_t \<Rightarrow> size_t) \<Rightarrow> nat \<Rightarrow> addr_t tree \<Rightarrow> bool" where
  "trie sz n Leaf \<longleftrightarrow> True"
| "trie sz 0 (Node l a r) \<longleftrightarrow> l = Leaf \<and> r = Leaf"
| "trie sz (Suc k) (Node l a r) \<longleftrightarrow>
     (\<forall>x \<in> set_tree l. \<not> bit (sz x) k) \<and> (\<forall>x \<in> set_tree r. bit (sz x) k) \<and> trie sz k l \<and> trie sz k r"

definition prefixed :: "(addr_t \<Rightarrow> size_t) \<Rightarrow> nat \<Rightarrow> size_t \<Rightarrow> addr_t tree \<Rightarrow> bool" where
  "prefixed sz n p t \<longleftrightarrow> (\<forall>x \<in> set_tree t. drop_bit n (sz x) = p)"

lemma tree_in_0 [simp]: "tree_in m 0 T \<longleftrightarrow> T = Leaf"
  by (cases T) auto

lemma tree_in_NodeD: "tree_in m t T \<Longrightarrow> t \<noteq> 0 \<Longrightarrow> \<exists>l r. T = Node l t r"
  by (cases T) auto

lemma drop_bit_step: "drop_bit k w = (if bit w k then 2 * drop_bit (Suc k) w + 1 else 2 * drop_bit (Suc k) w)"
  for w :: size_t
proof -
  have "drop_bit k w = 2 * drop_bit 1 (drop_bit k w) + of_bool (odd (drop_bit k w))"
    by (metis drop_bit_eq_div mult_div_mod_eq mod2_eq_if of_bool_def power_one_right)
  moreover have "drop_bit 1 (drop_bit k w) = drop_bit (Suc k) w" by (simp add: drop_bit_drop_bit)
  ultimately have "drop_bit k w = 2 * drop_bit (Suc k) w + of_bool (bit w k)" by (simp only: bit_iff_odd_drop_bit)
  then show ?thesis by (cases "bit w k") auto
qed

lemma size_minus_mono: "nb \<le> x \<Longrightarrow> x \<le> y \<Longrightarrow> x - nb \<le> y - nb" for nb x y :: size_t
  by (simp add: word_le_nat_alt unat_sub)

lemma prefixed_children:
  assumes "trie sz (Suc k) (Node l a r)" and "prefixed sz (Suc k) p (Node l a r)"
  shows "prefixed sz k (2 * p) l" and "prefixed sz k (2 * p + 1) r"
  using assms by (auto simp: prefixed_def drop_bit_step [of k])

lemma unat_drop_bit: "unat (drop_bit n w) = unat w div 2 ^ n" for w :: size_t
  using unsigned_less [of w, where 'a = nat]
  unfolding unsigned_drop_bit_eq by (simp add: drop_bit_eq_div take_bit_eq_mod)

lemma same_prefix_less:
  fixes x y :: size_t
  assumes "drop_bit (Suc k) x = drop_bit (Suc k) y" and "\<not> bit x k" and "bit y k"
  shows "x < y"
proof -
  have b: "bit w k \<longleftrightarrow> odd (unat w div 2 ^ k)" for w :: size_t
    unfolding bit_iff_odd [of "unat w", symmetric] by (simp add: bit_unsigned_iff)
  have half: "unat w div 2 ^ k div 2 = unat (drop_bit (Suc k) w)" for w :: size_t
    unfolding unat_drop_bit by (simp add: div_mult2_eq [symmetric] mult.commute)
  have "unat x div 2 ^ k < unat y div 2 ^ k"
    using half [of x] half [of y] assms b [of x] b [of y] by (auto elim!: oddE evenE)
  then show ?thesis unfolding word_less_nat_alt by (meson div_le_mono leD leI)
qed

lemma left_less_right:
  assumes "trie sz (Suc k) (Node l a r)" and "prefixed sz (Suc k) p (Node l a r)"
    and "x \<in> set_tree l" and "y \<in> set_tree r"
  shows "sz x < sz y"
  by (rule same_prefix_less) (use assms in \<open>auto simp: prefixed_def\<close>)

section \<open>The walk to the leftmost leaf\<close>

lemma leftmost_walk_unfold:
  "leftmost_walk m nb (t, v, rs) =
     (if t = 0 then Some (t, v, rs)
      else if chunksize m t - nb < rs then leftmost_walk m nb (leftmost_child m t, t, chunksize m t - nb)
      else leftmost_walk m nb (leftmost_child m t, v, rs))"
  unfolding leftmost_walk_def by (subst while_option_unfold) (simp add: Let_def)

lemma leftmost_child_in:
  assumes "tree_in m a (Node l a r)"
  shows "tree_in m (leftmost_child m a) (if l = Leaf then r else l)"
  using assms by (cases l) (auto simp: leftmost_child_def)

lemma leftmost_walk_min:
  assumes "tree_in m t T" and "trie (chunksize m) n T" and "prefixed (chunksize m) n p T"
    and "\<forall>x \<in> set_tree T. nb \<le> chunksize m x"
  shows "\<exists>v' rs'. leftmost_walk m nb (t, v, rs) = Some (0, v', rs') \<and> rs' \<le> rs
    \<and> (\<forall>x \<in> set_tree T. rs' \<le> chunksize m x - nb)
    \<and> (v' = v \<and> rs' = rs \<or> v' \<in> set_tree T \<and> rs' = chunksize m v' - nb)"
  using assms
proof (induction T arbitrary: t n p v rs)
  case Leaf
  then show ?case by (simp add: leftmost_walk_unfold)
next
  case (Node l a r)
  define v1 where "v1 = (if chunksize m a - nb < rs then a else v)"
  define r1 where "r1 = (if chunksize m a - nb < rs then chunksize m a - nb else rs)"
  have t: "t = a" "a \<noteq> 0" using Node.prems(1) by auto
  have walk: "leftmost_walk m nb (t, v, rs) = leftmost_walk m nb (leftmost_child m a, v1, r1)"
    using t by (subst leftmost_walk_unfold) (simp add: v1_def r1_def)
  have r1: "r1 \<le> rs" "r1 \<le> chunksize m a - nb" "v1 = v \<and> r1 = rs \<or> v1 = a \<and> r1 = chunksize m a - nb"
    by (auto simp: r1_def v1_def)
  note lc = leftmost_child_in [OF Node.prems(1) [unfolded t(1)]]
  show ?case
  proof (cases n)
    case 0
    then have "l = Leaf" "r = Leaf" using Node.prems(2) by auto
    then show ?thesis using lc r1 unfolding walk by (auto simp: leftmost_walk_unfold)
  next
    case (Suc k)
    note pre = prefixed_children [OF Node.prems(2,3) [unfolded Suc]]
    have tr: "trie (chunksize m) k l" "trie (chunksize m) k r" using Node.prems(2) Suc by auto
    have ge: "\<forall>x \<in> set_tree l. nb \<le> chunksize m x" "\<forall>x \<in> set_tree r. nb \<le> chunksize m x"
      using Node.prems(4) by auto
    show ?thesis
    proof (cases "l = Leaf")
      case True
      with lc have "tree_in m (leftmost_child m a) r" by simp
      from Node.IH(2) [OF this tr(2) pre(2) ge(2), of v1 r1] show ?thesis
        unfolding walk using r1 True by (auto intro: order_trans)
    next
      case False
      with lc have "tree_in m (leftmost_child m a) l" by simp
      from Node.IH(1) [OF this tr(1) pre(1) ge(1), of v1 r1] obtain v' rs' where
        w: "leftmost_walk m nb (leftmost_child m a, v1, r1) = Some (0, v', rs')" "rs' \<le> r1"
          "\<forall>x \<in> set_tree l. rs' \<le> chunksize m x - nb"
          "v' = v1 \<and> rs' = r1 \<or> v' \<in> set_tree l \<and> rs' = chunksize m v' - nb" by auto
      from False obtain y where y: "y \<in> set_tree l" by (cases l) auto
      have "rs' \<le> chunksize m x - nb" if "x \<in> set_tree r" for x
      proof -
        have "chunksize m y < chunksize m x"
          by (rule left_less_right [OF Node.prems(2,3) [unfolded Suc] y that])
        then have "chunksize m y - nb \<le> chunksize m x - nb"
          using y ge(1) by (intro size_minus_mono) auto
        then show ?thesis using w(3) y by force
      qed
      then show ?thesis unfolding walk using w r1 by auto
    qed
  qed
qed

lemma leftmost_walk_zero:
  "tree_in m t T \<Longrightarrow> leftmost_walk m nb (t, v, 0) = Some (0, v, 0)"
proof (induction T arbitrary: t)
  case Leaf
  then show ?case by (simp add: leftmost_walk_unfold)
next
  case (Node l a r)
  then have t: "t = a" "a \<noteq> 0" by auto
  note lc = leftmost_child_in [OF Node.prems [unfolded t(1)]]
  show ?case using t lc Node.IH by (subst leftmost_walk_unfold) (auto split: if_splits)
qed

section \<open>The search in the tree of the size's own bin\<close>

text \<open>The right subtree that the search remembers: a trie whose sizes are all above the request.\<close>

definition above :: "(addr_t \<Rightarrow> size_t) \<Rightarrow> size_t \<Rightarrow> addr_t tree \<Rightarrow> bool" where
  "above sz nb R \<longleftrightarrow> (\<exists>n p. trie sz n R \<and> prefixed sz n p R) \<and> (\<forall>y \<in> set_tree R. nb < sz y)"

abbreviation tree_search :: "words \<Rightarrow> size_t \<Rightarrow> large_search \<Rightarrow> large_search option" where
  "tree_search m nb \<equiv> while_option (\<lambda>s. \<not> ls_done s) (large_step m nb)"

abbreviation at_tree :: "addr_t \<Rightarrow> addr_t \<Rightarrow> size_t \<Rightarrow> size_t \<Rightarrow> addr_t \<Rightarrow> large_search" where
  "at_tree t v rs bits rst \<equiv>
     \<lparr>ls_done = False, ls_t = t, ls_v = v, ls_rsize = rs, ls_bits = bits, ls_rst = rst\<rparr>"

text \<open>What the search has found in the tree \<open>T\<close>, beside what it knew before.\<close>

definition searched ::
  "words \<Rightarrow> size_t \<Rightarrow> addr_t tree \<Rightarrow> addr_t tree \<Rightarrow> addr_t \<Rightarrow> size_t \<Rightarrow> large_search \<Rightarrow> bool" where
  "searched m nb T R v rs s \<longleftrightarrow>
     ls_rsize s \<le> rs
     \<and> (ls_v s = v \<and> ls_rsize s = rs
        \<or> ls_v s \<in> set_tree T \<and> nb \<le> chunksize m (ls_v s) \<and> ls_rsize s = chunksize m (ls_v s) - nb)
     \<and> (ls_rsize s = 0 \<and> (\<exists>T'. tree_in m (ls_t s) T')
        \<or> (\<exists>R'. tree_in m (ls_t s) R'
            \<and> (R' = R \<or> R' \<noteq> Leaf \<and> set_tree R' \<subseteq> set_tree T \<and> above (chunksize m) nb R')
            \<and> (\<forall>x \<in> set_tree T. nb \<le> chunksize m x \<longrightarrow>
                 ls_rsize s \<le> chunksize m x - nb \<or> (\<exists>y \<in> set_tree R'. chunksize m y \<le> chunksize m x))))"

lemma tree_search_done: "ls_done s \<Longrightarrow> tree_search m nb s = Some s"
  by (subst while_option_unfold) simp

lemma tree_search_unfold:
  "tree_search m nb (at_tree t v rs bits rst) =
     (let trem = chunksize m t - nb;
          rt = child m t 1;
          t' = child m t (child_bit bits);
          rst' = (if rt \<noteq> 0 \<and> rt \<noteq> t' then rt else rst);
          v' = (if trem < rs then t else v);
          rs' = (if trem < rs then trem else rs)
      in
      if trem < rs \<and> trem = 0 then Some ((at_tree t v' rs' bits rst)\<lparr>ls_done := True\<rparr>)
      else if t' = 0 then Some ((at_tree rst' v' rs' bits rst')\<lparr>ls_done := True\<rparr>)
      else tree_search m nb (at_tree t' v' rs' (push_bit 1 bits) rst'))"
  by (subst while_option_unfold) (auto simp: large_step_def Let_def tree_search_done)


lemma child_bit_push: "n \<le> 64 \<Longrightarrow> n = Suc k \<Longrightarrow> child_bit (push_bit (64 - n) nb) = (if bit nb k then 1 else 0)"
  by (auto simp: child_bit_def bit_simps)

lemma wrapped_remainder:
  fixes nb s rs :: size_t
  assumes "s - nb < rs" and "rs \<le> - nb" and "nb \<noteq> 0"
  shows "nb \<le> s"
proof (rule ccontr)
  assume "\<not> nb \<le> s"
  then have "unat (s - nb) = unat s + 2 ^ 64 - unat nb" "unat s < unat nb"
    by (simp_all add: unat_sub_if_size word_size word_le_nat_alt not_le)
  moreover have "unat (- nb) = 2 ^ 64 - unat nb" using assms(3) unat_sub_if_size [of 0 nb] by (simp add: word_size word_le_nat_alt unat_eq_zero)
  ultimately show False using assms(1,2) unsigned_less [of nb, where 'a = nat]
    by (simp add: word_less_nat_alt word_le_nat_alt)
qed

text \<open>
  What the search leaves out when it goes on in \<open>C\<close>: a chunk there that fits is not smaller than some
  chunk of the tree in which the search ends.
\<close>

definition other_covered ::
  "(addr_t \<Rightarrow> size_t) \<Rightarrow> size_t \<Rightarrow> addr_t tree \<Rightarrow> addr_t tree \<Rightarrow> addr_t tree \<Rightarrow> addr_t tree \<Rightarrow> bool" where
  "other_covered sz nb l r C R1 \<longleftrightarrow>
     (\<forall>x R'. x \<in> set_tree l \<union> set_tree r \<longrightarrow> x \<notin> set_tree C \<longrightarrow> nb \<le> sz x \<longrightarrow>
        R' = R1 \<or> R' \<noteq> Leaf \<and> set_tree R' \<subseteq> set_tree C \<longrightarrow> (\<exists>y \<in> set_tree R'. sz y \<le> sz x))"

lemma searched_child:
  assumes s: "searched m nb C R1 v1 r1 s"
    and C: "set_tree C \<subseteq> set_tree (Node l a r)"
    and r1: "r1 \<le> rs" "nb \<le> chunksize m a \<Longrightarrow> r1 \<le> chunksize m a - nb"
      "v1 = v \<and> r1 = rs \<or> v1 = a \<and> nb \<le> chunksize m a \<and> r1 = chunksize m a - nb"
    and R1: "R1 = R \<or> R1 \<noteq> Leaf \<and> set_tree R1 \<subseteq> set_tree (Node l a r) \<and> above (chunksize m) nb R1"
    and rest: "other_covered (chunksize m) nb l r C R1"
  shows "searched m nb (Node l a r) R v rs s"
proof -
  have best: "ls_v s = v \<and> ls_rsize s = rs
    \<or> ls_v s \<in> set_tree (Node l a r) \<and> nb \<le> chunksize m (ls_v s) \<and> ls_rsize s = chunksize m (ls_v s) - nb"
    using s r1(3) C unfolding searched_def by auto
  have le: "ls_rsize s \<le> r1" using s unfolding searched_def by simp
  consider "ls_rsize s = 0" "\<exists>T'. tree_in m (ls_t s) T'" | R' where "tree_in m (ls_t s) R'"
      "R' = R1 \<or> R' \<noteq> Leaf \<and> set_tree R' \<subseteq> set_tree C \<and> above (chunksize m) nb R'"
      "\<forall>x \<in> set_tree C. nb \<le> chunksize m x \<longrightarrow>
         ls_rsize s \<le> chunksize m x - nb \<or> (\<exists>y \<in> set_tree R'. chunksize m y \<le> chunksize m x)"
    using s unfolding searched_def by blast
  then show ?thesis
  proof cases
    case 1
    then show ?thesis unfolding searched_def using best by auto
  next
    case (2 R')
    have "ls_rsize s \<le> chunksize m x - nb \<or> (\<exists>y \<in> set_tree R'. chunksize m y \<le> chunksize m x)"
      if "x \<in> set_tree (Node l a r)" and "nb \<le> chunksize m x" for x
    proof (cases "x = a")
      case True
      then show ?thesis using that(2) r1(2) le by auto
    next
      case False
      then show ?thesis using that 2(2,3) rest unfolding other_covered_def by auto
    qed
    moreover have "R' = R \<or> R' \<noteq> Leaf \<and> set_tree R' \<subseteq> set_tree (Node l a r) \<and> above (chunksize m) nb R'"
      using 2(2) R1 C by blast
    ultimately show ?thesis unfolding searched_def using best le r1(1) 2(1) by (blast intro: order_trans)
  qed
qed

text \<open>Which child the search takes, and what it knows of the other one.\<close>

lemma search_turn:
  assumes T: "tree_in m a (Node l a r)" "trie (chunksize m) n (Node l a r)" "n \<le> 64"
      "prefixed (chunksize m) n (drop_bit n nb) (Node l a r)"
    and R: "tree_in m rst R"
  obtains C R1 k where
    "tree_in m (child m a (child_bit (push_bit (64 - n) nb))) C" "C = l \<or> C = r"
    "tree_in m (if child m a 1 \<noteq> 0 \<and> child m a 1 \<noteq> child m a (child_bit (push_bit (64 - n) nb)) then child m a 1 else rst) R1"
    "R1 = R \<or> R1 \<noteq> Leaf \<and> set_tree R1 \<subseteq> set_tree (Node l a r) \<and> above (chunksize m) nb R1"
    "C \<noteq> Leaf \<longrightarrow> n = Suc k" "trie (chunksize m) k C" "prefixed (chunksize m) k (drop_bit k nb) C"
    "other_covered (chunksize m) nb l r C R1"
proof (cases n)
  case 0
  then have lr: "l = Leaf" "r = Leaf" using T(2) by auto
  then have z: "child m a 0 = 0" "child m a 1 = 0" using T(1) by auto
  have "child m a (child_bit (push_bit (64 - n) nb)) = 0" using z by (simp add: child_bit_def)
  then show ?thesis using that [of Leaf R 0] lr R z by (simp add: prefixed_def other_covered_def)
next
  case (Suc k)
  note T' = T(2,4) [unfolded Suc]
  have bitk: "child_bit (push_bit (64 - n) nb) = (if bit nb k then 1 else 0)"
    by (rule child_bit_push [OF T(3) Suc])
  have lr: "tree_in m (child m a 0) l" "tree_in m (child m a 1) r" using T(1) by auto
  have tr: "trie (chunksize m) k l" "trie (chunksize m) k r" using T' by auto
  have pre: "prefixed (chunksize m) k (if bit nb k then drop_bit k nb - 1 else drop_bit k nb) l"
    "prefixed (chunksize m) k (if bit nb k then drop_bit k nb else drop_bit k nb + 1) r"
    using prefixed_children [OF T'] drop_bit_step [of k nb] by (auto split: if_splits)
  show ?thesis
  proof (cases "bit nb k")
    case True
    have small: "chunksize m x < nb" if "x \<in> set_tree l" for x
      by (rule same_prefix_less [of k]) (use that True T' in \<open>auto simp: prefixed_def\<close>)
    show ?thesis
      by (rule that [of r R k]) (use lr tr pre True R bitk Suc small in \<open>auto simp: not_le [symmetric] other_covered_def\<close>)
  next
    case False
    have big: "nb < chunksize m x" if "x \<in> set_tree r" for x
      by (rule same_prefix_less [of k]) (use that False T' in \<open>auto simp: prefixed_def\<close>)
    have differ: "child m a 1 \<noteq> child m a 0" if "r \<noteq> Leaf"
    proof
      assume "child m a 1 = child m a 0"
      then have "child m a 0 \<in> set_tree l" "child m a 0 \<in> set_tree r" using lr that by (cases l; cases r; simp)+
      then show False using left_less_right [OF T'] by blast
    qed
    have ab: "above (chunksize m) nb r" using tr(2) pre(2) big unfolding above_def by blast
    define R1 where "R1 = (if r = Leaf then R else r)"
    have R1: "tree_in m (if child m a 1 \<noteq> 0 \<and> child m a 1 \<noteq> child m a 0 then child m a 1 else rst) R1"
      using lr(2) differ R by (cases r) (auto simp: R1_def)
    have "other_covered (chunksize m) nb l r l R1" unfolding other_covered_def
    proof (intro allI impI)
      fix x R'
      assume x: "x \<in> set_tree l \<union> set_tree r" "x \<notin> set_tree l" "R' = R1 \<or> R' \<noteq> Leaf \<and> set_tree R' \<subseteq> set_tree l"
      show "\<exists>y \<in> set_tree R'. chunksize m y \<le> chunksize m x"
      proof (cases "R' = R1")
        case True
        then show ?thesis using x by (cases r) (auto simp: R1_def)
      next
        case False
        with x obtain y where "y \<in> set_tree R'" "y \<in> set_tree l" by (cases R') auto
        then show ?thesis using left_less_right [OF T' \<open>y \<in> set_tree l\<close>] x by (blast intro: less_imp_le)
      qed
    qed
    then show ?thesis
      by (intro that [of l R1 k]) (use lr tr pre False bitk Suc ab R1 in \<open>auto simp: R1_def\<close>)
  qed
qed

lemma tree_search_finds:
  assumes "tree_in m t T" and "T \<noteq> Leaf" and "trie (chunksize m) n T" and "n \<le> 64"
    and "prefixed (chunksize m) n (drop_bit n nb) T"
    and "tree_in m rst R" and "rs \<le> - nb" and "nb \<noteq> 0"
  shows "\<exists>s. tree_search m nb (at_tree t v rs (push_bit (64 - n) nb) rst) = Some s \<and> searched m nb T R v rs s"
  using assms(1-7)
proof (induction T arbitrary: t n v rs rst R)
  case Leaf
  then show ?case by simp
next
  case (Node l a r)
  define trem where "trem = chunksize m a - nb"
  define v1 where "v1 = (if trem < rs then a else v)"
  define r1 where "r1 = (if trem < rs then trem else rs)"
  have t: "t = a" using Node.prems(1) by simp
  note T = Node.prems(1) [unfolded t] Node.prems(3-5)
  have fits: "nb \<le> chunksize m a" if "trem < rs"
    using wrapped_remainder [OF that [unfolded trem_def] Node.prems(7) assms(8)] .
  have r1: "r1 \<le> rs" "nb \<le> chunksize m a \<Longrightarrow> r1 \<le> chunksize m a - nb" "r1 \<le> - nb"
    "v1 = v \<and> r1 = rs \<or> v1 = a \<and> nb \<le> chunksize m a \<and> r1 = chunksize m a - nb"
    using fits Node.prems(7) by (auto simp: r1_def v1_def trem_def)
  obtain C R1 k where C: "tree_in m (child m a (child_bit (push_bit (64 - n) nb))) C" "C = l \<or> C = r"
    and rst': "tree_in m (if child m a 1 \<noteq> 0 \<and> child m a 1 \<noteq> child m a (child_bit (push_bit (64 - n) nb)) then child m a 1 else rst) R1"
    and R1: "R1 = R \<or> R1 \<noteq> Leaf \<and> set_tree R1 \<subseteq> set_tree (Node l a r) \<and> above (chunksize m) nb R1"
    and k: "C \<noteq> Leaf \<longrightarrow> n = Suc k" "trie (chunksize m) k C" "prefixed (chunksize m) k (drop_bit k nb) C"
    and rest: "other_covered (chunksize m) nb l r C R1"
    by (rule search_turn [OF T Node.prems(6)])
  have sub: "set_tree C \<subseteq> set_tree (Node l a r)" using C(2) by auto
  note child = searched_child [OF _ sub r1(1,2,4) R1 rest]
  define t1 where "t1 = child m a (child_bit (push_bit (64 - n) nb))"
  define rst1 where "rst1 = (if child m a 1 \<noteq> 0 \<and> child m a 1 \<noteq> t1 then child m a 1 else rst)"
  have unfold: "tree_search m nb (at_tree a v rs (push_bit (64 - n) nb) rst) =
    (if trem < rs \<and> trem = 0 then Some ((at_tree a v1 r1 (push_bit (64 - n) nb) rst)\<lparr>ls_done := True\<rparr>)
     else if t1 = 0 then Some ((at_tree rst1 v1 r1 (push_bit (64 - n) nb) rst1)\<lparr>ls_done := True\<rparr>)
     else tree_search m nb (at_tree t1 v1 r1 (push_bit 1 (push_bit (64 - n) nb)) rst1))"
    by (subst tree_search_unfold) (simp only: Let_def trem_def v1_def r1_def t1_def rst1_def)
  note C = C [folded t1_def] and rst' = rst' [folded t1_def, folded rst1_def]
  show ?case
  proof (cases "trem < rs \<and> trem = 0")
    case True
    have "\<exists>T'. tree_in m a T'" using T(1) by blast
    with True have "searched m nb (Node l a r) R v rs ((at_tree a v1 r1 (push_bit (64 - n) nb) rst)\<lparr>ls_done := True\<rparr>)"
      using fits unfolding searched_def v1_def r1_def by (auto simp: trem_def)
    then show ?thesis unfolding t unfold if_P [OF True] by blast
  next
    case False
    show ?thesis
    proof (cases "C = Leaf")
      case True
      then have z: "t1 = 0" using C(1) by simp
      have "searched m nb C R1 v1 r1 ((at_tree rst1 v1 r1 (push_bit (64 - n) nb) rst1)\<lparr>ls_done := True\<rparr>)"
        using rst' True unfolding searched_def by auto
      from child [OF this] show ?thesis unfolding t unfold if_not_P [OF False] if_P [OF z] by blast
    next
      case False': False
      then have n: "n = Suc k" and nz: "t1 \<noteq> 0" using k(1) C(1) by auto
      have bits: "push_bit 1 (push_bit (64 - n) nb) = push_bit (64 - k) nb"
      proof -
        have "1 + (64 - n) = 64 - k" using n Node.prems(4) by simp
        then show ?thesis by (simp only: push_bit_push_bit)
      qed
      have k64: "k \<le> 64" using n Node.prems(4) by simp
      have "\<exists>s. tree_search m nb (at_tree t1 v1 r1 (push_bit (64 - k) nb) rst1) = Some s \<and> searched m nb C R1 v1 r1 s"
        using C(2)
      proof
        assume "C = l"
        then show ?thesis using Node.IH(1) [of t1 k rst1 R1 r1 v1] C(1) False' k(2,3) k64 rst' r1(3) by simp
      next
        assume "C = r"
        then show ?thesis using Node.IH(2) [of t1 k rst1 R1 r1 v1] C(1) False' k(2,3) k64 rst' r1(3) by simp
      qed
      then obtain s where s: "tree_search m nb (at_tree t1 v1 r1 (push_bit (64 - k) nb) rst1) = Some s"
        "searched m nb C R1 v1 r1 s" by blast
      from child [OF s(2)] s(1) show ?thesis unfolding t unfold if_not_P [OF False] if_not_P [OF nz] bits by blast
    qed
  qed
qed

section \<open>Best fit in one tree\<close>

definition best_fit :: "(addr_t \<Rightarrow> size_t) \<Rightarrow> size_t \<Rightarrow> addr_t set \<Rightarrow> addr_t \<Rightarrow> bool" where
  "best_fit sz nb A v \<longleftrightarrow> v \<in> A \<and> nb \<le> sz v \<and> (\<forall>x \<in> A. nb \<le> sz x \<longrightarrow> sz v \<le> sz x)"

lemma tree_in_nonzero: "tree_in m t T \<Longrightarrow> 0 \<notin> set_tree T"
  by (induction T arbitrary: t) auto

lemma size_minus_le: "nb \<le> v \<Longrightarrow> nb \<le> x \<Longrightarrow> v - nb \<le> x - nb \<longleftrightarrow> v \<le> x" for nb v x :: size_t
  by (auto simp: word_le_nat_alt unat_sub)

lemma remainder_below: "nb \<le> x \<Longrightarrow> nb \<noteq> 0 \<Longrightarrow> x - nb < - nb" for nb x :: size_t
  using unat_sub_if_size [of 0 nb] unsigned_less [of x, where 'a = nat]
  by (simp add: word_less_nat_alt word_le_nat_alt unat_sub word_size unat_eq_zero)

lemma above_Leaf [simp]: "above sz nb Leaf"
  by (auto simp: above_def prefixed_def)

lemma searched_Leaf:
  assumes "searched m nb T Leaf v rs s"
  obtains T' where "ls_rsize s = 0" "tree_in m (ls_t s) T'"
  | R' where "tree_in m (ls_t s) R'" "set_tree R' \<subseteq> set_tree T" "above (chunksize m) nb R'"
      "\<forall>x \<in> set_tree T. nb \<le> chunksize m x \<longrightarrow>
         ls_rsize s \<le> chunksize m x - nb \<or> (\<exists>y \<in> set_tree R'. chunksize m y \<le> chunksize m x)"
proof -
  consider T' where "ls_rsize s = 0" "tree_in m (ls_t s) T'"
    | R' where "tree_in m (ls_t s) R'"
      "R' = Leaf \<or> R' \<noteq> Leaf \<and> set_tree R' \<subseteq> set_tree T \<and> above (chunksize m) nb R'"
      "\<forall>x \<in> set_tree T. nb \<le> chunksize m x \<longrightarrow>
         ls_rsize s \<le> chunksize m x - nb \<or> (\<exists>y \<in> set_tree R'. chunksize m y \<le> chunksize m x)"
    using assms unfolding searched_def by blast
  then show ?thesis by cases (use that in auto)
qed

lemma tree_best_fit:
  assumes T: "tree_in m t T" "T \<noteq> Leaf" "trie (chunksize m) n T" "n \<le> 64" "prefixed (chunksize m) n (drop_bit n nb) T"
    and nb: "nb \<noteq> 0"
  shows "\<exists>s v rs. tree_search m nb (at_tree t 0 (- nb) (push_bit (64 - n) nb) 0) = Some s
    \<and> (if \<exists>x \<in> set_tree T. nb \<le> chunksize m x then
         (ls_t s \<noteq> 0 \<or> ls_v s \<noteq> 0)
         \<and> leftmost_walk m nb (ls_t s, ls_v s, ls_rsize s) = Some (0, v, rs)
         \<and> best_fit (chunksize m) nb (set_tree T) v \<and> rs = chunksize m v - nb
       else ls_t s = 0 \<and> ls_v s = 0 \<and> ls_rsize s = - nb)"
proof -
  have "tree_in m 0 Leaf" by simp
  from tree_search_finds [OF T this order_refl nb, of 0] obtain s where
    s: "tree_search m nb (at_tree t 0 (- nb) (push_bit (64 - n) nb) 0) = Some s"
    and found: "searched m nb T Leaf 0 (- nb) s" by blast
  have v: "ls_v s = 0 \<and> ls_rsize s = - nb
      \<or> ls_v s \<in> set_tree T \<and> nb \<le> chunksize m (ls_v s) \<and> ls_rsize s = chunksize m (ls_v s) - nb"
    using found unfolding searched_def by simp
  have nz: "0 \<notin> set_tree T" by (rule tree_in_nonzero [OF T(1)])
  show ?thesis using found
  proof (cases rule: searched_Leaf)
    case exact: (1 T')
    with v nb have w: "ls_v s \<in> set_tree T" "nb = chunksize m (ls_v s)" by auto
    then have "best_fit (chunksize m) nb (set_tree T) (ls_v s)" by (auto simp: best_fit_def)
    then show ?thesis using s exact leftmost_walk_zero [OF exact(2)] w nz by (intro exI [of _ s]) auto
  next
    case rest: (2 R')
    from rest(3) obtain k p where R': "trie (chunksize m) k R'" "prefixed (chunksize m) k p R'"
      "\<forall>y \<in> set_tree R'. nb < chunksize m y" unfolding above_def by blast
    then have "\<forall>y \<in> set_tree R'. nb \<le> chunksize m y" by auto
    from leftmost_walk_min [OF rest(1) R'(1,2) this, of "ls_v s" "ls_rsize s"] obtain v rs where
      w: "leftmost_walk m nb (ls_t s, ls_v s, ls_rsize s) = Some (0, v, rs)" "rs \<le> ls_rsize s"
        "\<forall>x \<in> set_tree R'. rs \<le> chunksize m x - nb"
        "v = ls_v s \<and> rs = ls_rsize s \<or> v \<in> set_tree R' \<and> rs = chunksize m v - nb" by blast
    show ?thesis
    proof (cases "\<exists>x \<in> set_tree T. nb \<le> chunksize m x")
      case False
      then have "ls_v s = 0" "ls_rsize s = - nb" using v by auto
      moreover have "R' = Leaf" using rest(2) R'(3) False by (cases R') (auto dest: less_imp_le)
      ultimately show ?thesis using s rest(1) False by auto
    next
      case True
      then obtain x where x: "x \<in> set_tree T" "nb \<le> chunksize m x" by blast
      have min: "rs \<le> chunksize m x - nb" if "x \<in> set_tree T" "nb \<le> chunksize m x" for x
        using rest(4) that w(2,3) R'(3) size_minus_mono [of nb] by (meson less_imp_le order_trans)
      have "rs < - nb" using min [OF x] remainder_below [OF x(2) nb] by (rule le_less_trans)
      then have fit: "v \<in> set_tree T" "nb \<le> chunksize m v" "rs = chunksize m v - nb"
        using w(4) v rest(2) R'(3) by auto
      then have "best_fit (chunksize m) nb (set_tree T) v"
        using min size_minus_le [OF fit(2)] by (auto simp: best_fit_def)
      moreover have "ls_t s \<noteq> 0 \<or> ls_v s \<noteq> 0"
        using rest(1) w(4) fit nz by (cases R') auto
      ultimately show ?thesis using s w(1) fit True by auto
    qed
  qed
qed


section \<open>The tree bins\<close>

text \<open>
  The tree bins hold the tries \<open>F 0\<close>, ..., \<open>F 31\<close>: the header of a bin points to the root, the tree map
  has a bit for each trie that is not empty, and each chunk is in the bin of its size.  The sizes are
  below one terabyte, from where on \<^verbatim>\<open>compute_tree_index\<close> loses bits.
\<close>

definition tree_bins :: "addr_t \<Rightarrow> (nat \<Rightarrow> addr_t tree) \<Rightarrow> heap \<Rightarrow> bool" where
  "tree_bins M F h \<longleftrightarrow> (\<forall>i < 32.
     tree_in (mem h) (mem h (treebin_at M (of_nat i))) (F i)
     \<and> (bit (treemap (ms h)) i \<longleftrightarrow> F i \<noteq> Leaf)
     \<and> trie (chunksize (mem h)) (64 - leftshift_for_tree_index (of_nat i)) (F i)
     \<and> (\<forall>x \<in> set_tree (F i). 256 \<le> chunksize (mem h) x \<and> chunksize (mem h) x < 2 ^ 40
          \<and> compute_tree_index (chunksize (mem h) x) = of_nat i))"

definition tree_chunks :: "(nat \<Rightarrow> addr_t tree) \<Rightarrow> addr_t set" where
  "tree_chunks F = (\<Union>i < 32. set_tree (F i))"

text \<open>The smallest size of the bin with index \<open>i\<close>.\<close>

definition lower :: "nat \<Rightarrow> nat" where "lower i = (2 + i mod 2) * 2 ^ (i div 2 + 7)"

lemma lower_Suc: "lower (Suc i) = (3 + i mod 2) * 2 ^ (i div 2 + 7)"
  by (cases "even i") (auto elim!: evenE oddE simp: lower_def power_add)

lemma lower_mono: "i \<le> j \<Longrightarrow> lower i \<le> lower j"
proof (rule lift_Suc_mono_le [of lower])
  show "lower n \<le> lower (Suc n)" for n unfolding lower_Suc by (unfold lower_def, rule mult_le_mono1) simp
qed

lemma tree_index_lower:
  fixes s :: size_t
  assumes "256 \<le> s" and "s < 2 ^ 40"
  obtains i where "compute_tree_index s = of_nat i" "i < 32" "lower i \<le> unat s" "i < 31 \<longrightarrow> unat s < lower (Suc i)"
proof -
  have a: "256 \<le> unat s" "unat s < 2 ^ 40" using assms by (auto simp: word_le_nat_alt word_less_nat_alt)
  show ?thesis
  proof (cases "unat s div 256 \<le> 0xFFFF")
    case True
    from a(1) this show ?thesis
    proof (rule tree_index_eq)
      fix k b :: nat
      assume kb: "k \<le> 15" "b < 2" "compute_tree_index s = of_nat (2 * k + b)"
        "2 ^ (k + 8) + b * 2 ^ (k + 7) \<le> unat s" "unat s < 2 ^ (k + 8) + (b + 1) * 2 ^ (k + 7)"
      have "(2 :: nat) ^ (k + 8) = 2 * 2 ^ (k + 7)" by (simp add: power_add)
      then have "lower (2 * k + b) \<le> unat s" "unat s < lower (Suc (2 * k + b))"
        using kb(2,4,5) unfolding lower_Suc by (simp_all add: lower_def add_mult_distrib)
      then show ?thesis using kb by (intro that [of "2 * k + b"]) auto
    qed
  next
    case False
    define x :: uint where "x = ucast (drop_bit 8 s)"
    have "unat x = unat s div 256"
      using a(2) by (simp add: x_def unsigned_ucast_eq unsigned_take_bit_eq drop_bit_eq_div unat_div_distrib take_bit_nat_eq_self_iff)
    then have "x > 0xFFFF" using False by (simp add: word_less_nat_alt)
    then have "compute_tree_index s = of_nat 31"
      unfolding compute_tree_index_def Let_def x_def [symmetric] by auto
    then show ?thesis using False by (intro that [of 31]) (auto simp: lower_def)
  qed
qed

lemma unat_bin [simp]: "i < 32 \<Longrightarrow> unat (of_nat i :: uint) = i"
  by (simp only: unsigned_of_nat) (simp add: take_bit_nat_eq_self_iff less_trans [of i 32])

lemma of_nat_uint_inj: "i < 32 \<Longrightarrow> j < 32 \<Longrightarrow> (of_nat i :: uint) = of_nat j \<longleftrightarrow> i = j"
  using unat_bin by metis


lemma bin_bits: "i < 31 \<Longrightarrow> 64 - leftshift_for_tree_index (of_nat i) = i div 2 + 7"
  using of_nat_uint_inj [of i 31] by (simp add: leftshift_for_tree_index_def)

lemma tree_bin_prefix:
  fixes s s' :: size_t
  assumes "256 \<le> s" "s < 2 ^ 40" "256 \<le> s'" "s' < 2 ^ 40"
    and "compute_tree_index s = of_nat i" "compute_tree_index s' = of_nat i" "i < 32"
  shows "drop_bit (64 - leftshift_for_tree_index (of_nat i)) s = drop_bit (64 - leftshift_for_tree_index (of_nat i)) s'"
proof (cases "i = 31")
  case True
  have "drop_bit 64 w = 0" for w :: size_t by (rule bit_word_eqI) (simp add: bit_simps)
  with True show ?thesis by (simp only: leftshift_for_tree_index_def) simp
next
  case False
  have "unat w div 2 ^ (i div 2 + 7) = 2 + i mod 2"
    if "256 \<le> w" "w < 2 ^ 40" "compute_tree_index w = of_nat i" for w :: size_t
    using that(1,2)
  proof (rule tree_index_lower)
    fix j
    assume j: "compute_tree_index w = of_nat j" "j < 32" "lower j \<le> unat w" "j < 31 \<longrightarrow> unat w < lower (Suc j)"
    then have "j = i" using that(3) assms(7) of_nat_uint_inj by simp
    with j False have "lower i \<le> unat w" "unat w < lower (Suc i)" by auto
    then show ?thesis unfolding lower_Suc by (intro div_nat_eqI) (simp_all add: lower_def algebra_simps)
  qed
  then have "unat (drop_bit (i div 2 + 7) s) = unat (drop_bit (i div 2 + 7) s')"
    unfolding unat_drop_bit using assms by simp
  then show ?thesis using False assms(7) by (simp add: bin_bits word_unat_eq_iff)
qed

lemma tree_bin_order:
  fixes s s' :: size_t
  assumes "256 \<le> s" "s < 2 ^ 40" "256 \<le> s'" "s' < 2 ^ 40"
    and "compute_tree_index s = of_nat i" "compute_tree_index s' = of_nat j" "i < j" "j < 32"
  shows "s < s'"
proof -
  obtain i' where i': "compute_tree_index s = of_nat i'" "i' < 32" "i' < 31 \<longrightarrow> unat s < lower (Suc i')"
    using assms(1,2) by (rule tree_index_lower)
  obtain j' where j': "compute_tree_index s' = of_nat j'" "j' < 32" "lower j' \<le> unat s'"
    using assms(3,4) by (rule tree_index_lower)
  have "i' = i" "j' = j" using i' j' assms of_nat_uint_inj by auto
  then have "unat s < lower (Suc i)" "lower j \<le> unat s'" using i' j' assms by auto
  then show ?thesis using lower_mono [of "Suc i" j] assms(7) by (simp add: word_less_nat_alt)
qed

lemma left_bits_spec:
  assumes "i < 32" and "j < 32"
  shows "bit (left_bits (idx2bit (of_nat i)) AND x) j \<longleftrightarrow> i < j \<and> bit x j"
proof -
  have "left_bits (idx2bit (of_nat i)) = push_bit (Suc i) 1 OR - push_bit (Suc i) 1"
    using assms(1) by (simp add: left_bits_def idx2bit_def mult.commute)
  moreover have "bit (push_bit (Suc i) 1 OR - push_bit (Suc i) 1 :: uint) j \<longleftrightarrow> i < j"
  proof -
    have "- push_bit (Suc i) 1 = (NOT (mask (Suc i)) :: uint)"
      by (simp only: push_bit_eq_mult mult_1 minus_exp_eq_not_mask)
    then show ?thesis using assms(2) by (auto simp only: bit_or_iff bit_not_iff bit_mask_iff bit_push_bit_iff) (auto simp: bit_1_iff)
  qed
  ultimately show ?thesis by (simp add: bit_and_iff)
qed


section \<open>Best fit among all the trees\<close>

lemma tree_binsD:
  assumes "tree_bins M F h" and "i < 32"
  shows "tree_in (mem h) (mem h (treebin_at M (of_nat i))) (F i)" "bit (treemap (ms h)) i \<longleftrightarrow> F i \<noteq> Leaf"
    "trie (chunksize (mem h)) (64 - leftshift_for_tree_index (of_nat i)) (F i)"
    "\<And>x. x \<in> set_tree (F i) \<Longrightarrow> 256 \<le> chunksize (mem h) x"
    "\<And>x. x \<in> set_tree (F i) \<Longrightarrow> chunksize (mem h) x < 2 ^ 40"
    "\<And>x. x \<in> set_tree (F i) \<Longrightarrow> compute_tree_index (chunksize (mem h) x) = of_nat i"
  using assms unfolding tree_bins_def by auto

lemma tree_bins_prefixed:
  assumes B: "tree_bins M F h" and s: "256 \<le> s" "s < 2 ^ 40" "compute_tree_index s = of_nat i" "i < 32"
  shows "prefixed (chunksize (mem h)) (64 - leftshift_for_tree_index (of_nat i))
    (drop_bit (64 - leftshift_for_tree_index (of_nat i)) s) (F i)"
  unfolding prefixed_def
  using tree_bin_prefix [OF tree_binsD(4,5) [OF B s(4)] s(1,2) _ s(3,4)] tree_binsD(6) [OF B s(4)] by blast

lemma tree_bins_trie:
  assumes B: "tree_bins M F h" and i: "i < 32"
  shows "\<exists>n p. trie (chunksize (mem h)) n (F i) \<and> prefixed (chunksize (mem h)) n p (F i)"
proof (cases "F i")
  case Leaf
  then show ?thesis by (simp add: prefixed_def)
next
  case (Node l a r)
  then have "a \<in> set_tree (F i)" by simp
  then show ?thesis
    using tree_bins_prefixed [OF B tree_binsD(4-6) [OF B i] i, of a] tree_binsD(3) [OF B i] by blast
qed

lemma tree_bins_less:
  assumes "tree_bins M F h" "i < j" "j < 32" "x \<in> set_tree (F i)" "y \<in> set_tree (F j)"
  shows "chunksize (mem h) x < chunksize (mem h) y"
proof -
  have "i < 32" using assms by simp
  from tree_binsD(4-6) [OF assms(1) this assms(4)] tree_binsD(4-6) [OF assms(1,3,5)]
  show ?thesis using tree_bin_order assms(2,3) by blast
qed

lemma best_fit_min:
  assumes "best_fit sz nb A v" and "A \<subseteq> B" and "\<And>x. x \<in> B \<Longrightarrow> x \<notin> A \<Longrightarrow> nb \<le> sz x \<Longrightarrow> sz v \<le> sz x"
  shows "best_fit sz nb B v"
  using assms unfolding best_fit_def by blast

text \<open>The leftmost path of a tree whose chunks all fit leads to the best fit.\<close>

lemma leftmost_best_fit:
  assumes B: "tree_bins M F h" and i: "i < 32" and F: "F i \<noteq> Leaf"
    and nb: "\<forall>x \<in> set_tree (F i). nb \<le> chunksize (mem h) x" "nb \<noteq> 0"
  shows "\<exists>v. leftmost_walk (mem h) nb (mem h (treebin_at M (of_nat i)), 0, - nb) = Some (0, v, chunksize (mem h) v - nb)
    \<and> best_fit (chunksize (mem h)) nb (set_tree (F i)) v"
proof -
  obtain n p where "trie (chunksize (mem h)) n (F i)" "prefixed (chunksize (mem h)) n p (F i)"
    using tree_bins_trie [OF B i] by blast
  from leftmost_walk_min [OF tree_binsD(1) [OF B i] this nb(1), of 0 "- nb"] obtain v rs where
    w: "leftmost_walk (mem h) nb (mem h (treebin_at M (of_nat i)), 0, - nb) = Some (0, v, rs)"
      "\<forall>x \<in> set_tree (F i). rs \<le> chunksize (mem h) x - nb"
      "v = 0 \<and> rs = - nb \<or> v \<in> set_tree (F i) \<and> rs = chunksize (mem h) v - nb" by blast
  obtain x where x: "x \<in> set_tree (F i)" using F by (cases "F i") auto
  have "rs < - nb" using w(2) x nb remainder_below [of nb "chunksize (mem h) x"] by force
  then have v: "v \<in> set_tree (F i)" "rs = chunksize (mem h) v - nb" using w(3) by auto
  then have "best_fit (chunksize (mem h)) nb (set_tree (F i)) v"
    using w(2) nb(1) size_minus_le by (auto simp: best_fit_def)
  then show ?thesis using w(1) v(2) by auto
qed

lemma least_bit_index:
  fixes x :: uint
  assumes "x \<noteq> 0"
  obtains j where "j < 32" "bit x j" "\<forall>k < j. \<not> bit x k" "compute_bit2idx (least_bit x) = of_nat j"
proof -
  define j where "j = (LEAST k. bit x k)"
  have "\<exists>k. bit x k" using assms by (metis bit_word_eqI bit_0_eq bot_apply bot_bool_def)
  then have j: "bit x j" "\<forall>k < j. \<not> bit x k" unfolding j_def by (auto intro: LeastI_ex dest: not_less_Least)
  have "compute_bit2idx (least_bit x) = of_nat j"
    using bit2idx_least_bit [OF assms] unfolding j_def [symmetric] by (metis of_nat_unat ucast_id)
  then show ?thesis using that [of j] j bit_imp_le_length [OF j(1)] by simp
qed

lemma next_tree_least:
  assumes B: "tree_bins M F h" and i: "compute_tree_index nb = of_nat i" "i < 32"
  obtains "next_tree M nb h = 0" "\<And>j. i < j \<Longrightarrow> j < 32 \<Longrightarrow> F j = Leaf"
  | j where "i < j" "j < 32" "F j \<noteq> Leaf" "next_tree M nb h = mem h (treebin_at M (of_nat j))"
      "\<And>k. i < k \<Longrightarrow> k < j \<Longrightarrow> F k = Leaf"
proof -
  define left where "left = left_bits (idx2bit (of_nat i)) AND treemap (ms h)"
  have bits: "bit left j \<longleftrightarrow> i < j \<and> F j \<noteq> Leaf" if "j < 32" for j
    using left_bits_spec [OF i(2) that] tree_binsD(2) [OF B that] by (simp add: left_def)
  have nt: "next_tree M nb h = (if left \<noteq> 0 then mem h (treebin_at M (compute_bit2idx (least_bit left))) else 0)"
    by (simp add: next_tree_def i left_def)
  show ?thesis
  proof (cases "left = 0")
    case True
    then show ?thesis using bits nt by (intro that(1)) auto
  next
    case False
    then obtain j where "j < 32" "bit left j" "\<forall>k < j. \<not> bit left k" "compute_bit2idx (least_bit left) = of_nat j"
      by (rule least_bit_index)
    then show ?thesis using that(2) [of j] nt False bits by auto
  qed
qed


lemma own_tree_best_fit:
  assumes B: "tree_bins M F h" and nb: "256 \<le> nb" "nb < 2 ^ 40" "compute_tree_index nb = of_nat i" "i < 32"
  shows "\<exists>t0 v0 r0 v. own_tree_search M nb (mem h) = Some (t0, v0, r0)
    \<and> (if \<exists>x \<in> set_tree (F i). nb \<le> chunksize (mem h) x then
         (t0 \<noteq> 0 \<or> v0 \<noteq> 0) \<and> leftmost_walk (mem h) nb (t0, v0, r0) = Some (0, v, chunksize (mem h) v - nb)
         \<and> best_fit (chunksize (mem h)) nb (set_tree (F i)) v
       else t0 = 0 \<and> v0 = 0 \<and> r0 = - nb)"
proof (cases "F i = Leaf")
  case True
  then show ?thesis using tree_binsD(1) [OF B nb(4)] by (auto simp: own_tree_search_def nb(3))
next
  case False
  define n where "n = 64 - leftshift_for_tree_index (of_nat i)"
  have n: "n \<le> 64" "leftshift_for_tree_index (of_nat i) = 64 - n"
    by (auto simp: n_def leftshift_for_tree_index_def)
  have nz: "nb \<noteq> 0" using nb(1) by auto
  have t: "mem h (treebin_at M (of_nat i)) \<noteq> 0"
    using tree_binsD(1) [OF B nb(4)] False by (auto elim: contrapos_np)
  from tree_best_fit [OF tree_binsD(1) [OF B nb(4)] False tree_binsD(3) [OF B nb(4), folded n_def] n(1)
      tree_bins_prefixed [OF B nb, folded n_def] nz]
  show ?thesis using t by (fastforce simp: own_tree_search_def nb(3) Let_def n(2) split: if_splits)
qed

lemma tree_chunksE:
  assumes "x \<in> tree_chunks F" obtains j where "j < 32" "x \<in> set_tree (F j)"
  using assms by (auto simp: tree_chunks_def)

lemma bins_left:
  assumes "tree_bins M F h" "256 \<le> nb" "nb < 2 ^ 40" "compute_tree_index nb = of_nat i" "i < 32"
    and "j < i" "x \<in> set_tree (F j)"
  shows "chunksize (mem h) x < nb"
proof -
  have "j < 32" using assms by simp
  from tree_binsD(4-6) [OF assms(1) this assms(7)] show ?thesis using tree_bin_order assms by blast
qed

lemma bins_right:
  assumes "tree_bins M F h" "256 \<le> nb" "nb < 2 ^ 40" "compute_tree_index nb = of_nat i"
    and "i < j" "j < 32" "x \<in> set_tree (F j)"
  shows "nb \<le> chunksize (mem h) x"
  using tree_binsD(4-6) [OF assms(1,6,7)] tree_bin_order assms by (blast intro: less_imp_le)

lemma bins_best_fit:
  assumes B: "tree_bins M F h" and j: "j < 32" "best_fit (chunksize (mem h)) nb (set_tree (F j)) v"
    and small: "\<And>k x. k < j \<Longrightarrow> x \<in> set_tree (F k) \<Longrightarrow> chunksize (mem h) x < nb"
  shows "best_fit (chunksize (mem h)) nb (tree_chunks F) v \<and> v \<noteq> 0"
proof
  show "v \<noteq> 0" using tree_in_nonzero [OF tree_binsD(1) [OF B j(1)]] j(2) by (auto simp: best_fit_def)
  show "best_fit (chunksize (mem h)) nb (tree_chunks F) v"
  proof (rule best_fit_min [OF j(2)])
    show "set_tree (F j) \<subseteq> tree_chunks F" using j(1) by (auto simp: tree_chunks_def)
    fix x assume x: "x \<in> tree_chunks F" "x \<notin> set_tree (F j)" "nb \<le> chunksize (mem h) x"
    from x(1) obtain k where k: "k < 32" "x \<in> set_tree (F k)" by (rule tree_chunksE)
    have "v \<in> set_tree (F j)" using j(2) by (simp add: best_fit_def)
    then show "chunksize (mem h) v \<le> chunksize (mem h) x"
      using tree_bins_less [OF B, of j k v x] small [of k x] k x(2,3)
      by (cases k j rule: linorder_cases) (auto simp: not_less [symmetric])
  qed
qed

lemma trees_best_fit:
  assumes B: "tree_bins M F h" and nb: "256 \<le> nb" "nb < 2 ^ 40"
  shows "\<exists>t0 v0 r0 v rs. own_tree_search M nb (mem h) = Some (t0, v0, r0)
    \<and> leftmost_walk (mem h) nb (if t0 = 0 \<and> v0 = 0 then next_tree M nb h else t0, v0, r0) = Some (0, v, rs)
    \<and> (if \<exists>x \<in> tree_chunks F. nb \<le> chunksize (mem h) x then
         best_fit (chunksize (mem h)) nb (tree_chunks F) v \<and> v \<noteq> 0 \<and> rs = chunksize (mem h) v - nb
       else v = 0)"
proof -
  obtain i where i: "compute_tree_index nb = of_nat i" "i < 32" using nb by (rule tree_index_lower)
  have nz: "nb \<noteq> 0" using nb(1) by auto
  note left = bins_left [OF B nb i]
  obtain t0 v0 r0 v where own: "own_tree_search M nb (mem h) = Some (t0, v0, r0)"
    "if \<exists>x \<in> set_tree (F i). nb \<le> chunksize (mem h) x then
         (t0 \<noteq> 0 \<or> v0 \<noteq> 0) \<and> leftmost_walk (mem h) nb (t0, v0, r0) = Some (0, v, chunksize (mem h) v - nb)
         \<and> best_fit (chunksize (mem h)) nb (set_tree (F i)) v
       else t0 = 0 \<and> v0 = 0 \<and> r0 = - nb"
    using own_tree_best_fit [OF B nb i] by blast
  show ?thesis
  proof (cases "\<exists>x \<in> set_tree (F i). nb \<le> chunksize (mem h) x")
    case True
    then have "\<exists>x \<in> tree_chunks F. nb \<le> chunksize (mem h) x" using i(2) by (auto simp: tree_chunks_def)
    moreover have w: "leftmost_walk (mem h) nb (if t0 = 0 \<and> v0 = 0 then next_tree M nb h else t0, v0, r0)
        = Some (0, v, chunksize (mem h) v - nb)" "best_fit (chunksize (mem h)) nb (set_tree (F i)) v"
      using own(2) True by auto
    moreover have "best_fit (chunksize (mem h)) nb (tree_chunks F) v \<and> v \<noteq> 0"
      by (rule bins_best_fit [OF B i(2) w(2) left])
    ultimately show ?thesis using own(1) by auto
  next
    case False
    then have own0: "own_tree_search M nb (mem h) = Some (0, 0, - nb)" using own by simp
    show ?thesis
    proof (rule next_tree_least [OF B i])
      assume none: "next_tree M nb h = 0" "\<And>j. i < j \<Longrightarrow> j < 32 \<Longrightarrow> F j = Leaf"
      have "\<not> nb \<le> chunksize (mem h) x" if "j < 32" "x \<in> set_tree (F j)" for j x
        using none(2) [of j] left [of j x] False that by (cases j i rule: linorder_cases) (auto simp: not_le)
      then have "\<not> (\<exists>x \<in> tree_chunks F. nb \<le> chunksize (mem h) x)" by (auto elim: tree_chunksE)
      then show ?thesis using own0 none(1) by (simp add: leftmost_walk_unfold)
    next
      fix j assume j: "i < j" "j < 32" "F j \<noteq> Leaf" "next_tree M nb h = mem h (treebin_at M (of_nat j))"
        "\<And>k. i < k \<Longrightarrow> k < j \<Longrightarrow> F k = Leaf"
      then obtain v where v: "leftmost_walk (mem h) nb (mem h (treebin_at M (of_nat j)), 0, - nb) = Some (0, v, chunksize (mem h) v - nb)"
        "best_fit (chunksize (mem h)) nb (set_tree (F j)) v"
        using leftmost_best_fit [OF B j(2,3) _ nz] bins_right [OF B nb i(1) j(1,2)] by blast
      have "chunksize (mem h) x < nb" if "k < j" "x \<in> set_tree (F k)" for k x
        using that left [of k x] j(5) [of k] False by (cases k i rule: linorder_cases) (auto simp: not_le)
      from bins_best_fit [OF B j(2) v(2) this] have b: "best_fit (chunksize (mem h)) nb (tree_chunks F) v" "v \<noteq> 0" by auto
      then have "\<exists>x \<in> tree_chunks F. nb \<le> chunksize (mem h) x" by (auto simp: best_fit_def)
      then show ?thesis using own0 j(4) v b by simp
    qed
  qed
qed


text \<open>Taking the chunk \<open>v\<close> that a search has found out of its tree, behind the run-time checks.\<close>

definition take_tree_chunk ::
  "malloc_params \<Rightarrow> addr_t \<Rightarrow> addr_t \<Rightarrow> size_t \<Rightarrow> (addr_t \<Rightarrow> size_t \<Rightarrow> heap \<Rightarrow> heap res) \<Rightarrow> heap \<Rightarrow> (addr_t \<times> heap) res" where
  "take_tree_chunk mp M v nb keep h =
     abort_unless (ok_address (ms h) v \<and> ok_next v (chunk_plus_offset v nb))
       (res_bind (unlink_large_chunk M v h) (split_or_use mp M v nb (chunksize (mem h) v - nb) keep))"

definition tree_example :: heap where
  "tree_example = \<lparr>mem = (\<lambda>_. 0)(0x1268 := 0x2000,
       0x2008 := 0x243, 0x2010 := 0x2000, 0x2018 := 0x2000, 0x2020 := 0x3000, 0x2028 := 0x4000,
       0x3008 := 0x213, 0x3010 := 0x3000, 0x3018 := 0x3000,
       0x4008 := 0x293, 0x4010 := 0x4000, 0x4018 := 0x4000, 0x5008 := 0x2a3),
     ms = (ms bins_example)\<lparr>treemap := 4, dvsize := 0x2000\<rparr>\<rparr>"

definition example_trees :: "nat \<Rightarrow> addr_t tree" where
  "example_trees i = (if i = 2 then Node (Node Leaf 0x3000 Leaf) 0x2000 (Node Leaf 0x4000 Leaf) else Leaf)"

lemma tree_bins_list:
  "tree_bins M F h \<longleftrightarrow> list_all (\<lambda>i.
     tree_in (mem h) (mem h (treebin_at M (of_nat i))) (F i)
     \<and> (bit (treemap (ms h)) i \<longleftrightarrow> F i \<noteq> Leaf)
     \<and> trie (chunksize (mem h)) (64 - leftshift_for_tree_index (of_nat i)) (F i)
     \<and> (\<forall>x \<in> set_tree (F i). 256 \<le> chunksize (mem h) x \<and> chunksize (mem h) x < 2 ^ 40
          \<and> compute_tree_index (chunksize (mem h) x) = of_nat i)) [0..<32]"
  unfolding tree_bins_def list_all_iff by auto

lemma example_tree_bins: "tree_bins 0x1000 example_trees tree_example"
  unfolding tree_bins_list by code_simp

lemma example_chunks: "tree_chunks example_trees = {0x2000, 0x3000, 0x4000}"
  by (auto simp: tree_chunks_def example_trees_def split: if_splits)

lemma first_tree:
  assumes B: "tree_bins M F h" and "treemap (ms h) \<noteq> 0"
  obtains j where "j < 32" "F j \<noteq> Leaf" "compute_bit2idx (least_bit (treemap (ms h))) = of_nat j" "\<forall>k < j. F k = Leaf"
proof (rule least_bit_index [OF assms(2)])
  fix j assume "j < 32" "bit (treemap (ms h)) j" "\<forall>k < j. \<not> bit (treemap (ms h)) k"
    "compute_bit2idx (least_bit (treemap (ms h))) = of_nat j"
  then show ?thesis using that [of j] tree_binsD(2) [OF B] by auto
qed

section \<open>Properties\<close>

text \<open>
  C25: A large request takes the best fit of all the tree bins: the walk over the bits of the size in the
  tree of its own bin, the right subtrees remembered on the way and the next bin that is not empty
  lead, without ever looking at most chunks, to a chunk that is the smallest of all those that are
  large enough; the request is left to the designated victim exactly when there is no such chunk or
  the victim fits better.
\<close>
theorem tmalloc_large_best_fit:
  assumes "tree_bins M F h" and "256 \<le> nb" and "nb < 2 ^ 40"
  shows "if \<exists>x \<in> tree_chunks F. nb \<le> chunksize (mem h) x
    then \<exists>v. best_fit (chunksize (mem h)) nb (tree_chunks F) v
      \<and> tmalloc_large mp M nb h =
          (if chunksize (mem h) v - nb < dvsize (ms h) - nb then take_tree_chunk mp M v nb (insert_chunk M) h else Inr (0, h))
    else tmalloc_large mp M nb h = Inr (0, h)"
proof -
  obtain t0 v0 r0 v rs where w: "own_tree_search M nb (mem h) = Some (t0, v0, r0)"
    "leftmost_walk (mem h) nb (if t0 = 0 \<and> v0 = 0 then next_tree M nb h else t0, v0, r0) = Some (0, v, rs)"
    "if \<exists>x \<in> tree_chunks F. nb \<le> chunksize (mem h) x then
       best_fit (chunksize (mem h)) nb (tree_chunks F) v \<and> v \<noteq> 0 \<and> rs = chunksize (mem h) v - nb else v = 0"
    using trees_best_fit [OF assms] by blast
  then have t: "tmalloc_large mp M nb h =
    (if v \<noteq> 0 \<and> rs < dvsize (ms h) - nb then
       abort_unless (ok_address (ms h) v) (abort_unless (chunksize (mem h) v = rs + nb)
         (abort_unless (ok_next v (chunk_plus_offset v nb))
            (res_bind (unlink_large_chunk M v h) (split_or_use mp M v nb rs (insert_chunk M)))))
     else Inr (0, h))"
    by (simp add: tmalloc_large_def Let_def)
  show ?thesis
  proof (cases "\<exists>x \<in> tree_chunks F. nb \<le> chunksize (mem h) x")
    case True
    then have "best_fit (chunksize (mem h)) nb (tree_chunks F) v" "v \<noteq> 0" "rs = chunksize (mem h) v - nb"
      using w(3) by auto
    then show ?thesis using True unfolding t take_tree_chunk_def by (auto simp: abort_unless_def)
  next
    case False
    then show ?thesis using w(3) unfolding t by simp
  qed
qed

theorem tmalloc_large_best_fit_witness:
  "best_fit (chunksize (mem tree_example)) 0x250 (tree_chunks example_trees) 0x4000
    \<and> tmalloc_large example_params 0x1000 0x250 tree_example
        = take_tree_chunk example_params 0x1000 0x4000 0x250 (insert_chunk 0x1000) tree_example"
proof -
  have ex: "chunksize (mem tree_example) 0x4000 = 0x290" "\<not> 0x250 \<le> chunksize (mem tree_example) 0x3000"
    "\<not> 0x250 \<le> chunksize (mem tree_example) 0x2000" "0x290 - 0x250 < dvsize (ms tree_example) - 0x250"
    by code_simp+
  have chunks: "tree_chunks example_trees = {0x2000, 0x3000, 0x4000}" by (rule example_chunks)
  have "\<exists>x \<in> tree_chunks example_trees. 0x250 \<le> chunksize (mem tree_example) x" using ex by (auto simp: chunks)
  with tmalloc_large_best_fit [OF example_tree_bins, of "0x250" example_params] obtain v where
    v: "best_fit (chunksize (mem tree_example)) 0x250 (tree_chunks example_trees) v"
      "tmalloc_large example_params 0x1000 0x250 tree_example =
        (if chunksize (mem tree_example) v - 0x250 < dvsize (ms tree_example) - 0x250
         then take_tree_chunk example_params 0x1000 v 0x250 (insert_chunk 0x1000) tree_example else Inr (0, tree_example))"
    by auto
  then have "v = 0x4000" using ex unfolding chunks best_fit_def by auto
  then show ?thesis using v ex by simp
qed

text \<open>
  C26: A small request that no small bin can serve takes the smallest chunk of all the trees, which is
  found on the leftmost path of the first tree that is not empty.
\<close>
theorem tmalloc_small_smallest:
  assumes "tree_bins M F h" and "treemap (ms h) \<noteq> 0" and "0 < nb" and "nb \<le> 256"
  shows "\<exists>v \<in> tree_chunks F. (\<forall>x \<in> tree_chunks F. chunksize (mem h) v \<le> chunksize (mem h) x)
    \<and> tmalloc_small mp M nb h = take_tree_chunk mp M v nb (replace_dv M) h"
proof -
  obtain j where j: "j < 32" "F j \<noteq> Leaf" "compute_bit2idx (least_bit (treemap (ms h))) = of_nat j" "\<forall>k < j. F k = Leaf"
    by (rule first_tree [OF assms(1,2)])
  have fit: "\<forall>x \<in> set_tree (F j). nb \<le> chunksize (mem h) x"
    using tree_binsD(4) [OF assms(1) j(1)] assms(4) by (blast intro: order_trans)
  have nz: "nb \<noteq> 0" using assms(3) by auto
  obtain v where v: "leftmost_walk (mem h) nb (mem h (treebin_at M (of_nat j)), 0, - nb) = Some (0, v, chunksize (mem h) v - nb)"
    "best_fit (chunksize (mem h)) nb (set_tree (F j)) v"
    using leftmost_best_fit [OF assms(1) j(1,2) fit nz] by blast
  have root: "mem h (treebin_at M (of_nat j)) \<noteq> 0" "mem h (treebin_at M (of_nat j)) \<in> set_tree (F j)"
    using tree_binsD(1) [OF assms(1) j(1)] j(2) by (cases "F j"; auto)+
  have "tmalloc_small mp M nb h = take_tree_chunk mp M v nb (replace_dv M) h"
    using v(1) root fit remainder_below [OF _ nz]
    by (simp add: tmalloc_small_def Let_def j(3) leftmost_walk_unfold [of _ _ "mem h (treebin_at M (of_nat j))"] take_tree_chunk_def abort_unless_def)
  moreover have "best_fit (chunksize (mem h)) nb (tree_chunks F) v"
    using bins_best_fit [OF assms(1) j(1) v(2)] j(4) by simp
  moreover have "nb \<le> chunksize (mem h) x" if "x \<in> tree_chunks F" for x
    using that tree_binsD(4) [OF assms(1)] assms(4) by (blast elim: tree_chunksE intro: order_trans)
  ultimately show ?thesis by (auto simp: best_fit_def)
qed

theorem tmalloc_small_smallest_witness:
  "tmalloc_small example_params 0x1000 48 tree_example
     = take_tree_chunk example_params 0x1000 0x3000 48 (replace_dv 0x1000) tree_example"
proof -
  have ex: "chunksize (mem tree_example) 0x4000 = 0x290" "chunksize (mem tree_example) 0x3000 = 0x210"
    "chunksize (mem tree_example) 0x2000 = 0x240" "treemap (ms tree_example) \<noteq> 0" by code_simp+
  have "(0 :: size_t) < 48" "(48 :: size_t) \<le> 256" by simp_all
  from tmalloc_small_smallest [OF example_tree_bins ex(4) this, of example_params]
  show ?thesis using ex by (auto simp: example_chunks)
qed

end
