(* ===== verification/Dl_Tree_Insert.thy ===== *)
theory Dl_Tree_Insert
  imports Dl_Trees
begin

text \<open>
  Linking a large chunk into its tree bin (\<^verbatim>\<open>insert_large_chunk\<close> of \<^verbatim>\<open>external/malloc.c\<close>) as insertion into
  the trie of that bin: the invariant of the tree bins that the searches rely on is kept.
\<close>

section \<open>Insertion into a trie\<close>

fun trie_insert :: "(addr_t \<Rightarrow> size_t) \<Rightarrow> nat \<Rightarrow> addr_t \<Rightarrow> addr_t tree \<Rightarrow> addr_t tree" where
  "trie_insert sz n x Leaf = Node Leaf x Leaf"
| "trie_insert sz 0 x (Node l a r) = Node l a r"
| "trie_insert sz (Suc k) x (Node l a r) =
     (if sz a = sz x then Node l a r
      else if bit (sz x) k then Node l a (trie_insert sz k x r)
      else Node (trie_insert sz k x l) a r)"


lemma set_trie_insert_mono: "set_tree T \<subseteq> set_tree (trie_insert sz n x T)"
  by (induction sz n x T rule: trie_insert.induct) auto

lemma trie_insert_not_Leaf [simp]: "trie_insert sz n x T \<noteq> Leaf"
  by (cases T; cases n) auto

lemma trie_insert_holds:
  assumes "trie sz n T" "prefixed sz n (drop_bit n (sz x)) T"
  shows "\<exists>y \<in> set_tree (trie_insert sz n x T). sz y = sz x"
  using assms
proof (induction sz n x T rule: trie_insert.induct)
  case (3 sz k x l a r)
  note pre = prefixed_children [OF "3.prems"]
  show ?case using 3 pre drop_bit_step [of k "sz x"] by (auto split: if_splits)
qed (auto simp: prefixed_def)









section \<open>The walk to the place of a new chunk\<close>







text \<open>One step: inserting below the child that the next bit chooses.\<close>

lemma hang_left:
  assumes "trie_insert sz (Suc k) x (Node l a r) = Node (trie_insert sz k x l) a r" "a \<noteq> 0"
    and "tree_in m' (child m' a 0) (trie_insert sz k x l)" "tree_in m' (child m' a 1) r"
  shows "tree_in m' a (trie_insert sz (Suc k) x (Node l a r))"
  using assms by simp




section \<open>The words that insertion touches\<close>










section \<open>Insertion keeps the tree bins\<close>


















section \<open>Properties\<close>






end
