(* ===== verification/Dl_System.thy ===== *)
theory Dl_System
  imports Dl_Malloc
begin

text \<open>
  \<^verbatim>\<open>external/malloc.c\<close>, fourth part: obtaining memory from the system and giving it back.

  The system is an argument, \<open>os\<close>: its answers to the calls that one allocation or one release makes.
  The answers to \<^verbatim>\<open>sbrk\<close> are numbered, because the same call can be made twice with different results.
  The definitions follow the configuration of the Makefile (\<^verbatim>\<open>HAVE_MMAP\<close>, \<^verbatim>\<open>HAVE_MREMAP\<close>, \<^verbatim>\<open>HAVE_MORECORE\<close> and
  \<^verbatim>\<open>MORECORE_CONTIGUOUS\<close> set, \<^verbatim>\<open>NO_SEGMENT_TRAVERSAL\<close> not), for an mspace other than the global one.
\<close>

section \<open>The system\<close>

record os_answers =
  direct_mmap :: "size_t \<Rightarrow> addr_t"
  call_mmap :: "size_t \<Rightarrow> addr_t"
  call_morecore :: "nat \<Rightarrow> size_t \<Rightarrow> addr_t"
  call_munmap :: "addr_t \<Rightarrow> size_t \<Rightarrow> bool"
  call_mremap :: "addr_t \<Rightarrow> size_t \<Rightarrow> size_t \<Rightarrow> bool \<Rightarrow> addr_t"

definition page_align :: "malloc_params \<Rightarrow> size_t \<Rightarrow> size_t" where
  "page_align mp s = (s + (page_size mp - 1)) AND NOT (page_size mp - 1)"

definition is_page_aligned :: "malloc_params \<Rightarrow> size_t \<Rightarrow> bool" where
  "is_page_aligned mp s \<longleftrightarrow> s AND (page_size mp - 1) = 0"

definition SYS_ALLOC_PADDING :: size_t where "SYS_ALLOC_PADDING = TOP_FOOT_SIZE + MALLOC_ALIGNMENT"
definition HALF_MAX_SIZE_T :: size_t where "HALF_MAX_SIZE_T = MAX_SIZE_T div 2"

definition use_mmap :: "malloc_state \<Rightarrow> bool" where
  "use_mmap s \<longleftrightarrow> mflags s AND USE_MMAP_BIT \<noteq> 0"

definition use_noncontiguous :: "malloc_state \<Rightarrow> bool" where
  "use_noncontiguous s \<longleftrightarrow> mflags s AND USE_NONCONTIGUOUS_BIT \<noteq> 0"

definition disable_contiguous :: "malloc_state \<Rightarrow> malloc_state" where
  "disable_contiguous s = s\<lparr>mflags := mflags s OR USE_NONCONTIGUOUS_BIT\<rparr>"

definition grow_footprint :: "size_t \<Rightarrow> malloc_state \<Rightarrow> malloc_state" where
  "grow_footprint n s =
     (let fp = footprint s + n in
      s\<lparr>footprint := fp, max_footprint := (if fp > max_footprint s then fp else max_footprint s)\<rparr>)"

text \<open>A new footprint has to be larger than the old one, which fails when it wraps, and below a limit that is set.\<close>

definition footprint_allows :: "size_t \<Rightarrow> malloc_state \<Rightarrow> bool" where
  "footprint_allows n s \<longleftrightarrow>
     footprint_limit s = 0 \<or> (let fp = footprint s + n in \<not> (fp \<le> footprint s \<or> fp > footprint_limit s))"

section \<open>Segments\<close>

text \<open>
  The first record of the list is the field \<open>seg\<close>, 888 bytes into the structure; the others are in memory.
\<close>

definition seg_ptr :: "addr_t \<Rightarrow> addr_t" where "seg_ptr M = M + 888"

definition segment_at :: "addr_t \<Rightarrow> heap \<Rightarrow> addr_t \<Rightarrow> msegment" where
  "segment_at M h sp = (if sp = seg_ptr M then seg (ms h) else seg_at (mem h) sp)"

definition store_segment :: "addr_t \<Rightarrow> msegment \<Rightarrow> words \<Rightarrow> words" where
  "store_segment a sg m =
     m(a := seg_base sg, a + 8 := seg_size sg, a + 16 := seg_next sg, a + 24 := ucast (seg_sflags sg))"

definition set_segment :: "addr_t \<Rightarrow> addr_t \<Rightarrow> msegment \<Rightarrow> heap \<Rightarrow> heap" where
  "set_segment M sp sg h =
     (if sp = seg_ptr M then upd_ms (seg_update (\<lambda>_. sg)) h else upd_mem (store_segment sp sg) h)"

definition is_mmapped_segment :: "msegment \<Rightarrow> bool" where
  "is_mmapped_segment sg \<longleftrightarrow> seg_sflags sg AND USE_MMAP_BIT \<noteq> 0"

definition is_extern_segment :: "msegment \<Rightarrow> bool" where
  "is_extern_segment sg \<longleftrightarrow> seg_sflags sg AND EXTERN_BIT \<noteq> 0"

definition segment_holds :: "msegment \<Rightarrow> addr_t \<Rightarrow> bool" where
  "segment_holds sg a \<longleftrightarrow> seg_base sg \<le> a \<and> a < seg_base sg + seg_size sg"

text \<open>The first segment from \<open>sp\<close> on for which \<open>P\<close> holds, given its address and record, or 0.\<close>

definition find_segment :: "(addr_t \<Rightarrow> msegment \<Rightarrow> bool) \<Rightarrow> addr_t \<Rightarrow> heap \<Rightarrow> addr_t res" where
  "find_segment P M h =
     (case while_option (\<lambda>sp. sp \<noteq> 0 \<and> \<not> P sp (segment_at M h sp)) (\<lambda>sp. seg_next (segment_at M h sp)) (seg_ptr M) of
        None \<Rightarrow> Inl Diverges
      | Some sp \<Rightarrow> Inr sp)"

definition segment_holding :: "addr_t \<Rightarrow> heap \<Rightarrow> addr_t \<Rightarrow> addr_t res" where
  "segment_holding M h a = find_segment (\<lambda>_ sg. segment_holds sg a) M h"

definition has_segment_link :: "addr_t \<Rightarrow> heap \<Rightarrow> msegment \<Rightarrow> bool res" where
  "has_segment_link M h ss =
     res_bind (find_segment (\<lambda>sp _. segment_holds ss sp) M h) (\<lambda>sp. Inr (sp \<noteq> 0))"

section \<open>Chunks that are mapped directly\<close>

definition mmap_alloc :: "malloc_params \<Rightarrow> os_answers \<Rightarrow> addr_t \<Rightarrow> size_t \<Rightarrow> heap \<Rightarrow> (addr_t \<times> heap) res" where
  "mmap_alloc mp os M nb h =
     (let mmsize = page_align mp (nb + SIX_SIZE_T_SIZES + CHUNK_ALIGN_MASK) in
      if \<not> footprint_allows mmsize (ms h) then Inr (0, h)
      else if mmsize > nb then
        let mm = direct_mmap os mmsize in
        if mm \<noteq> MFAIL then
          let offset = align_offset (chunk2mem mm);
              psize = mmsize - offset - MMAP_FOOT_PAD;
              p = mm + offset;
              h1 = upd_mem (\<lambda>m.
                set_head (chunk_plus_offset p (psize + SIZE_T_SIZE)) 0
                  (set_head (chunk_plus_offset p psize) FENCEPOST_HEAD
                    (mark_inuse_foot mp M p psize (set_head p psize (set_prev_foot p offset m))))) h;
              h2 = upd_ms (\<lambda>s. grow_footprint mmsize
                (if least_addr s = 0 \<or> mm < least_addr s then s\<lparr>least_addr := mm\<rparr> else s)) h1
          in abort_unless (is_aligned (chunk2mem p)) (Inr (chunk2mem p, h2))
        else Inr (0, h)
      else Inr (0, h))"

section \<open>Using a new region\<close>

definition prepend_alloc ::
  "malloc_params \<Rightarrow> addr_t \<Rightarrow> addr_t \<Rightarrow> addr_t \<Rightarrow> size_t \<Rightarrow> heap \<Rightarrow> (addr_t \<times> heap) res" where
  "prepend_alloc mp M newbase oldbase nb h =
     (let p = align_as_chunk newbase;
          oldfirst = align_as_chunk oldbase;
          q = chunk_plus_offset p nb;
          qsize = (oldfirst - p) - nb;
          h1 = upd_mem (set_size_and_pinuse_of_inuse_chunk mp M p nb) h
      in
      abort_unless (oldfirst > q \<and> pinuse (mem h1) oldfirst \<and> qsize \<ge> MIN_CHUNK_SIZE)
        (res_bind
          (if oldfirst = top_chunk (ms h1) then
             let tsize = topsize (ms h1) + qsize in
             Inr (upd_mem (set_head q (tsize OR PINUSE_BIT)) (upd_ms (\<lambda>s. s\<lparr>topsize := tsize, top_chunk := q\<rparr>) h1))
           else if oldfirst = dv (ms h1) then
             let dsize = dvsize (ms h1) + qsize in
             Inr (upd_mem (set_size_and_pinuse_of_free_chunk q dsize) (upd_ms (\<lambda>s. s\<lparr>dvsize := dsize, dv := q\<rparr>) h1))
           else if \<not> is_inuse (mem h1) oldfirst then
             let nsize = chunksize (mem h1) oldfirst in
             res_bind (unlink_chunk M oldfirst nsize h1) (\<lambda>h2.
               insert_chunk M q (qsize + nsize)
                 (upd_mem (set_free_with_pinuse q (qsize + nsize) (chunk_plus_offset oldfirst nsize)) h2))
           else insert_chunk M q qsize (upd_mem (set_free_with_pinuse q qsize oldfirst) h1))
          (\<lambda>h2. Inr (chunk2mem p, h2))))"

text \<open>
  The fenceposts behind the record of a segment: the loop writes one and goes on while the head of the next
  one lies below the end of the segment.  It keeps the number of fenceposts.
\<close>

definition fence_loop :: "addr_t \<Rightarrow> addr_t \<Rightarrow> words \<Rightarrow> (nat \<times> words) option" where
  "fence_loop old_end p0 m0 =
     map_option (\<lambda>(_, _, n, m). (n, m))
       (while_option (\<lambda>(more, p, n, m). more)
         (\<lambda>(more, p, n, m).
            let nextp = chunk_plus_offset p SIZE_T_SIZE; m1 = set_head p FENCEPOST_HEAD m in
            if nextp + 8 < old_end then (True, nextp, Suc n, m1) else (False, p, Suc n, m1))
         (True, p0, 0, m0))"

text \<open>
  Where the record of the old first segment goes: near its end, or at the old top if that leaves no room for
  a chunk before it.
\<close>

definition record_chunk :: "addr_t \<Rightarrow> addr_t \<Rightarrow> addr_t" where
  "record_chunk old_top old_end =
     (let rawsp = old_end - (pad_request 32 + FOUR_SIZE_T_SIZES + CHUNK_ALIGN_MASK);
          asp = rawsp + align_offset (chunk2mem rawsp)
      in if asp < old_top + MIN_CHUNK_SIZE then old_top else asp)"

text \<open>Writing the record and the fenceposts, and binning the rest of the old top.\<close>

definition link_segment ::
  "malloc_params \<Rightarrow> addr_t \<Rightarrow> msegment \<Rightarrow> addr_t \<Rightarrow> addr_t \<Rightarrow> addr_t \<Rightarrow> heap \<Rightarrow> heap res" where
  "link_segment mp M new old_top old_end csp h =
     (let ssize = pad_request 32;
          ss = chunk2mem csp;
          h1 = upd_mem (\<lambda>m. store_segment ss (seg (ms h)) (set_size_and_pinuse_of_inuse_chunk mp M csp ssize m)) h;
          h2 = upd_ms (\<lambda>s. s\<lparr>seg := new\<lparr>seg_next := ss\<rparr>\<rparr>) h1
      in
      case fence_loop old_end (chunk_plus_offset csp ssize) (mem h2) of
        None \<Rightarrow> Inl Diverges
      | Some (nfences, m3) \<Rightarrow>
          let h3 = h2\<lparr>mem := m3\<rparr> in
          abort_unless (nfences \<ge> 2)
            (if csp \<noteq> old_top then
               let psize = csp - old_top in
               insert_chunk M old_top psize
                 (upd_mem (set_free_with_pinuse old_top psize (chunk_plus_offset old_top psize)) h3)
             else Inr h3))"

definition add_segment ::
  "malloc_params \<Rightarrow> addr_t \<Rightarrow> addr_t \<Rightarrow> size_t \<Rightarrow> uint \<Rightarrow> heap \<Rightarrow> heap res" where
  "add_segment mp M tbase tsize mmapped h =
     (let old_top = top_chunk (ms h) in
      res_bind (segment_holding M h old_top) (\<lambda>oldsp.
      if oldsp = 0 then Inl BadAccess
      else
        let oldseg = segment_at M h oldsp;
            old_end = seg_base oldseg + seg_size oldseg;
            csp = record_chunk old_top old_end;
            new = \<lparr>seg_base = tbase, seg_size = tsize, seg_next = 0, seg_sflags = mmapped\<rparr>;
            h1 = init_top mp tbase (tsize - TOP_FOOT_SIZE) h
        in abort_unless (is_aligned (chunk2mem csp)) (link_segment mp M new old_top old_end csp h1)))"

section \<open>System allocation\<close>

text \<open>
  The first way, a call to \<^verbatim>\<open>sbrk\<close> that continues the segment of the top.  The result of the two attempts is the
  region, what \<^verbatim>\<open>sbrk\<close> last returned, the size asked for, and how many calls were made.
\<close>

definition morecore_first ::
  "malloc_params \<Rightarrow> os_answers \<Rightarrow> size_t \<Rightarrow> size_t \<Rightarrow> malloc_state \<Rightarrow> (addr_t \<times> size_t) \<times> addr_t \<times> size_t \<times> nat" where
  "morecore_first mp os nb asize s =
     (let start = call_morecore os 0 0 in
      if start \<noteq> MFAIL then
        let ssize = (if \<not> is_page_aligned mp start then asize + (page_align mp start - start) else asize);
            fp = footprint s + ssize
        in
        if ssize > nb \<and> ssize < HALF_MAX_SIZE_T
          \<and> (footprint_limit s = 0 \<or> (fp > footprint s \<and> fp \<le> footprint_limit s)) then
          let br = call_morecore os 1 ssize in
          (if br = start then (start, ssize) else (MFAIL, 0), br, ssize, 2)
        else ((MFAIL, 0), MFAIL, ssize, 1)
      else ((MFAIL, 0), MFAIL, asize, 1))"

definition morecore_extend ::
  "malloc_params \<Rightarrow> os_answers \<Rightarrow> size_t \<Rightarrow> msegment \<Rightarrow> malloc_state \<Rightarrow> (addr_t \<times> size_t) \<times> addr_t \<times> size_t \<times> nat" where
  "morecore_extend mp os nb ss s =
     (let ssize = granularity_align mp (nb - topsize s + SYS_ALLOC_PADDING) in
      if ssize < HALF_MAX_SIZE_T then
        let br = call_morecore os 0 ssize in
        (if br = seg_base ss + seg_size ss then (br, ssize) else (MFAIL, 0), br, ssize, 1)
      else ((MFAIL, 0), MFAIL, ssize, 0))"

text \<open>Space that does not continue the segment is used if it can be made large enough.\<close>

definition morecore_rescue ::
  "malloc_params \<Rightarrow> os_answers \<Rightarrow> size_t \<Rightarrow> addr_t \<Rightarrow> size_t \<Rightarrow> nat \<Rightarrow> addr_t \<times> size_t \<times> nat" where
  "morecore_rescue mp os nb br ssize k =
     (if br \<noteq> MFAIL \<and> ssize < HALF_MAX_SIZE_T \<and> ssize < nb + SYS_ALLOC_PADDING then
        let esize = granularity_align mp (nb + SYS_ALLOC_PADDING - ssize) in
        if esize < HALF_MAX_SIZE_T then
          if call_morecore os k esize \<noteq> MFAIL then (br, ssize + esize, k + 1) else (MFAIL, ssize, k + 2)
        else (br, ssize, k)
      else (br, ssize, k))"

definition contiguous_region ::
  "malloc_params \<Rightarrow> os_answers \<Rightarrow> addr_t \<Rightarrow> size_t \<Rightarrow> size_t \<Rightarrow> heap \<Rightarrow> ((addr_t \<times> size_t) \<times> nat \<times> heap) res" where
  "contiguous_region mp os M nb asize h =
     (if use_noncontiguous (ms h) then Inr ((MFAIL, 0), 0, h)
      else
        res_bind (if top_chunk (ms h) = 0 then Inr 0 else segment_holding M h (top_chunk (ms h))) (\<lambda>ss.
          let ((tbase, tsize), br, ssize, k) =
                (if ss = 0 then morecore_first mp os nb asize (ms h)
                 else morecore_extend mp os nb (segment_at M h ss) (ms h))
          in
          if tbase \<noteq> MFAIL then Inr ((tbase, tsize), k, h)
          else
            let (br', ssize', k') = morecore_rescue mp os nb br ssize k in
            if br' \<noteq> MFAIL then Inr ((br', ssize'), k', h)
            else Inr ((MFAIL, 0), k', upd_ms disable_contiguous h)))"

text \<open>The second and the third way: a new mapping, and any space that \<^verbatim>\<open>sbrk\<close> gives.\<close>

definition noncontiguous_region ::
  "os_answers \<Rightarrow> size_t \<Rightarrow> size_t \<Rightarrow> nat \<Rightarrow> addr_t \<times> size_t" where
  "noncontiguous_region os nb asize k =
     (if asize < HALF_MAX_SIZE_T then
        let br = call_morecore os k asize; end_br = call_morecore os (k + 1) 0 in
        if br \<noteq> MFAIL \<and> end_br \<noteq> MFAIL \<and> br < end_br \<and> end_br - br > nb + TOP_FOOT_SIZE then (br, end_br - br)
        else (MFAIL, 0)
      else (MFAIL, 0))"

definition obtain_region ::
  "malloc_params \<Rightarrow> os_answers \<Rightarrow> addr_t \<Rightarrow> size_t \<Rightarrow> size_t \<Rightarrow> heap \<Rightarrow> ((addr_t \<times> size_t) \<times> uint \<times> heap) res" where
  "obtain_region mp os M nb asize h =
     res_bind (contiguous_region mp os M nb asize h) (\<lambda>(region, k, h1).
       if fst region \<noteq> MFAIL then Inr (region, 0, h1)
       else if call_mmap os asize \<noteq> MFAIL then Inr ((call_mmap os asize, asize), USE_MMAP_BIT, h1)
       else Inr (noncontiguous_region os nb asize k, 0, h1))"

text \<open>Putting the new region to use: the first one, one behind or before a segment, or one of its own.\<close>

definition is_global :: "malloc_params \<Rightarrow> addr_t \<Rightarrow> bool" where
  "is_global mp M \<longleftrightarrow> M = gm_addr mp"

definition first_region :: "malloc_params \<Rightarrow> addr_t \<Rightarrow> addr_t \<Rightarrow> size_t \<Rightarrow> uint \<Rightarrow> heap \<Rightarrow> heap" where
  "first_region mp M tbase tsize flag h =
     (let h1 = upd_ms (\<lambda>s. s\<lparr>least_addr := (if least_addr s = 0 \<or> tbase < least_addr s then tbase else least_addr s),
            seg := (seg s)\<lparr>seg_base := tbase, seg_size := tsize, seg_sflags := flag\<rparr>,
            ms_magic := mp_magic mp, release_checks := MAX_RELEASE_CHECK_RATE\<rparr>) h;
          h2 = upd_mem (init_bins M) h1;
          mn = next_chunk (mem h2) (mem2chunk M)
      in
      if is_global mp M then init_top mp tbase (tsize - TOP_FOOT_SIZE) h2
      else init_top mp mn ((tbase + tsize) - mn - TOP_FOOT_SIZE) h2)"

definition mergeable :: "uint \<Rightarrow> msegment \<Rightarrow> bool" where
  "mergeable flag sg \<longleftrightarrow> \<not> is_extern_segment sg \<and> seg_sflags sg AND USE_MMAP_BIT = flag"

definition join_region ::
  "malloc_params \<Rightarrow> addr_t \<Rightarrow> size_t \<Rightarrow> addr_t \<Rightarrow> size_t \<Rightarrow> uint \<Rightarrow> heap \<Rightarrow> (addr_t option \<times> heap) res" where
  "join_region mp M nb tbase tsize flag h =
     res_bind (find_segment (\<lambda>_ sg. tbase = seg_base sg + seg_size sg) M h) (\<lambda>sp.
       let sg = segment_at M h sp in
       if sp \<noteq> 0 \<and> mergeable flag sg \<and> segment_holds sg (top_chunk (ms h)) then
         let h1 = set_segment M sp (sg\<lparr>seg_size := seg_size sg + tsize\<rparr>) h in
         Inr (None, init_top mp (top_chunk (ms h1)) (topsize (ms h1) + tsize) h1)
       else
         let h1 = upd_ms (\<lambda>s. if tbase < least_addr s then s\<lparr>least_addr := tbase\<rparr> else s) h in
         res_bind (find_segment (\<lambda>_ sg. seg_base sg = tbase + tsize) M h1) (\<lambda>sp.
           let sg = segment_at M h1 sp in
           if sp \<noteq> 0 \<and> mergeable flag sg then
             res_bind
               (prepend_alloc mp M tbase (seg_base sg) nb
                 (set_segment M sp (sg\<lparr>seg_base := tbase, seg_size := seg_size sg + tsize\<rparr>) h1))
               (\<lambda>(a, h2). Inr (Some a, h2))
           else res_bind (add_segment mp M tbase tsize flag h1) (\<lambda>h2. Inr (None, h2))))"

definition use_region ::
  "malloc_params \<Rightarrow> addr_t \<Rightarrow> size_t \<Rightarrow> addr_t \<Rightarrow> size_t \<Rightarrow> uint \<Rightarrow> heap \<Rightarrow> (addr_t \<times> heap) res" where
  "use_region mp M nb tbase tsize flag h =
     (let h1 = upd_ms (grow_footprint tsize) h in
      res_bind
        (if top_chunk (ms h1) = 0 then Inr (None, first_region mp M tbase tsize flag h1)
         else join_region mp M nb tbase tsize flag h1)
        (\<lambda>(done, h2).
          case done of
            Some a \<Rightarrow> Inr (a, h2)
          | None \<Rightarrow> Inr (if nb < topsize (ms h2) then split_top mp M nb h2 else (0, h2))))"

text \<open>
  \<^verbatim>\<open>sys_alloc\<close> after its first statement, the call of \<^verbatim>\<open>BOP_abort_spec\<close>.
\<close>

definition sys_alloc :: "malloc_params \<Rightarrow> os_answers \<Rightarrow> addr_t \<Rightarrow> size_t \<Rightarrow> heap \<Rightarrow> (addr_t \<times> heap) res" where
  "sys_alloc mp os M nb h =
     res_bind
       (if use_mmap (ms h) \<and> nb \<ge> mmap_threshold mp \<and> topsize (ms h) \<noteq> 0 then mmap_alloc mp os M nb h else Inr (0, h))
       (\<lambda>(a, h1).
         if a \<noteq> 0 then Inr (a, h1)
         else
           let asize = granularity_align mp (nb + SYS_ALLOC_PADDING) in
           if asize \<le> nb then Inr (0, h1)
           else if \<not> footprint_allows asize (ms h1) then Inr (0, h1)
           else
             res_bind (obtain_region mp os M nb asize h1) (\<lambda>((tbase, tsize), flag, h2).
               if tbase \<noteq> MFAIL then use_region mp M nb tbase tsize flag h2 else Inr (0, h2)))"

section \<open>System deallocation\<close>

text \<open>A loop whose body can abort; no value when it does not end.\<close>

definition res_while :: "('s \<Rightarrow> bool) \<Rightarrow> ('s \<Rightarrow> 's res) \<Rightarrow> 's \<Rightarrow> 's res" where
  "res_while b c s =
     (case while_option (\<lambda>r. case r of Inl _ \<Rightarrow> False | Inr s \<Rightarrow> b s) (\<lambda>r. res_bind r c) (Inr s) of
        None \<Rightarrow> Inl Diverges
      | Some r \<Rightarrow> r)"

record release_state =
  rl_pred :: addr_t
  rl_sp :: addr_t
  rl_released :: size_t
  rl_nsegs :: nat
  rl_heap :: heap

definition release_segment ::
  "os_answers \<Rightarrow> addr_t \<Rightarrow> addr_t \<Rightarrow> addr_t \<Rightarrow> heap \<Rightarrow> (addr_t \<times> size_t \<times> heap) res" where
  "release_segment os M pred sp h =
     (let sg = segment_at M h sp;
          p = align_as_chunk (seg_base sg);
          psize = chunksize (mem h) p
      in
      if is_mmapped_segment sg \<and> \<not> is_extern_segment sg \<and> \<not> is_inuse (mem h) p
        \<and> p + psize \<ge> seg_base sg + seg_size sg - TOP_FOOT_SIZE then
        abort_unless (segment_holds sg sp)
          (res_bind
            (if p = dv (ms h) then Inr (upd_ms (\<lambda>s. s\<lparr>dv := 0, dvsize := 0\<rparr>) h) else unlink_large_chunk M p h)
            (\<lambda>h1.
              if call_munmap os (seg_base sg) (seg_size sg) then
                Inr (pred, seg_size sg,
                     set_segment M pred ((segment_at M h1 pred)\<lparr>seg_next := seg_next sg\<rparr>)
                       (upd_ms (\<lambda>s. s\<lparr>footprint := footprint s - seg_size sg\<rparr>) h1))
              else res_bind (insert_large_chunk M p psize h1) (\<lambda>h2. Inr (sp, 0, h2))))
      else Inr (sp, 0, h))"

definition release_unused_segments :: "os_answers \<Rightarrow> addr_t \<Rightarrow> heap \<Rightarrow> (size_t \<times> heap) res" where
  "release_unused_segments os M h =
     res_bind
       (res_while (\<lambda>r. rl_sp r \<noteq> 0)
         (\<lambda>r. let nxt = seg_next (segment_at M (rl_heap r) (rl_sp r)) in
            res_bind (release_segment os M (rl_pred r) (rl_sp r) (rl_heap r)) (\<lambda>(pred, n, h1).
              Inr \<lparr>rl_pred = pred, rl_sp = nxt, rl_released = rl_released r + n, rl_nsegs = Suc (rl_nsegs r), rl_heap = h1\<rparr>))
         \<lparr>rl_pred = seg_ptr M, rl_sp = seg_next (segment_at M h (seg_ptr M)), rl_released = 0, rl_nsegs = 0, rl_heap = h\<rparr>)
       (\<lambda>r. let n = of_nat (rl_nsegs r) in
          Inr (rl_released r,
               upd_ms (\<lambda>s. s\<lparr>release_checks := (if n > MAX_RELEASE_CHECK_RATE then n else MAX_RELEASE_CHECK_RATE)\<rparr>) (rl_heap r)))"

text \<open>How many bytes the system takes back from the end of the segment of the top.\<close>

definition trim_segment :: "malloc_params \<Rightarrow> os_answers \<Rightarrow> addr_t \<Rightarrow> size_t \<Rightarrow> msegment \<Rightarrow> heap \<Rightarrow> size_t res" where
  "trim_segment mp os M extra sg h =
     (if is_extern_segment sg then Inr 0
      else if is_mmapped_segment sg then
        if seg_size sg \<ge> extra then
          res_bind (has_segment_link M h sg) (\<lambda>linked_in.
            let newsize = seg_size sg - extra in
            Inr (if \<not> linked_in
                   \<and> (call_mremap os (seg_base sg) (seg_size sg) newsize False \<noteq> MFAIL
                      \<or> call_munmap os (seg_base sg + newsize) extra)
                 then extra else 0))
        else Inr 0
      else
        let extra' = (if extra \<ge> HALF_MAX_SIZE_T then HALF_MAX_SIZE_T + 1 - granularity mp else extra);
            old_br = call_morecore os 0 0
        in
        Inr (if old_br = seg_base sg + seg_size sg then
               let rel_br = call_morecore os 1 (- extra'); new_br = call_morecore os 2 0 in
               if rel_br \<noteq> MFAIL \<and> new_br < old_br then old_br - new_br else 0
             else 0))"

definition trim_top :: "malloc_params \<Rightarrow> os_answers \<Rightarrow> addr_t \<Rightarrow> size_t \<Rightarrow> heap \<Rightarrow> (size_t \<times> heap) res" where
  "trim_top mp os M pad h =
     (if topsize (ms h) > pad then
        let unit = granularity mp;
            extra = ((topsize (ms h) - pad + (unit - 1)) div unit - 1) * unit
        in
        res_bind (segment_holding M h (top_chunk (ms h))) (\<lambda>sp.
        if sp = 0 then Inl BadAccess
        else
          let sg = segment_at M h sp in
          res_bind (trim_segment mp os M extra sg h) (\<lambda>released.
            Inr (released,
                 if released \<noteq> 0 then
                   let h1 = upd_ms (\<lambda>s. s\<lparr>footprint := footprint s - released\<rparr>)
                             (set_segment M sp (sg\<lparr>seg_size := seg_size sg - released\<rparr>) h)
                   in init_top mp (top_chunk (ms h1)) (topsize (ms h1) - released) h1
                 else h)))
      else Inr (0, h))"

definition sys_trim :: "malloc_params \<Rightarrow> os_answers \<Rightarrow> addr_t \<Rightarrow> size_t \<Rightarrow> heap \<Rightarrow> (bool \<times> heap) res" where
  "sys_trim mp os M pad h =
     (if pad < MAX_REQUEST \<and> top_chunk (ms h) \<noteq> 0 then
        res_bind (trim_top mp os M (pad + TOP_FOOT_SIZE) h) (\<lambda>(r1, h1).
        res_bind (release_unused_segments os M h1) (\<lambda>(r2, h2).
          let released = r1 + r2 in
          Inr (released \<noteq> 0,
               if released = 0 \<and> topsize (ms h2) > trim_check (ms h2)
               then upd_ms (\<lambda>s. s\<lparr>trim_check := MAX_SIZE_T\<rparr>) h2 else h2)))
      else Inr (False, h))"

section \<open>The whole calls\<close>

definition mk_heap :: "words \<Rightarrow> malloc_state \<Rightarrow> heap" where
  "mk_heap m s = \<lparr>mem = m, ms = s\<rparr>"

lemma mk_heap_sel [simp]: "mem (mk_heap m s) = m" "ms (mk_heap m s) = s" "mk_heap (mem h) (ms h) = h"
  by (simp_all add: mk_heap_def)

text \<open>
  \<^verbatim>\<open>mspace_free\<close> with the calls that \<open>Dl_Malloc\<close> leaves open; the lock is released at the end.
\<close>

definition finish_free :: "malloc_params \<Rightarrow> os_answers \<Rightarrow> addr_t \<Rightarrow> free_exit \<Rightarrow> heap \<Rightarrow> heap res" where
  "finish_free mp os M e h =
     (case e of
        Freed \<Rightarrow> Inr h
      | Sys_trim \<Rightarrow> res_bind (sys_trim mp os M 0 h) (\<lambda>(_, h1). Inr (POSTACTION h1))
      | Release_unused \<Rightarrow> res_bind (release_unused_segments os M h) (\<lambda>(_, h1). Inr (POSTACTION h1)))"

definition mspace_free_all ::
  "malloc_params \<Rightarrow> os_answers \<Rightarrow> addr_t \<Rightarrow> words \<times> mspaces \<Rightarrow> (words \<times> mspaces) res" where
  "mspace_free_all mp os a st =
     res_bind (mspace_free mp (call_munmap os) a st) (\<lambda>(e, m, spaces).
       if e = Freed then Inr (m, spaces)
       else
         let M = get_mstate_for mp (fst st) (mem2chunk a) in
         case spaces M of
           None \<Rightarrow> Inl BadAccess
         | Some s \<Rightarrow> res_bind (finish_free mp os M e (mk_heap m s)) (\<lambda>h. Inr (mem h, spaces(M \<mapsto> ms h))))"

end

