(* ===== verification/Dl_Calls.thy ===== *)
theory Dl_Calls
  imports Dl_System Processes
begin

text \<open>
  \<^verbatim>\<open>external/malloc.c\<close>, fifth part: the calls of the runtime into the allocator as a whole.  They work on the
  memory, all the mspaces of the process, and the state of the process itself, because an allocation
  that needs the system first calls \<^verbatim>\<open>BOP_abort_spec\<close>.

  A call makes one or more allocations and releases; \<open>os n\<close> is what the system answers during the one with
  number \<open>n\<close>.  A process that spins on a lock nobody releases ends as \<open>Aborted Diverges\<close>.
\<close>

section \<open>Whole calls on one mspace\<close>

type_synonym dl_state = "bop_state \<times> words \<times> mspaces"
type_synonym 'a dl = "(dl_state, 'a) prog"

definition on_mspace :: "addr_t \<Rightarrow> (heap \<Rightarrow> ('a \<times> heap) res) \<Rightarrow> 'a dl" where
  "on_mspace M f st =
     (case st of (s, m, spaces) \<Rightarrow>
      case spaces M of
        None \<Rightarrow> Aborted BadAccess
      | Some x \<Rightarrow>
          (case f (mk_heap m x) of
             Inl e \<Rightarrow> Aborted e
           | Inr (a, h) \<Rightarrow> Returned a (s, heap.mem h, spaces(M \<mapsto> ms h))))"

definition in_process :: "'a bop \<Rightarrow> 'a dl" where
  "in_process p st =
     (case st of (s, m, spaces) \<Rightarrow>
      case p s of
        Returned a s' \<Rightarrow> Returned a (s', m, spaces)
      | Exited c s' \<Rightarrow> Exited c (s', m, spaces)
      | Aborted e \<Rightarrow> Aborted e
      | Blocked s' \<Rightarrow> Blocked (s', m, spaces))"

text \<open>The end of an allocation: when the code has come to \<^verbatim>\<open>sys_alloc\<close>, that call and the release of the lock.\<close>

definition complete_malloc :: "malloc_params \<Rightarrow> os_answers \<Rightarrow> addr_t \<Rightarrow> malloc_exit \<Rightarrow> addr_t dl" where
  "complete_malloc mp os M e =
     (case e of
        Mem a \<Rightarrow> ret a
      | Sys_alloc nb \<Rightarrow>
          seq (in_process BOP_abort_spec) (\<lambda>_.
            on_mspace M (\<lambda>h. res_bind (sys_alloc mp os M nb h) (\<lambda>(a, h1). Inr (a, POSTACTION h1)))))"

definition malloc_call :: "malloc_params \<Rightarrow> os_answers \<Rightarrow> addr_t \<Rightarrow> size_t \<Rightarrow> addr_t dl" where
  "malloc_call mp os M nbytes =
     seq (on_mspace M (mspace_malloc mp M nbytes)) (complete_malloc mp os M)"

text \<open>
  \<^verbatim>\<open>dlmalloc\<close> is the code of \<^verbatim>\<open>mspace_malloc\<close> for the global heap, without the check of the magic number, which
  that heap does not have before its first use.  The parameters are those after \<^verbatim>\<open>ensure_initialization\<close>.
\<close>

definition dlmalloc :: "malloc_params \<Rightarrow> os_answers \<Rightarrow> size_t \<Rightarrow> addr_t dl" where
  "dlmalloc mp os nbytes =
     seq (on_mspace (gm_addr mp) (locked_malloc mp (gm_addr mp) nbytes)) (complete_malloc mp os (gm_addr mp))"

definition internal_malloc :: "malloc_params \<Rightarrow> os_answers \<Rightarrow> addr_t \<Rightarrow> size_t \<Rightarrow> addr_t dl" where
  "internal_malloc mp os M nbytes = (if is_global mp M then dlmalloc mp os nbytes else malloc_call mp os M nbytes)"

text \<open>For an mspace with the magic number it makes no difference which of the two is called.\<close>

lemma internal_malloc_eq:
  "spaces M = Some x \<Longrightarrow> ok_magic mp x \<Longrightarrow> internal_malloc mp os M nbytes (s, m, spaces) = malloc_call mp os M nbytes (s, m, spaces)"
  by (cases "M = gm_addr mp")
    (simp_all add: internal_malloc_def is_global_def dlmalloc_def malloc_call_def seq_def on_mspace_def mspace_malloc_def)

definition free_call :: "malloc_params \<Rightarrow> os_answers \<Rightarrow> addr_t \<Rightarrow> unit dl" where
  "free_call mp os a st =
     (case st of (s, m, spaces) \<Rightarrow>
      case mspace_free_all mp os a (m, spaces) of
        Inl e \<Rightarrow> Aborted e
      | Inr (m', spaces') \<Rightarrow> Returned () (s, m', spaces'))"

section \<open>calloc\<close>

definition calloc_request :: "size_t \<Rightarrow> size_t \<Rightarrow> size_t" where
  "calloc_request n_elements elem_size =
     (if n_elements \<noteq> 0 then
        let req = n_elements * elem_size in
        if (n_elements OR elem_size) AND NOT 0xffff \<noteq> 0 \<and> req div n_elements \<noteq> elem_size then MAX_SIZE_T else req
      else 0)"

text \<open>
  \<^verbatim>\<open>memset\<close> and \<^verbatim>\<open>memcpy\<close> of bytes from an address that is a multiple of 8: whole words, and the low bytes of the
  last one (the machine is little-endian).
\<close>

definition low_bytes :: "size_t \<Rightarrow> size_t" where
  "low_bytes n = mask (8 * unat (n AND 7))"

definition clear_bytes :: "addr_t \<Rightarrow> size_t \<Rightarrow> words \<Rightarrow> words" where
  "clear_bytes a n m =
     (let k = unat n div 8; m1 = clear_words a k m; e = a + 8 * of_nat k in
      if n AND 7 = 0 then m1 else m1(e := m1 e AND NOT (low_bytes n)))"

fun copy_words :: "addr_t \<Rightarrow> addr_t \<Rightarrow> nat \<Rightarrow> words \<Rightarrow> words" where
  "copy_words d s 0 m = m"
| "copy_words d s (Suc n) m = copy_words (d + 8) (s + 8) n (m(d := m s))"

definition copy_bytes :: "addr_t \<Rightarrow> addr_t \<Rightarrow> size_t \<Rightarrow> words \<Rightarrow> words" where
  "copy_bytes d s n m =
     (let k = unat n div 8; m1 = copy_words d s k m; e = d + 8 * of_nat k; f = s + 8 * of_nat k in
      if n AND 7 = 0 then m1 else m1(e := (m1 e AND NOT (low_bytes n)) OR (m1 f AND low_bytes n)))"

definition on_words :: "(words \<Rightarrow> words) \<Rightarrow> unit dl" where
  "on_words f st = (case st of (s, m, spaces) \<Rightarrow> Returned () (s, f m, spaces))"

definition calloc_must_clear :: "words \<Rightarrow> addr_t \<Rightarrow> bool" where
  "calloc_must_clear m p \<longleftrightarrow> \<not> is_mmapped m p"

definition check_magic :: "malloc_params \<Rightarrow> addr_t \<Rightarrow> unit dl" where
  "check_magic mp M = on_mspace M (\<lambda>h. abort_unless (ok_magic mp (ms h)) (Inr ((), h)))"

definition mspace_calloc :: "malloc_params \<Rightarrow> os_answers \<Rightarrow> addr_t \<Rightarrow> size_t \<Rightarrow> size_t \<Rightarrow> addr_t dl" where
  "mspace_calloc mp os M n_elements elem_size =
     seq (check_magic mp M) (\<lambda>_.
       let req = calloc_request n_elements elem_size in
       seq (internal_malloc mp os M req) (\<lambda>a.
       seq (on_words (\<lambda>m. if a \<noteq> 0 \<and> calloc_must_clear m (mem2chunk a) then clear_bytes a req m else m)) (\<lambda>_. ret a)))"

section \<open>realloc\<close>

definition mmap_resize ::
  "malloc_params \<Rightarrow> os_answers \<Rightarrow> addr_t \<Rightarrow> addr_t \<Rightarrow> size_t \<Rightarrow> bool \<Rightarrow> heap \<Rightarrow> (addr_t \<times> heap)" where
  "mmap_resize mp os M oldp nb can_move h =
     (let oldsize = chunksize (heap.mem h) oldp in
      if is_small nb then (0, h)
      else if oldsize \<ge> nb + SIZE_T_SIZE \<and> oldsize - nb \<le> push_bit 1 (granularity mp) then (oldp, h)
      else
        let offset = prev_foot (heap.mem h) oldp;
            oldmmsize = oldsize + offset + MMAP_FOOT_PAD;
            newmmsize = page_align mp (nb + SIX_SIZE_T_SIZES + CHUNK_ALIGN_MASK);
            cp = call_mremap os (oldp - offset) oldmmsize newmmsize can_move
        in
        if cp \<noteq> MFAIL then
          let newp = cp + offset;
              psize = newmmsize - offset - MMAP_FOOT_PAD
          in
          (newp,
           upd_ms (\<lambda>s. grow_footprint (newmmsize - oldmmsize) (if cp < least_addr s then s\<lparr>least_addr := cp\<rparr> else s))
             (upd_mem (\<lambda>m.
                set_head (chunk_plus_offset newp (psize + SIZE_T_SIZE)) 0
                  (set_head (chunk_plus_offset newp psize) FENCEPOST_HEAD
                    (mark_inuse_foot mp M newp psize (set_head newp psize m)))) h))
        else (0, h))"

text \<open>Splitting the end off a chunk in use.\<close>

definition split_inuse ::
  "malloc_params \<Rightarrow> os_answers \<Rightarrow> addr_t \<Rightarrow> addr_t \<Rightarrow> size_t \<Rightarrow> size_t \<Rightarrow> heap \<Rightarrow> heap res" where
  "split_inuse mp os M p nb rs h =
     (let r = chunk_plus_offset p nb in
      dispose_chunk (call_munmap os) M r rs (upd_mem (\<lambda>m. set_inuse mp M r rs (set_inuse mp M p nb m)) h))"

definition extend_into_top :: "malloc_params \<Rightarrow> addr_t \<Rightarrow> addr_t \<Rightarrow> size_t \<Rightarrow> size_t \<Rightarrow> heap \<Rightarrow> addr_t \<times> heap" where
  "extend_into_top mp M p oldsize nb h =
     (if oldsize + topsize (ms h) > nb then
        let newtopsize = oldsize + topsize (ms h) - nb; newtop = chunk_plus_offset p nb in
        (p, upd_ms (\<lambda>s. s\<lparr>top_chunk := newtop, topsize := newtopsize\<rparr>)
              (upd_mem (\<lambda>m. set_head newtop (newtopsize OR PINUSE_BIT) (set_inuse mp M p nb m)) h))
      else (0, h))"

definition extend_into_dv :: "malloc_params \<Rightarrow> addr_t \<Rightarrow> addr_t \<Rightarrow> size_t \<Rightarrow> size_t \<Rightarrow> heap \<Rightarrow> addr_t \<times> heap" where
  "extend_into_dv mp M p oldsize nb h =
     (let dvs = dvsize (ms h) in
      if oldsize + dvs \<ge> nb then
        let dsize = oldsize + dvs - nb in
        if dsize \<ge> MIN_CHUNK_SIZE then
          let r = chunk_plus_offset p nb; n = chunk_plus_offset r dsize in
          (p, upd_ms (\<lambda>s. s\<lparr>dvsize := dsize, dv := r\<rparr>)
                (upd_mem (\<lambda>m. clear_pinuse n (set_size_and_pinuse_of_free_chunk r dsize (set_inuse mp M p nb m))) h))
        else
          (p, upd_ms (\<lambda>s. s\<lparr>dvsize := 0, dv := 0\<rparr>) (upd_mem (set_inuse mp M p (oldsize + dvs)) h))
      else (0, h))"

definition try_realloc_chunk ::
  "malloc_params \<Rightarrow> os_answers \<Rightarrow> addr_t \<Rightarrow> addr_t \<Rightarrow> size_t \<Rightarrow> bool \<Rightarrow> heap \<Rightarrow> (addr_t \<times> heap) res" where
  "try_realloc_chunk mp os M p nb can_move h =
     (let oldsize = chunksize (heap.mem h) p; nxt = chunk_plus_offset p oldsize in
      abort_unless (ok_address (ms h) p \<and> is_inuse (heap.mem h) p \<and> ok_next p nxt \<and> pinuse (heap.mem h) nxt)
        (if is_mmapped (heap.mem h) p then Inr (mmap_resize mp os M p nb can_move h)
         else if oldsize \<ge> nb then
           let rs = oldsize - nb in
           if rs \<ge> MIN_CHUNK_SIZE then res_bind (split_inuse mp os M p nb rs h) (\<lambda>h1. Inr (p, h1)) else Inr (p, h)
         else if nxt = top_chunk (ms h) then Inr (extend_into_top mp M p oldsize nb h)
         else if nxt = dv (ms h) then Inr (extend_into_dv mp M p oldsize nb h)
         else if \<not> cinuse (heap.mem h) nxt then
           let nextsize = chunksize (heap.mem h) nxt in
           if oldsize + nextsize \<ge> nb then
             let rs = oldsize + nextsize - nb in
             res_bind (unlink_chunk M nxt nextsize h) (\<lambda>h1.
               if rs < MIN_CHUNK_SIZE then Inr (p, upd_mem (set_inuse mp M p (oldsize + nextsize)) h1)
               else res_bind (split_inuse mp os M p nb rs h1) (\<lambda>h2. Inr (p, h2)))
           else Inr (0, h)
         else Inr (0, h)))"

text \<open>The mspace of a block is read from the foot of its chunk.\<close>

definition owner_of :: "malloc_params \<Rightarrow> addr_t \<Rightarrow> addr_t dl" where
  "owner_of mp p st = (case st of (s, m, spaces) \<Rightarrow> Returned (get_mstate_for mp m p) st)"

definition locked_realloc ::
  "malloc_params \<Rightarrow> os_answers \<Rightarrow> addr_t \<Rightarrow> addr_t \<Rightarrow> size_t \<Rightarrow> bool \<Rightarrow> addr_t dl" where
  "locked_realloc mp os M oldp nb can_move =
     on_mspace M (\<lambda>h.
       abort_unless (ok_magic mp (ms h))
         (with_lock (try_realloc_chunk mp os M oldp nb can_move) h))"

definition copy_block :: "addr_t \<Rightarrow> addr_t \<Rightarrow> size_t \<Rightarrow> words \<Rightarrow> words" where
  "copy_block a oldmem nbytes m =
     (let oldp = mem2chunk oldmem; oc = chunksize m oldp - overhead_for m oldp in
      copy_bytes a oldmem (if oc < nbytes then oc else nbytes) m)"

definition mspace_realloc ::
  "malloc_params \<Rightarrow> (nat \<Rightarrow> os_answers) \<Rightarrow> addr_t \<Rightarrow> addr_t \<Rightarrow> size_t \<Rightarrow> addr_t dl" where
  "mspace_realloc mp os msp oldmem nbytes =
     (if oldmem = 0 then malloc_call mp (os 0) msp nbytes
      else if nbytes \<ge> MAX_REQUEST then ret 0
      else
        let nb = request2size nbytes; oldp = mem2chunk oldmem in
        seq (owner_of mp oldp) (\<lambda>M.
        seq (locked_realloc mp (os 0) M oldp nb True) (\<lambda>newp.
          if newp \<noteq> 0 then ret (chunk2mem newp)
          else
            seq (malloc_call mp (os 1) M nbytes) (\<lambda>a.
              if a \<noteq> 0 then
                seq (on_words (copy_block a oldmem nbytes)) (\<lambda>_.
                seq (free_call mp (os 2) oldmem) (\<lambda>_. ret a))
              else ret 0))))"

definition mspace_realloc_in_place ::
  "malloc_params \<Rightarrow> os_answers \<Rightarrow> addr_t \<Rightarrow> size_t \<Rightarrow> addr_t dl" where
  "mspace_realloc_in_place mp os oldmem nbytes =
     (if oldmem = 0 \<or> nbytes \<ge> MAX_REQUEST then ret 0
      else
        let nb = request2size nbytes; oldp = mem2chunk oldmem in
        seq (owner_of mp oldp) (\<lambda>M.
        seq (locked_realloc mp os M oldp nb False) (\<lambda>newp. ret (if newp = oldp then oldmem else 0))))"

end
