(* ===== verification/Dl_Special.thy ===== *)
theory Dl_Special
  imports Dl_Calls
begin

text \<open>
  \<^verbatim>\<open>external/malloc.c\<close>, sixth part: aligned blocks, groups of blocks, limits, statistics and parameters.
  An address of 0 is the null pointer.  The parameter \<open>sizes\<close> of the group operations is an array of the
  caller, which they only read; the arrays of pointers that they write are in the memory.
\<close>

section \<open>Aligned blocks\<close>

text \<open>
  The alignment that is used: at least \<^verbatim>\<open>MIN_CHUNK_SIZE\<close>, and the next power of two.  The loop that looks for it
  can shift its last bit out, which leaves no value.
\<close>

definition memalign_power :: "size_t \<Rightarrow> size_t option" where
  "memalign_power alignment0 =
     (let alignment = (if alignment0 < MIN_CHUNK_SIZE then MIN_CHUNK_SIZE else alignment0) in
      if alignment AND (alignment - 1) \<noteq> 0 then
        while_option (\<lambda>a. a < alignment) (push_bit 1) (push_bit 1 MALLOC_ALIGNMENT)
      else Some alignment)"

definition aligned_spot :: "size_t \<Rightarrow> addr_t \<Rightarrow> addr_t" where
  "aligned_spot alignment a =
     (let br = mem2chunk ((a + alignment - 1) AND - alignment) in
      if br - mem2chunk a \<ge> MIN_CHUNK_SIZE then br else br + alignment)"

definition move_to_spot ::
  "malloc_params \<Rightarrow> os_answers \<Rightarrow> addr_t \<Rightarrow> size_t \<Rightarrow> addr_t \<Rightarrow> heap \<Rightarrow> (addr_t \<times> heap) res" where
  "move_to_spot mp os M alignment a h =
     (let p = mem2chunk a in
      if a AND (alignment - 1) \<noteq> 0 then
        let newp = aligned_spot alignment a;
            leadsize = newp - p;
            newsize = chunksize (heap.mem h) p - leadsize
        in
        if is_mmapped (heap.mem h) p then
          Inr (newp, upd_mem (\<lambda>m. set_head newp newsize (set_prev_foot newp (prev_foot m p + leadsize) m)) h)
        else
          res_bind
            (dispose_chunk (call_munmap os) M p leadsize
              (upd_mem (\<lambda>m. set_inuse mp M p leadsize (set_inuse mp M newp newsize m)) h))
            (\<lambda>h1. Inr (newp, h1))
      else Inr (p, h))"

definition trim_aligned ::
  "malloc_params \<Rightarrow> os_answers \<Rightarrow> addr_t \<Rightarrow> size_t \<Rightarrow> addr_t \<Rightarrow> heap \<Rightarrow> heap res" where
  "trim_aligned mp os M nb p h =
     (if \<not> is_mmapped (heap.mem h) p \<and> chunksize (heap.mem h) p > nb + MIN_CHUNK_SIZE
      then split_inuse mp os M p nb (chunksize (heap.mem h) p - nb) h
      else Inr h)"

definition align_locked ::
  "malloc_params \<Rightarrow> os_answers \<Rightarrow> addr_t \<Rightarrow> size_t \<Rightarrow> size_t \<Rightarrow> addr_t \<Rightarrow> heap \<Rightarrow> (addr_t \<times> heap) res" where
  "align_locked mp os M alignment nb a h =
     res_bind (move_to_spot mp os M alignment a h) (\<lambda>(p, h1).
     res_bind (trim_aligned mp os M nb p h1) (\<lambda>h2.
       abort_unless (chunksize (heap.mem h2) p \<ge> nb \<and> chunk2mem p AND (alignment - 1) = 0) (Inr (chunk2mem p, h2))))"

definition internal_memalign ::
  "malloc_params \<Rightarrow> (nat \<Rightarrow> os_answers) \<Rightarrow> addr_t \<Rightarrow> size_t \<Rightarrow> size_t \<Rightarrow> addr_t dl" where
  "internal_memalign mp os M alignment0 nbytes =
     (case memalign_power alignment0 of
        None \<Rightarrow> (\<lambda>_. Aborted Diverges)
      | Some alignment \<Rightarrow>
          if nbytes \<ge> MAX_REQUEST - alignment then ret 0
          else
            let nb = request2size nbytes;
                req = nb + alignment + MIN_CHUNK_SIZE - CHUNK_OVERHEAD
            in
            seq (internal_malloc mp (os 0) M req) (\<lambda>a.
              if a \<noteq> 0 then on_mspace M (with_lock (align_locked mp (os 1) M alignment nb a)) else ret 0))"

definition mspace_memalign ::
  "malloc_params \<Rightarrow> (nat \<Rightarrow> os_answers) \<Rightarrow> addr_t \<Rightarrow> size_t \<Rightarrow> size_t \<Rightarrow> addr_t dl" where
  "mspace_memalign mp os M alignment nbytes =
     seq (check_magic mp M) (\<lambda>_.
       if alignment \<le> MALLOC_ALIGNMENT then malloc_call mp (os 0) M nbytes
       else internal_memalign mp os M alignment nbytes)"

section \<open>Groups of blocks\<close>

definition enable_mmap :: "malloc_state \<Rightarrow> malloc_state" where
  "enable_mmap s = s\<lparr>mflags := mflags s OR USE_MMAP_BIT\<rparr>"

definition disable_mmap :: "malloc_state \<Rightarrow> malloc_state" where
  "disable_mmap s = s\<lparr>mflags := mflags s AND NOT USE_MMAP_BIT\<rparr>"

definition contents_size :: "size_t \<Rightarrow> (nat \<Rightarrow> size_t) \<Rightarrow> bool \<Rightarrow> size_t" where
  "contents_size n_elements sizes all_same =
     (if all_same then n_elements * request2size (sizes 0)
      else fold (\<lambda>i c. c + request2size (sizes i)) [0..<unat n_elements] 0)"

text \<open>
  Splitting out the elements, \<open>k\<close> of them before the last, from index \<open>i\<close> on; the last element takes
  whatever is left.
\<close>

fun split_elements ::
  "malloc_params \<Rightarrow> addr_t \<Rightarrow> (nat \<Rightarrow> size_t) \<Rightarrow> addr_t \<Rightarrow> nat \<Rightarrow> nat \<Rightarrow> addr_t \<Rightarrow> size_t \<Rightarrow> words \<Rightarrow> words" where
  "split_elements mp M esize marray i 0 p remainder m =
     set_size_and_pinuse_of_inuse_chunk mp M p remainder (m(marray + 8 * of_nat i := chunk2mem p))"
| "split_elements mp M esize marray i (Suc k) p remainder m =
     split_elements mp M esize marray (Suc i) k (chunk_plus_offset p (esize i)) (remainder - esize i)
       (set_size_and_pinuse_of_inuse_chunk mp M p (esize i) (m(marray + 8 * of_nat i := chunk2mem p)))"

definition ialloc_locked ::
  "malloc_params \<Rightarrow> addr_t \<Rightarrow> size_t \<Rightarrow> (nat \<Rightarrow> size_t) \<Rightarrow> bool \<Rightarrow> bool \<Rightarrow> addr_t \<Rightarrow> size_t \<Rightarrow> size_t
    \<Rightarrow> addr_t \<Rightarrow> heap \<Rightarrow> (addr_t \<times> heap) res" where
  "ialloc_locked mp M n_elements sizes all_same zeroed chunks csize array_size a h =
     (let p = mem2chunk a;
          remainder = chunksize (heap.mem h) p
      in
      abort_unless (\<not> is_mmapped (heap.mem h) p)
        (let h1 = (if zeroed then upd_mem (clear_bytes a (remainder - SIZE_T_SIZE - array_size)) h else h);
             array_chunk = chunk_plus_offset p csize;
             (marray, remainder', h2) =
               (if chunks = 0 then
                  (chunk2mem array_chunk, csize,
                   upd_mem (set_size_and_pinuse_of_inuse_chunk mp M array_chunk (remainder - csize)) h1)
                else (chunks, remainder, h1));
             element_size = (if all_same then request2size (sizes 0) else 0);
             esize = (\<lambda>i. if element_size \<noteq> 0 then element_size else request2size (sizes i))
         in Inr (marray, upd_mem (split_elements mp M esize marray 0 (unat (n_elements - 1)) p remainder') h2)))"

definition ialloc ::
  "malloc_params \<Rightarrow> os_answers \<Rightarrow> addr_t \<Rightarrow> size_t \<Rightarrow> (nat \<Rightarrow> size_t) \<Rightarrow> bool \<Rightarrow> bool \<Rightarrow> addr_t \<Rightarrow> addr_t dl" where
  "ialloc mp os M n_elements sizes all_same zeroed chunks =
     (if n_elements = 0 then if chunks \<noteq> 0 then ret chunks else internal_malloc mp os M 0
      else
        let array_size = (if chunks \<noteq> 0 then 0 else request2size (n_elements * 8));
            csize = contents_size n_elements sizes all_same;
            sz = csize + array_size
        in
        seq (on_mspace M (\<lambda>h. Inr (use_mmap (ms h), upd_ms disable_mmap h))) (\<lambda>was_enabled.
        seq (internal_malloc mp os M (sz - CHUNK_OVERHEAD)) (\<lambda>a.
        seq (on_mspace M (\<lambda>h. Inr ((), if was_enabled then upd_ms enable_mmap h else h))) (\<lambda>_.
          if a = 0 then ret 0
          else on_mspace M (with_lock (ialloc_locked mp M n_elements sizes all_same zeroed chunks csize array_size a))))))"

definition mspace_independent_calloc ::
  "malloc_params \<Rightarrow> os_answers \<Rightarrow> addr_t \<Rightarrow> size_t \<Rightarrow> size_t \<Rightarrow> addr_t \<Rightarrow> addr_t dl" where
  "mspace_independent_calloc mp os M n_elements elem_size chunks =
     seq (check_magic mp M) (\<lambda>_. ialloc mp os M n_elements (\<lambda>_. elem_size) True True chunks)"

definition mspace_independent_comalloc ::
  "malloc_params \<Rightarrow> os_answers \<Rightarrow> addr_t \<Rightarrow> size_t \<Rightarrow> (nat \<Rightarrow> size_t) \<Rightarrow> addr_t \<Rightarrow> addr_t dl" where
  "mspace_independent_comalloc mp os M n_elements sizes chunks =
     seq (check_magic mp M) (\<lambda>_. ialloc mp os M n_elements sizes False False chunks)"

text \<open>
  Freeing the blocks of an array: \<open>k\<close> entries from the address \<open>a\<close> on.  A block is merged into the next one of the
  array when that is its neighbour.
\<close>

fun bulk_free_loop ::
  "malloc_params \<Rightarrow> os_answers \<Rightarrow> addr_t \<Rightarrow> nat \<Rightarrow> addr_t \<Rightarrow> size_t \<Rightarrow> heap \<Rightarrow> (size_t \<times> heap) res" where
  "bulk_free_loop mp os M 0 a unfreed h = Inr (unfreed, h)"
| "bulk_free_loop mp os M (Suc k) a unfreed h =
     (let x = heap.mem h a; p = mem2chunk x; psize = chunksize (heap.mem h) p in
      if x = 0 then bulk_free_loop mp os M k (a + 8) unfreed h
      else if get_mstate_for mp (heap.mem h) p \<noteq> M then bulk_free_loop mp os M k (a + 8) (unfreed + 1) h
      else
        let h1 = upd_mem (\<lambda>m. m(a := 0)) h in
        abort_unless (ok_address (ms h1) p \<and> is_inuse (heap.mem h1) p)
          (let nxt = next_chunk (heap.mem h1) p in
           if k \<noteq> 0 \<and> heap.mem h1 (a + 8) = chunk2mem nxt then
             bulk_free_loop mp os M k (a + 8) unfreed
               (upd_mem (\<lambda>m. (set_inuse mp M p (chunksize m nxt + psize) m)(a + 8 := chunk2mem p)) h1)
           else
             res_bind (dispose_chunk (call_munmap os) M p psize h1) (bulk_free_loop mp os M k (a + 8) unfreed)))"

definition bulk_free_locked ::
  "malloc_params \<Rightarrow> os_answers \<Rightarrow> addr_t \<Rightarrow> addr_t \<Rightarrow> size_t \<Rightarrow> heap \<Rightarrow> (size_t \<times> heap) res" where
  "bulk_free_locked mp os M array nelem h =
     res_bind (bulk_free_loop mp os M (unat nelem) array 0 h) (\<lambda>(unfreed, h1).
       if should_trim (ms h1) (topsize (ms h1)) then res_bind (sys_trim mp os M 0 h1) (\<lambda>(_, h2). Inr (unfreed, h2))
       else Inr (unfreed, h1))"

definition internal_bulk_free ::
  "malloc_params \<Rightarrow> os_answers \<Rightarrow> addr_t \<Rightarrow> addr_t \<Rightarrow> size_t \<Rightarrow> size_t dl" where
  "internal_bulk_free mp os M array nelem = on_mspace M (with_lock (bulk_free_locked mp os M array nelem))"

section \<open>Limits and statistics\<close>

definition mspace_trim :: "malloc_params \<Rightarrow> os_answers \<Rightarrow> addr_t \<Rightarrow> size_t \<Rightarrow> bool dl" where
  "mspace_trim mp os M pad =
     on_mspace M (\<lambda>h. abort_unless (ok_magic mp (ms h)) (with_lock (sys_trim mp os M pad) h))"

definition mspace_footprint :: "malloc_params \<Rightarrow> heap \<Rightarrow> size_t res" where
  "mspace_footprint mp h = abort_unless (ok_magic mp (ms h)) (Inr (footprint (ms h)))"

definition mspace_max_footprint :: "malloc_params \<Rightarrow> heap \<Rightarrow> size_t res" where
  "mspace_max_footprint mp h = abort_unless (ok_magic mp (ms h)) (Inr (max_footprint (ms h)))"

definition mspace_footprint_limit :: "malloc_params \<Rightarrow> heap \<Rightarrow> size_t res" where
  "mspace_footprint_limit mp h =
     abort_unless (ok_magic mp (ms h))
       (let maf = footprint_limit (ms h) in Inr (if maf = 0 then MAX_SIZE_T else maf))"

definition mspace_set_footprint_limit :: "malloc_params \<Rightarrow> size_t \<Rightarrow> heap \<Rightarrow> (size_t \<times> heap) res" where
  "mspace_set_footprint_limit mp nbytes h =
     abort_unless (ok_magic mp (ms h))
       (let result0 = (if nbytes = 0 then granularity_align mp 1 else 0);
            result = (if nbytes = MAX_SIZE_T then 0 else granularity_align mp nbytes)
        in Inr (result, upd_ms (\<lambda>s. s\<lparr>footprint_limit := result\<rparr>) h))"

text \<open>
  The walk over the chunks of one segment: \<open>f\<close> is done for each chunk, up to the top, a fencepost or the end
  of the segment.
\<close>

definition walk_segment :: "heap \<Rightarrow> (addr_t \<Rightarrow> 's \<Rightarrow> 's) \<Rightarrow> msegment \<Rightarrow> 's \<Rightarrow> 's res" where
  "walk_segment h f sg s0 =
     (case while_option
             (\<lambda>(q, s). segment_holds sg q \<and> q \<noteq> top_chunk (ms h) \<and> head (heap.mem h) q \<noteq> FENCEPOST_HEAD)
             (\<lambda>(q, s). (next_chunk (heap.mem h) q, f q s))
             (align_as_chunk (seg_base sg), s0) of
        None \<Rightarrow> Inl Diverges
      | Some (_, s) \<Rightarrow> Inr s)"

definition walk_segments :: "addr_t \<Rightarrow> heap \<Rightarrow> (addr_t \<Rightarrow> 's \<Rightarrow> 's) \<Rightarrow> 's \<Rightarrow> 's res" where
  "walk_segments M h f s0 =
     res_bind
       (res_while (\<lambda>(sp, s). sp \<noteq> 0)
         (\<lambda>(sp, s). let sg = segment_at M h sp in
            res_bind (walk_segment h f sg s) (\<lambda>s1. Inr (seg_next sg, s1)))
         (seg_ptr M, s0))
       (\<lambda>(_, s). Inr s)"

record mallinfo =
  arena :: size_t
  ordblks :: size_t
  smblks :: size_t
  hblks :: size_t
  hblkhd :: size_t
  usmblks :: size_t
  fsmblks :: size_t
  uordblks :: size_t
  fordblks :: size_t
  keepcost :: size_t

definition no_mallinfo :: mallinfo where
  "no_mallinfo = \<lparr>arena = 0, ordblks = 0, smblks = 0, hblks = 0, hblkhd = 0, usmblks = 0, fsmblks = 0,
     uordblks = 0, fordblks = 0, keepcost = 0\<rparr>"

definition count_chunk :: "words \<Rightarrow> addr_t \<Rightarrow> size_t \<times> size_t \<times> size_t \<Rightarrow> size_t \<times> size_t \<times> size_t" where
  "count_chunk m q s =
     (case s of (nfree, mfree, tot) \<Rightarrow>
      let sz = chunksize m q in
      if \<not> is_inuse m q then (nfree + 1, mfree + sz, tot + sz) else (nfree, mfree, tot + sz))"

definition internal_mallinfo :: "addr_t \<Rightarrow> heap \<Rightarrow> (mallinfo \<times> heap) res" where
  "internal_mallinfo M =
     with_lock (\<lambda>h.
       if top_chunk (ms h) \<noteq> 0 then
         let mfree0 = topsize (ms h) + TOP_FOOT_SIZE in
         res_bind (walk_segments M h (count_chunk (heap.mem h)) (1, mfree0, mfree0)) (\<lambda>(nfree, mfree, tot).
           Inr (no_mallinfo\<lparr>arena := tot, ordblks := nfree, hblkhd := footprint (ms h) - tot,
                  usmblks := max_footprint (ms h), uordblks := footprint (ms h) - mfree, fordblks := mfree,
                  keepcost := topsize (ms h)\<rparr>, h))
       else Inr (no_mallinfo, h))"

definition mspace_mallinfo :: "malloc_params \<Rightarrow> addr_t \<Rightarrow> heap \<Rightarrow> (mallinfo \<times> heap) res" where
  "mspace_mallinfo mp M h = abort_unless (ok_magic mp (ms h)) (internal_mallinfo M h)"

text \<open>The three numbers that \<^verbatim>\<open>malloc_stats\<close> prints: the largest footprint, the footprint, and the bytes in use.\<close>

definition internal_malloc_stats :: "addr_t \<Rightarrow> heap \<Rightarrow> ((size_t \<times> size_t \<times> size_t) \<times> heap) res" where
  "internal_malloc_stats M =
     with_lock (\<lambda>h.
       if top_chunk (ms h) \<noteq> 0 then
         let fp = footprint (ms h) in
         res_bind
           (walk_segments M h (\<lambda>q used. if \<not> is_inuse (heap.mem h) q then used - chunksize (heap.mem h) q else used)
             (fp - (topsize (ms h) + TOP_FOOT_SIZE)))
           (\<lambda>used. Inr ((max_footprint (ms h), fp, used), h))
       else Inr ((0, 0, 0), h))"

definition mspace_malloc_stats :: "malloc_params \<Rightarrow> addr_t \<Rightarrow> heap \<Rightarrow> ((size_t \<times> size_t \<times> size_t) \<times> heap) res" where
  "mspace_malloc_stats mp M h = abort_unless (ok_magic mp (ms h)) (internal_malloc_stats M h)"

section \<open>Parameters\<close>

definition power_of_two_or_zero :: "size_t \<Rightarrow> bool" where
  "power_of_two_or_zero x \<longleftrightarrow> x AND (x - 1) = 0"

text \<open>
  \<open>psize\<close> is the page size of the system, \<open>now\<close> its time; a magic of 0 marks parameters that are not set yet.
  The sanity check of the configuration depends on nothing but the page size, which is also the granularity.
\<close>

definition make_magic :: "size_t \<Rightarrow> size_t" where
  "make_magic now = ((now XOR 0x55555555) OR 8) AND NOT 7"

definition init_mparams :: "size_t \<Rightarrow> size_t \<Rightarrow> malloc_params \<Rightarrow> malloc_params res" where
  "init_mparams psize now mp =
     (if mp_magic mp = 0 then
        let gsize = psize in
        abort_unless (power_of_two_or_zero gsize \<and> power_of_two_or_zero psize)
          (Inr (mp\<lparr>granularity := gsize, page_size := psize, mmap_threshold := 256 * 1024,
                 trim_threshold := 2 * 1024 * 1024, default_mflags := USE_LOCK_BIT OR USE_MMAP_BIT,
                 mp_magic := make_magic now\<rparr>))
      else Inr mp)"

definition change_mparam :: "uint \<Rightarrow> uint \<Rightarrow> malloc_params \<Rightarrow> bool \<times> malloc_params" where
  "change_mparam param_number x mp =
     (let val = (if x = -1 then MAX_SIZE_T else scast x) in
      if param_number = -1 then (True, mp\<lparr>trim_threshold := val\<rparr>)
      else if param_number = -2 then
        if val \<ge> page_size mp \<and> power_of_two_or_zero val then (True, mp\<lparr>granularity := val\<rparr>) else (False, mp)
      else if param_number = -3 then (True, mp\<lparr>mmap_threshold := val\<rparr>)
      else (False, mp))"

definition mspace_mallopt :: "size_t \<Rightarrow> size_t \<Rightarrow> uint \<Rightarrow> uint \<Rightarrow> malloc_params \<Rightarrow> (bool \<times> malloc_params) res" where
  "mspace_mallopt psize now param_number x mp =
     res_bind (init_mparams psize now mp) (\<lambda>mp1. Inr (change_mparam param_number x mp1))"

end
