(* ===== verification/Dl_Global.thy ===== *)
theory Dl_Global
  imports Dl_Special
begin

text \<open>
  \<^verbatim>\<open>external/malloc.c\<close>, the global heap: the calls \<^verbatim>\<open>dlmalloc\<close>, \<^verbatim>\<open>dlfree\<close> and their relatives, which work on the static
  structure \<^verbatim>\<open>_gm_\<close> instead of an mspace that was created.  The structure and the parameters of the process are zero
  when the program starts; \<^verbatim>\<open>ensure_initialization\<close> sets the parameters, and the first allocation that
  comes to \<^verbatim>\<open>sys_alloc\<close> obtains the first region.

  The calls take the parameters that \<^verbatim>\<open>ensure_initialization\<close> leaves; \<open>initialized\<close> is a call together with the
  initialisation that it begins with.
\<close>

section \<open>The first use\<close>

definition unused_gm :: malloc_state where
  "unused_gm = \<lparr>smallmap = 0, treemap = 0, dvsize = 0, topsize = 0, least_addr = 0, dv = 0, top_chunk = 0, trim_check = 0,
     release_checks = 0, ms_magic = 0, footprint = 0, max_footprint = 0, footprint_limit = 0, mflags = 0, mutex = False,
     seg = \<lparr>seg_base = 0, seg_size = 0, seg_next = 0, seg_sflags = 0\<rparr>\<rparr>"

type_synonym gl_state = "malloc_params \<times> dl_state"

definition init_gm :: "malloc_params \<Rightarrow> malloc_state \<Rightarrow> malloc_state" where
  "init_gm mp x = x\<lparr>mflags := default_mflags mp, mutex := False\<rparr>"

definition ensure_initialization :: "size_t \<Rightarrow> size_t \<Rightarrow> (gl_state, unit) prog" where
  "ensure_initialization psize now st =
     (case st of (mp, s, m, spaces) \<Rightarrow>
      if mp_magic mp \<noteq> 0 then Returned () st
      else
        case (init_mparams psize now mp, spaces (gm_addr mp)) of
          (Inl e, _) \<Rightarrow> Aborted e
        | (Inr mp1, None) \<Rightarrow> Aborted BadAccess
        | (Inr mp1, Some x) \<Rightarrow> Returned () (mp1, s, m, spaces(gm_addr mp \<mapsto> init_gm mp1 x)))"

definition with_params :: "(malloc_params \<Rightarrow> 'a dl) \<Rightarrow> (gl_state, 'a) prog" where
  "with_params p st =
     (case st of (mp, st0) \<Rightarrow>
      case p mp st0 of
        Returned a st1 \<Rightarrow> Returned a (mp, st1)
      | Exited c st1 \<Rightarrow> Exited c (mp, st1)
      | Aborted e \<Rightarrow> Aborted e
      | Blocked st1 \<Rightarrow> Blocked (mp, st1))"

definition initialized :: "size_t \<Rightarrow> size_t \<Rightarrow> (malloc_params \<Rightarrow> 'a dl) \<Rightarrow> (gl_state, 'a) prog" where
  "initialized psize now p = seq (ensure_initialization psize now) (\<lambda>_. with_params p)"

section \<open>Allocation and release\<close>

text \<open>With footers \<^verbatim>\<open>dlfree\<close> is \<^verbatim>\<open>mspace_free\<close>: the heap is the one that the foot of the chunk names.\<close>

definition dlfree :: "malloc_params \<Rightarrow> os_answers \<Rightarrow> addr_t \<Rightarrow> unit dl" where
  "dlfree mp os a = free_call mp os a"

definition internal_free :: "malloc_params \<Rightarrow> os_answers \<Rightarrow> addr_t \<Rightarrow> addr_t \<Rightarrow> unit dl" where
  "internal_free mp os M a = (if is_global mp M then dlfree mp os a else free_call mp os a)"

definition dlcalloc :: "malloc_params \<Rightarrow> os_answers \<Rightarrow> size_t \<Rightarrow> size_t \<Rightarrow> addr_t dl" where
  "dlcalloc mp os n_elements elem_size =
     (let req = calloc_request n_elements elem_size in
      seq (dlmalloc mp os req) (\<lambda>a.
      seq (on_words (\<lambda>m. if a \<noteq> 0 \<and> calloc_must_clear m (mem2chunk a) then clear_bytes a req m else m)) (\<lambda>_. ret a)))"

definition dlrealloc :: "malloc_params \<Rightarrow> (nat \<Rightarrow> os_answers) \<Rightarrow> addr_t \<Rightarrow> size_t \<Rightarrow> addr_t dl" where
  "dlrealloc mp os oldmem nbytes =
     (if oldmem = 0 then dlmalloc mp (os 0) nbytes
      else if nbytes \<ge> MAX_REQUEST then ret 0
      else
        let nb = request2size nbytes; oldp = mem2chunk oldmem in
        seq (owner_of mp oldp) (\<lambda>M.
        seq (locked_realloc mp (os 0) M oldp nb True) (\<lambda>newp.
          if newp \<noteq> 0 then ret (chunk2mem newp)
          else
            seq (internal_malloc mp (os 1) M nbytes) (\<lambda>a.
              if a \<noteq> 0 then
                seq (on_words (copy_block a oldmem nbytes)) (\<lambda>_.
                seq (internal_free mp (os 2) M oldmem) (\<lambda>_. ret a))
              else ret 0))))"

definition dlrealloc_in_place :: "malloc_params \<Rightarrow> os_answers \<Rightarrow> addr_t \<Rightarrow> size_t \<Rightarrow> addr_t dl" where
  "dlrealloc_in_place mp os oldmem nbytes =
     (if oldmem = 0 \<or> nbytes \<ge> MAX_REQUEST then ret 0
      else
        let nb = request2size nbytes; oldp = mem2chunk oldmem in
        seq (owner_of mp oldp) (\<lambda>M.
        seq (locked_realloc mp os M oldp nb False) (\<lambda>newp. ret (if newp = oldp then oldmem else 0))))"

section \<open>Aligned blocks and groups\<close>

definition dlmemalign :: "malloc_params \<Rightarrow> (nat \<Rightarrow> os_answers) \<Rightarrow> size_t \<Rightarrow> size_t \<Rightarrow> addr_t dl" where
  "dlmemalign mp os alignment nbytes =
     (if alignment \<le> MALLOC_ALIGNMENT then dlmalloc mp (os 0) nbytes
      else internal_memalign mp os (gm_addr mp) alignment nbytes)"

definition EINVAL :: int where "EINVAL = 22"
definition ENOMEM :: int where "ENOMEM = 12"

definition posix_alignment_ok :: "size_t \<Rightarrow> bool" where
  "posix_alignment_ok alignment \<longleftrightarrow>
     (let d = alignment div 8; r = alignment mod 8 in \<not> (r \<noteq> 0 \<or> d = 0 \<or> d AND (d - 1) \<noteq> 0))"

definition posix_result :: "addr_t \<Rightarrow> addr_t \<Rightarrow> int dl" where
  "posix_result pp a = (if a = 0 then ret ENOMEM else seq (on_words (\<lambda>m. m(pp := a))) (\<lambda>_. ret 0))"

definition dlposix_memalign :: "malloc_params \<Rightarrow> (nat \<Rightarrow> os_answers) \<Rightarrow> addr_t \<Rightarrow> size_t \<Rightarrow> size_t \<Rightarrow> int dl" where
  "dlposix_memalign mp os pp alignment nbytes =
     (if alignment = MALLOC_ALIGNMENT then seq (dlmalloc mp (os 0) nbytes) (posix_result pp)
      else if \<not> posix_alignment_ok alignment then ret EINVAL
      else if nbytes \<le> MAX_REQUEST - alignment then
        seq (internal_memalign mp os (gm_addr mp) (if alignment < MIN_CHUNK_SIZE then MIN_CHUNK_SIZE else alignment) nbytes)
          (posix_result pp)
      else posix_result pp 0)"

definition dlvalloc :: "malloc_params \<Rightarrow> (nat \<Rightarrow> os_answers) \<Rightarrow> size_t \<Rightarrow> addr_t dl" where
  "dlvalloc mp os nbytes = dlmemalign mp os (page_size mp) nbytes"

definition dlpvalloc :: "malloc_params \<Rightarrow> (nat \<Rightarrow> os_answers) \<Rightarrow> size_t \<Rightarrow> addr_t dl" where
  "dlpvalloc mp os nbytes =
     (let pagesz = page_size mp in dlmemalign mp os pagesz ((nbytes + pagesz - 1) AND NOT (pagesz - 1)))"

definition dlindependent_calloc :: "malloc_params \<Rightarrow> os_answers \<Rightarrow> size_t \<Rightarrow> size_t \<Rightarrow> addr_t \<Rightarrow> addr_t dl" where
  "dlindependent_calloc mp os n_elements elem_size chunks =
     ialloc mp os (gm_addr mp) n_elements (\<lambda>_. elem_size) True True chunks"

definition dlindependent_comalloc :: "malloc_params \<Rightarrow> os_answers \<Rightarrow> size_t \<Rightarrow> (nat \<Rightarrow> size_t) \<Rightarrow> addr_t \<Rightarrow> addr_t dl" where
  "dlindependent_comalloc mp os n_elements sizes chunks = ialloc mp os (gm_addr mp) n_elements sizes False False chunks"

definition dlbulk_free :: "malloc_params \<Rightarrow> os_answers \<Rightarrow> addr_t \<Rightarrow> size_t \<Rightarrow> size_t dl" where
  "dlbulk_free mp os array nelem = internal_bulk_free mp os (gm_addr mp) array nelem"

section \<open>Limits, statistics and parameters\<close>

definition dlmalloc_trim :: "malloc_params \<Rightarrow> os_answers \<Rightarrow> size_t \<Rightarrow> bool dl" where
  "dlmalloc_trim mp os pad = on_mspace (gm_addr mp) (with_lock (sys_trim mp os (gm_addr mp) pad))"

definition dlmalloc_footprint :: "malloc_state \<Rightarrow> size_t" where
  "dlmalloc_footprint x = footprint x"

definition dlmalloc_max_footprint :: "malloc_state \<Rightarrow> size_t" where
  "dlmalloc_max_footprint x = max_footprint x"

definition dlmalloc_footprint_limit :: "malloc_state \<Rightarrow> size_t" where
  "dlmalloc_footprint_limit x = (let maf = footprint_limit x in if maf = 0 then MAX_SIZE_T else maf)"

definition dlmalloc_set_footprint_limit :: "malloc_params \<Rightarrow> size_t \<Rightarrow> malloc_state \<Rightarrow> size_t \<times> malloc_state" where
  "dlmalloc_set_footprint_limit mp nbytes x =
     (let result = (if nbytes = MAX_SIZE_T then 0 else granularity_align mp nbytes)
      in (result, x\<lparr>footprint_limit := result\<rparr>))"

definition dlmallinfo :: "malloc_params \<Rightarrow> mallinfo dl" where
  "dlmallinfo mp = on_mspace (gm_addr mp) (internal_mallinfo (gm_addr mp))"

definition dlmalloc_stats :: "malloc_params \<Rightarrow> (size_t \<times> size_t \<times> size_t) dl" where
  "dlmalloc_stats mp = on_mspace (gm_addr mp) (internal_malloc_stats (gm_addr mp))"

definition dlmallopt :: "size_t \<Rightarrow> size_t \<Rightarrow> uint \<Rightarrow> uint \<Rightarrow> (gl_state, bool) prog" where
  "dlmallopt psize now param_number x =
     seq (ensure_initialization psize now) (\<lambda>_ (mp, st).
       case change_mparam param_number x mp of (ok, mp1) \<Rightarrow> Returned ok (mp1, st))"

definition dlmalloc_usable_size :: "words \<Rightarrow> addr_t \<Rightarrow> size_t" where
  "dlmalloc_usable_size m a =
     (if a \<noteq> 0 then
        let p = mem2chunk a in
        if is_inuse m p then chunksize m p - overhead_for m p else 0
      else 0)"

end
