(* ===== verification/Dl_System_Props.thy ===== *)
theory Dl_System_Props
  imports Dl_System
begin

text \<open>
  What the exchange of memory with the system keeps and changes: the account of an mspace (its lock, flags
  and footprint), the search in the list of segments, the limit of the footprint, and the round trip of a
  chunk that is mapped directly.
\<close>

section \<open>The account of an mspace\<close>

definition same_account :: "heap \<Rightarrow> heap \<Rightarrow> bool" where
  "same_account h h' \<longleftrightarrow>
     mutex (ms h') = mutex (ms h) \<and> mflags (ms h') = mflags (ms h) \<and> footprint (ms h') = footprint (ms h)
     \<and> max_footprint (ms h') = max_footprint (ms h) \<and> footprint_limit (ms h') = footprint_limit (ms h)"

definition same_lock :: "heap \<Rightarrow> heap \<Rightarrow> bool" where
  "same_lock h h' \<longleftrightarrow> mutex (ms h') = mutex (ms h) \<and> use_lock (ms h') = use_lock (ms h)"

lemma same_account_refl [simp]: "same_account h h"
  by (simp add: same_account_def)

lemma same_account_trans: "same_account h h1 \<Longrightarrow> same_account h1 h2 \<Longrightarrow> same_account h h2"
  by (simp add: same_account_def)

lemma same_lock_refl [simp]: "same_lock h h"
  by (simp add: same_lock_def)

lemma same_lock_trans: "same_lock h h1 \<Longrightarrow> same_lock h1 h2 \<Longrightarrow> same_lock h h2"
  by (simp add: same_lock_def)

lemma same_books_account: "same_books h h' \<Longrightarrow> same_account h h'"
  by (simp add: same_books_def same_account_def)

lemma same_account_lock: "same_account h h' \<Longrightarrow> same_lock h h'"
  by (simp add: same_account_def same_lock_def use_lock_def)

lemma same_account_mem [simp]:
  "same_account h (upd_mem f h') \<longleftrightarrow> same_account h h'" "same_account (upd_mem f h) h' \<longleftrightarrow> same_account h h'"
  "same_account h (h'\<lparr>mem := m\<rparr>) \<longleftrightarrow> same_account h h'" "same_account (h\<lparr>mem := m\<rparr>) h' \<longleftrightarrow> same_account h h'"
  by (simp_all add: same_account_def)

lemma same_lock_mem [simp]:
  "same_lock h (upd_mem f h') \<longleftrightarrow> same_lock h h'" "same_lock (upd_mem f h) h' \<longleftrightarrow> same_lock h h'"
  by (simp_all add: same_lock_def)

lemma unlink_chunk_books: "unlink_chunk M P S h = Inr h' \<Longrightarrow> same_books h h'"
proof -
  have "unlink_small_chunk M P S h = Inr h' \<Longrightarrow> same_books h h'"
    by (auto simp: unlink_small_chunk_def Let_def split: if_splits)
  then show "unlink_chunk M P S h = Inr h' \<Longrightarrow> same_books h h'"
    by (auto simp: unlink_chunk_def dest: unlink_large_books split: if_splits)
qed

lemmas bin_accounts = unlink_chunk_books [THEN same_books_account] insert_chunk_books [THEN same_books_account]
  unlink_large_books [THEN same_books_account] insert_large_books [THEN same_books_account]

lemma init_top_account [simp]: "same_account h (init_top mp p psize h') \<longleftrightarrow> same_account h h'"
  by (simp add: init_top_def Let_def same_account_def)

lemma set_segment_account [simp]:
  "same_account h (set_segment M sp sg h') \<longleftrightarrow> same_account h h'"
  "same_account (set_segment M sp sg h) h' \<longleftrightarrow> same_account h h'"
  by (simp_all add: set_segment_def same_account_def)

lemma prepend_alloc_account:
  assumes "prepend_alloc mp M b0 b1 nb h = Inr (a, h')"
  shows "same_account h h'"
proof -
  have free: "same_account h h2"
    if "unlink_chunk M q n (upd_mem f h) = Inr h1" and "insert_chunk M q' n' (upd_mem g h1) = Inr h2" for q n f h1 q' n' g h2
    using bin_accounts(1) [OF that(1)] bin_accounts(2) [OF that(2)] by (auto intro: same_account_trans)
  have add: "same_account h h2" if "insert_chunk M q' n' (upd_mem g (upd_mem f h)) = Inr h2" for q' n' g f h2
    using bin_accounts(2) [OF that] by auto
  show ?thesis
    using assms unfolding prepend_alloc_def Let_def
    by (auto simp: res_bind_eq_Inr split: if_splits intro: free add) (simp_all add: same_account_def)
qed

lemma add_segment_account:
  assumes "add_segment mp M tbase tsize flag h = Inr h'"
  shows "same_account h h'"
proof -
  have seg: "same_account h (upd_ms (\<lambda>s. s\<lparr>seg := sg\<rparr>) h1) \<longleftrightarrow> same_account h h1"
    "same_account (upd_ms (\<lambda>s. s\<lparr>seg := sg\<rparr>) h) h1 \<longleftrightarrow> same_account h h1" for sg h h1
    by (simp_all add: same_account_def)
  have link: "same_account h h2" if "link_segment mp M new t e c h = Inr h2" for new t e c h h2
    using that by (auto simp: link_segment_def Let_def seg split: option.splits prod.splits if_splits dest!: bin_accounts(2))
  from assms show ?thesis
    by (auto simp: add_segment_def Let_def res_bind_eq_Inr split: if_splits dest!: link) (simp add: same_account_def init_top_def Let_def)
qed

lemma least_addr_account [simp]:
  "same_account h (upd_ms (\<lambda>s. if b s then s\<lparr>least_addr := a\<rparr> else s) h') \<longleftrightarrow> same_account h h'"
  "same_account (upd_ms (\<lambda>s. if b s then s\<lparr>least_addr := a\<rparr> else s) h) h' \<longleftrightarrow> same_account h h'"
  by (simp_all add: same_account_def)

lemma join_region_account:
  assumes "join_region mp M nb tbase tsize flag h = Inr (d, h')"
  shows "same_account h h'"
  using assms unfolding join_region_def Let_def
  by (auto simp: res_bind_eq_Inr split: if_splits dest!: prepend_alloc_account add_segment_account
      intro: same_account_trans)

lemma split_top_account [simp]: "same_account h (snd (split_top mp M nb h'))  \<longleftrightarrow> same_account h h'"
  by (simp add: split_top_def Let_def same_account_def)

lemma use_region_account:
  assumes "use_region mp M nb tbase tsize flag h = Inr (a, h')"
  shows "same_account (upd_ms (grow_footprint tsize) h) h'"
proof -
  have first: "same_account h (first_region mp M tbase tsize flag h)" for h
    by (simp add: first_region_def Let_def) (simp add: same_account_def)
  have top: "same_account h h2" if "same_account h h1" and "(a, h2) = split_top mp M nb h1" for h h1 a h2
    using that by (metis split_top_account snd_conv)
  show ?thesis
    using assms unfolding use_region_def Let_def
    by (auto simp: res_bind_eq_Inr split: if_splits option.splits dest!: join_region_account intro: first top)
qed

section \<open>The footprint\<close>

text \<open>
  The footprint is at most the recorded maximum, and at most the limit if one is set.
\<close>

definition footprint_ok :: "malloc_state \<Rightarrow> bool" where
  "footprint_ok s \<longleftrightarrow> footprint s \<le> max_footprint s \<and> (footprint_limit s = 0 \<or> footprint s \<le> footprint_limit s)"

lemma footprint_ok_account:
  "same_account h h' \<Longrightarrow> footprint_ok (ms h') = footprint_ok (ms h) \<and> footprint_limit (ms h') = footprint_limit (ms h)"
  by (simp add: same_account_def footprint_ok_def)

lemma footprint_ok_grow:
  assumes "footprint_allows n s"
  shows "footprint_ok (grow_footprint n s)"
  using assms by (auto simp: footprint_ok_def footprint_allows_def grow_footprint_def Let_def not_less not_le)

lemma grow_footprint_sel [simp]:
  "footprint_limit (grow_footprint n s) = footprint_limit s" "mflags (grow_footprint n s) = mflags s"
  "mutex (grow_footprint n s) = mutex s" "ms_magic (grow_footprint n s) = ms_magic s"
  "least_addr (grow_footprint n s) = least_addr s" "footprint (grow_footprint n s) = footprint s + n"
  by (simp_all add: grow_footprint_def Let_def)

lemma footprint_allows_least [simp]: "footprint_allows n (s\<lparr>least_addr := a\<rparr>) = footprint_allows n s"
  by (simp add: footprint_allows_def)

lemma mmap_alloc_footprint:
  assumes "mmap_alloc mp os M nb h = Inr (a, h')" and "footprint_ok (ms h)"
  shows "footprint_ok (ms h') \<and> footprint_limit (ms h') = footprint_limit (ms h) \<and> mflags (ms h') = mflags (ms h)"
  using assms by (auto simp: mmap_alloc_def Let_def intro!: footprint_ok_grow split: if_splits)

lemma noncontiguous_obtain:
  assumes "obtain_region mp os M nb asize h = Inr ((tbase, tsize), flag, h')" and "use_noncontiguous (ms h)"
    and "\<forall>n. call_morecore os 0 n \<noteq> MFAIL \<longrightarrow> call_morecore os 1 0 = call_morecore os 0 n + n" and "tbase \<noteq> MFAIL"
  shows "tsize = asize" and "h' = h"
  using assms by (auto simp: obtain_region_def contiguous_region_def noncontiguous_region_def Let_def split: if_splits)

section \<open>Chunks that are mapped directly\<close>

lemma page_align_granularity: "page_align mp s = granularity_align (mp\<lparr>granularity := page_size mp\<rparr>) s"
  by (simp add: page_align_def granularity_align_def)

definition mapped_size :: "malloc_params \<Rightarrow> size_t \<Rightarrow> size_t" where
  "mapped_size mp nb = page_align mp (nb + SIX_SIZE_T_SIZES + CHUNK_ALIGN_MASK)"

text \<open>The test \<^verbatim>\<open>mmsize > nb\<close> is enough to exclude every overflow of the size that is mapped.\<close>

lemma mapped_size_spec:
  assumes "page_size mp = 2 ^ k" and "4 \<le> k" and "k < 64" and "nb < mapped_size mp nb"
  shows "16 dvd unat (mapped_size mp nb)" and "unat nb + 63 \<le> unat (mapped_size mp nb)"
proof -
  have nb: "nb + SIX_SIZE_T_SIZES + CHUNK_ALIGN_MASK = nb + 63" by (simp add: SIX_SIZE_T_SIZES_def)
  note mask = unat_mask_size [OF assms(3)]
  have pk: "(2 :: nat) ^ k \<le> 2 ^ 63" using assms(3) by (intro power_increasing) auto
  have fits: "unat nb + 63 + 2 ^ k \<le> 2 ^ 64"
  proof (rule ccontr)
    assume "\<not> unat nb + 63 + 2 ^ k \<le> 2 ^ 64"
    moreover have "unat (nb + 63 + mask k) = (unat nb + 63 + (2 ^ k - 1)) mod 2 ^ 64"
      by (simp only: unat_word_ariths mask mod_add_left_eq) (simp add: mod_add_left_eq)
    moreover have "unat nb + 63 + (2 ^ k - 1) < 2 * 2 ^ 64" using pk unsigned_less [of nb, where ?'a = nat] by simp
    ultimately have "unat (nb + 63 + mask k) < unat nb" using pk by (auto simp: mod_if)
    moreover have "unat (mapped_size mp nb) \<le> unat (nb + 63 + mask k)"
      unfolding mapped_size_def page_align_def nb assms(1) mask_eq_exp_minus_1 [symmetric] and_not_mask [OF assms(3)]
      by simp
    ultimately show False using assms(4) by (simp add: word_less_nat_alt)
  qed
  moreover have "0 < (2 :: nat) ^ k" by simp
  ultimately have "unat nb + 63 < 2 ^ 64" by linarith
  then have u: "unat (nb + 63) = unat nb + 63" by (simp add: unat_word_ariths)
  note spec = granularity_align_spec [of "mp\<lparr>granularity := page_size mp\<rparr>" k "nb + 63", OF _ assms(2,3)]
  show "16 dvd unat (mapped_size mp nb)" "unat nb + 63 \<le> unat (mapped_size mp nb)"
    using spec(1,2) fits assms(1) u unfolding mapped_size_def page_align_granularity nb by simp_all
qed

text \<open>The words of a mapped chunk, and what the rest of the allocator reads there.\<close>

definition map_words :: "malloc_params \<Rightarrow> addr_t \<Rightarrow> addr_t \<Rightarrow> size_t \<Rightarrow> words \<Rightarrow> words" where
  "map_words mp M mm n m =
     set_head (mm + (n - 24)) 0
       (set_head (mm + (n - 32)) FENCEPOST_HEAD
         (mark_inuse_foot mp M mm (n - 32) (set_head mm (n - 32) (set_prev_foot mm 0 m))))"

lemma mapped_chunk:
  assumes "16 dvd unat n" and "64 \<le> unat n" and "m' = map_words mp M mm n m"
  shows "chunksize m' mm = n - 32" and "prev_foot m' mm = 0" and "\<not> pinuse m' mm" and "is_inuse m' mm"
    and "is_mmapped m' mm" and "get_mstate_for mp m' mm = M"
proof -
  have u: "unat (n - 32) = unat n - 32" using assms(2) by (simp add: unat_sub word_le_nat_alt)
  have ne: "n \<noteq> 16" "n \<noteq> 24" "n \<noteq> 32" "n \<noteq> 40" using assms(2) by auto
  have far: "mm + (n - 32) \<noteq> mm" "mm + (n - 32) \<noteq> mm + 8" "mm + (n - 32) + 8 \<noteq> mm" "mm + (n - 32) + 8 \<noteq> mm + 8"
    "mm + (n - 24) + 8 \<noteq> mm" "mm + (n - 24) + 8 \<noteq> mm + 8" "mm + (n - 24) + 8 \<noteq> mm + (n - 32)"
  proof -
    have shift: "mm + x \<noteq> mm + y" if "x - y \<noteq> 0" for x y :: addr_t using that by auto
    have "mm + (n - 32) \<noteq> mm + 0" "mm + (n - 32) \<noteq> mm + 8" "mm + (n - 32 + 8) \<noteq> mm + 0" "mm + (n - 32 + 8) \<noteq> mm + 8"
      "mm + (n - 24 + 8) \<noteq> mm + 0" "mm + (n - 24 + 8) \<noteq> mm + 8" "mm + (n - 24 + 8) \<noteq> mm + (n - 32)"
      by (rule shift, use ne in simp)+
    then show "mm + (n - 32) \<noteq> mm" "mm + (n - 32) \<noteq> mm + 8" "mm + (n - 32) + 8 \<noteq> mm" "mm + (n - 32) + 8 \<noteq> mm + 8"
      "mm + (n - 24) + 8 \<noteq> mm" "mm + (n - 24) + 8 \<noteq> mm + 8" "mm + (n - 24) + 8 \<noteq> mm + (n - 32)"
      unfolding add.assoc by simp_all
  qed
  have head: "head m' mm = n - 32" and pf: "prev_foot m' mm = 0" and foot: "prev_foot m' (mm + (n - 32)) = M XOR mp_magic mp"
    using far by (auto simp: assms(3) map_words_def field_defs mark_inuse_foot_def)
  have "n - 32 = push_bit 4 (drop_bit 4 (n - 32))" using u assms by (intro aligned_push) (simp add: dvd_diff_nat)
  moreover have "push_bit 4 t AND NOT (mask 3) = push_bit 4 t" "push_bit 4 t AND mask 2 = 0" "push_bit 4 t AND mask 1 = 0"
    for t :: size_t
    by (rule bit_word_eqI; (simp only: bit_simps; auto))+
  ultimately have bits: "(n - 32) AND - 8 = n - 32" "(n - 32) AND 3 = 0" "(n - 32) AND 1 = 0"
    unfolding mask_values [symmetric] by metis+
  show "chunksize m' mm = n - 32" "\<not> pinuse m' mm" "is_inuse m' mm" "is_mmapped m' mm"
    by (simp_all add: chunksize_def pinuse_def is_inuse_def is_mmapped_def head bits)
  then show "get_mstate_for mp m' mm = M" by (simp add: get_mstate_for_def foot xor.assoc)
  show "prev_foot m' mm = 0" by (rule pf)
qed

lemma mmap_alloc_mapped:
  assumes "mmap_alloc mp os M nb h = Inr (a, h')" and "a \<noteq> 0" and "16 dvd unat (direct_mmap os (mapped_size mp nb))"
  shows "a = chunk2mem (direct_mmap os (mapped_size mp nb))" and "nb < mapped_size mp nb"
    and "mem h' = map_words mp M (direct_mmap os (mapped_size mp nb)) (mapped_size mp nb) (mem h)"
    and "\<exists>l. ms h' = grow_footprint (mapped_size mp nb) ((ms h)\<lparr>least_addr := l\<rparr>) \<and> l \<le> direct_mmap os (mapped_size mp nb)"
proof -
  let ?mm = "direct_mmap os (mapped_size mp nb)"
  have off: "align_offset (chunk2mem ?mm) = 0" if "chunk2mem (?mm + align_offset (chunk2mem ?mm)) \<noteq> 0"
  proof (cases "unat ?mm + 16 < 2 ^ 64")
    case True
    then show ?thesis using assms(3) by (rule aligned_offset [rotated])
  next
    case False
    then have "2 ^ 64 - 16 \<le> unat ?mm" by simp
    moreover have "unat ?mm < 2 ^ 64" by (rule unsigned_less [where ?'a = nat, THEN less_le_trans]) simp
    moreover obtain q where "unat ?mm = 16 * q" using assms(3) by blast
    ultimately have "unat ?mm = 2 ^ 64 - 16" by simp
    then have "?mm = - 16" by (simp add: word_eq_iff_unsigned [where ?'a = nat])
    then show ?thesis by (simp add: align_offset_def chunk2mem_def)
  qed
  show "a = chunk2mem ?mm" "nb < mapped_size mp nb"
    "mem h' = map_words mp M ?mm (mapped_size mp nb) (mem h)"
    using assms(1,2) off unfolding mmap_alloc_def mapped_size_def [symmetric] Let_def
    by (auto simp: map_words_def chunk_plus_offset_def SIZE_T_SIZE_def split: if_splits)
  show "\<exists>l. ms h' = grow_footprint (mapped_size mp nb) ((ms h)\<lparr>least_addr := l\<rparr>) \<and> l \<le> ?mm"
    using assms(1,2) unfolding mmap_alloc_def mapped_size_def [symmetric] Let_def
    by (auto split: if_splits intro!: exI [where x = "if least_addr (ms h) = 0 \<or> ?mm < least_addr (ms h) then ?mm else least_addr (ms h)"])
qed

lemma footprint_unlocked: "\<not> mutex s \<Longrightarrow> s\<lparr>footprint := f, mutex := False\<rparr> = s\<lparr>footprint := f\<rparr>"
  by (cases s) simp

lemma free_mapped:
  assumes "16 dvd unat n" and "64 \<le> unat n" and "m = map_words mp M mm n m0" and "mm + 16 \<noteq> 0"
    and "ok_magic mp s" and "\<not> mutex s" and "least_addr s \<le> mm" and "munmap mm n"
  shows "mspace_free mp munmap (chunk2mem mm) (m, [M \<mapsto> s]) = Inr (Freed, m, [M \<mapsto> s\<lparr>footprint := footprint s - n\<rparr>])"
proof -
  note c = mapped_chunk [OF assms(1,2,3)]
  have chunk: "mem2chunk (chunk2mem mm) = mm" by (simp add: mem2chunk_def chunk2mem_def)
  have locked: "free_locked munmap M mm \<lparr>mem = m, ms = t\<rparr> = Inr (Freed, \<lparr>mem = m, ms = t\<lparr>footprint := footprint t - n\<rparr>\<rparr>)"
    if "least_addr t \<le> mm" for t
    using that assms(8) by (simp add: free_locked_def ok_address_def c unmap_chunk_def upd_ms_def)
  show ?thesis
    using assms(4-7) locked [of "s\<lparr>mutex := True\<rparr>"] locked [of s]
    by (simp add: mspace_free_def chunk c(6) PREACTION_def POSTACTION_def use_lock_def upd_ms_def)
      (simp add: chunk2mem_def footprint_unlocked)
qed

text \<open>
  C23: A chunk that \<^verbatim>\<open>mmap_alloc\<close> maps holds at least the size asked for, whatever the size, leads back to its mspace, and
  adds exactly the pages that were mapped to the footprint; freeing it unmaps exactly these pages and takes
  exactly them off again.
\<close>
theorem mmap_free_roundtrip:
  assumes "mmap_alloc mp os M nb h = Inr (a, h1)" and "a \<noteq> 0" and "ok_magic mp (ms h)" and "\<not> mutex (ms h)"
    and "page_size mp = 2 ^ k" and "4 \<le> k" and "k < 64" and "16 dvd unat (direct_mmap os (mapped_size mp nb))"
    and "munmap (direct_mmap os (mapped_size mp nb)) (mapped_size mp nb)" and "32 \<le> nb"
  shows "nb \<le> usable_size (mem h1) a \<and> get_mspace mp (mem h1) a = M
    \<and> footprint (ms h1) = footprint (ms h) + mapped_size mp nb
    \<and> mspace_free mp munmap a (mem h1, [M \<mapsto> ms h1]) = Inr (Freed, mem h1, [M \<mapsto> (ms h1)\<lparr>footprint := footprint (ms h)\<rparr>])"
proof -
  let ?n = "mapped_size mp nb" and ?mm = "direct_mmap os (mapped_size mp nb)"
  note al = mmap_alloc_mapped [OF assms(1,2,8)]
  note sz = mapped_size_spec [OF assms(5-7) al(2)]
  from al(4) obtain l where s: "ms h1 = grow_footprint ?n ((ms h)\<lparr>least_addr := l\<rparr>)" "l \<le> ?mm" by blast
  have "64 \<le> unat ?n" using sz(2) assms(10) by (simp add: word_le_nat_alt)
  note big = sz(1) this al(3)
  note c = mapped_chunk [OF big]
  have chunk: "mem2chunk a = ?mm" "a = ?mm + 16" using al(1) by (simp_all add: mem2chunk_def chunk2mem_def)
  have "unat (?n - 32 - 16) = unat ?n - 48" using big(2) by (simp add: unat_sub word_le_nat_alt)
  then have "nb \<le> usable_size (mem h1) a"
    using sz(2) assms(2) by (simp add: usable_size_def chunk(1) c overhead_for_def MMAP_CHUNK_OVERHEAD_def TWO_SIZE_T_SIZES_def word_le_nat_alt)
  moreover have "get_mspace mp (mem h1) a = M" using assms(2) by (simp add: get_mspace_def chunk(1) c)
  moreover have "mspace_free mp munmap (chunk2mem ?mm) (mem h1, [M \<mapsto> ms h1])
      = Inr (Freed, mem h1, [M \<mapsto> (ms h1)\<lparr>footprint := footprint (ms h1) - ?n\<rparr>])"
    using assms(2-4,9) chunk(2) s by (intro free_mapped [OF big]) (simp_all add: ok_magic_def)
  ultimately show ?thesis using al(1) s(1) by simp
qed

definition example_os :: os_answers where
  "example_os = \<lparr>direct_mmap = \<lambda>_. 0x8000000, call_mmap = \<lambda>_. 0x9000000, call_morecore = \<lambda>_ _. MFAIL,
     call_munmap = \<lambda>_ _. True, call_mremap = \<lambda>_ _ _ _. MFAIL\<rparr>"

definition example_heap :: heap where
  "example_heap = \<lparr>mem = (\<lambda>_. 0)(0x2008 := 4097),
     ms = \<lparr>smallmap = 0, treemap = 0, dvsize = 0, topsize = 4096, least_addr = 0x1000, dv = 0, top_chunk = 0x2000,
       trim_check = 0x200000, release_checks = 4095, ms_magic = mp_magic example_params, footprint = 0x10000,
       max_footprint = 0x10000, footprint_limit = 0x100000, mflags = 7, mutex = False,
       seg = \<lparr>seg_base = 0x1000, seg_size = 0x10000, seg_next = 0, seg_sflags = 1\<rparr>\<rparr>\<rparr>"

lemma example_mapped_size: "mapped_size example_params 0x50000 = 0x51000"
  by code_simp

lemma example_mapped: "\<exists>h1. mmap_alloc example_params example_os 0x1010 0x50000 example_heap = Inr (0x8000010, h1)"
proof -
  have "align_offset (chunk2mem 0x8000000) = 0" "is_aligned (chunk2mem 0x8000000)" "chunk2mem 0x8000000 = 0x8000010"
    by code_simp+
  moreover have "direct_mmap example_os n = 0x8000000" for n by (simp add: example_os_def)
  ultimately show ?thesis
    unfolding mmap_alloc_def mapped_size_def [symmetric] example_mapped_size Let_def
    by (simp add: footprint_allows_def example_heap_def Let_def MFAIL_def)
qed

theorem mmap_free_roundtrip_witness:
  "\<exists>h1. mmap_alloc example_params example_os 0x1010 0x50000 example_heap = Inr (0x8000010, h1)
    \<and> footprint (ms h1) = 0x61000
    \<and> mspace_free example_params (\<lambda>_ _. True) 0x8000010 (mem h1, [0x1010 \<mapsto> ms h1])
        = Inr (Freed, mem h1, [0x1010 \<mapsto> (ms h1)\<lparr>footprint := 0x10000\<rparr>])"
proof -
  obtain h1 where h1: "mmap_alloc example_params example_os 0x1010 0x50000 example_heap = Inr (0x8000010, h1)"
    using example_mapped by blast
  have "ok_magic example_params (ms example_heap)" "\<not> mutex (ms example_heap)" "page_size example_params = 2 ^ 12"
    "16 dvd unat (direct_mmap example_os (mapped_size example_params 0x50000))" "footprint (ms example_heap) = 0x10000"
    by (simp_all add: ok_magic_def example_heap_def example_params_def example_os_def)
  with mmap_free_roundtrip [OF h1, of 12 "\<lambda>_ _. True"] h1 show ?thesis by (simp add: example_mapped_size)
qed

text \<open>
  C24: An mspace that was created with its own memory never grows beyond the limit of its footprint, as long as
  \<^verbatim>\<open>sbrk(0)\<close> gives the end of what \<^verbatim>\<open>sbrk\<close> has just handed out: whatever way \<^verbatim>\<open>sys_alloc\<close> finds memory, the limit
  holds afterwards, and so does the recorded maximum.
\<close>
theorem sys_alloc_keeps_limit:
  assumes "sys_alloc mp os M nb h = Inr (a, h')" and "use_noncontiguous (ms h)" and "footprint_ok (ms h)"
    and "\<forall>n. call_morecore os 0 n \<noteq> MFAIL \<longrightarrow> call_morecore os 1 0 = call_morecore os 0 n + n"
  shows "footprint_ok (ms h') \<and> footprint_limit (ms h') = footprint_limit (ms h)"
proof -
  from assms(1) obtain a1 h1 where
    h1: "mmap_alloc mp os M nb h = Inr (a1, h1) \<or> h1 = h" and
    cont: "h' = h1 \<or> (\<exists>asize r flag h2. footprint_allows asize (ms h1) \<and> obtain_region mp os M nb asize h1 = Inr (r, flag, h2)
      \<and> (if fst r \<noteq> MFAIL then use_region mp M nb (fst r) (snd r) flag h2 = Inr (a, h') else h' = h2))"
    by (fastforce simp: sys_alloc_def res_bind_eq_Inr Let_def split: if_splits)
  from h1 mmap_alloc_footprint assms(2,3) have ok1: "footprint_ok (ms h1)" "use_noncontiguous (ms h1)"
    "footprint_limit (ms h1) = footprint_limit (ms h)" by (auto simp: use_noncontiguous_def)
  have "footprint_ok (ms h') \<and> footprint_limit (ms h') = footprint_limit (ms h1)"
    if "footprint_allows asize (ms h1)" "obtain_region mp os M nb asize h1 = Inr (r, flag, h2)"
      "if fst r \<noteq> MFAIL then use_region mp M nb (fst r) (snd r) flag h2 = Inr (a, h') else h' = h2" for asize r flag h2
  proof (cases "fst r = MFAIL")
    case True
    with that ok1 show ?thesis
      by (cases r) (auto simp: obtain_region_def contiguous_region_def split: if_splits)
  next
    case False
    with noncontiguous_obtain [of mp os M nb asize h1 "fst r" "snd r" flag h2] that(2) ok1(2) assms(4)
    have r: "snd r = asize" "h2 = h1" by auto
    with that(3) False have "same_account (upd_ms (grow_footprint asize) h1) h'" by (auto intro: use_region_account)
    from footprint_ok_account [OF this] footprint_ok_grow [OF that(1)] show ?thesis by simp
  qed
  with cont ok1 show ?thesis by auto
qed

theorem sys_alloc_keeps_limit_witness:
  "\<exists>a h1. sys_alloc example_params example_os 0x1010 0x50000 example_heap = Inr (a, h1) \<and> a = 0x8000010
    \<and> footprint_ok (ms h1) \<and> footprint_limit (ms h1) = 0x100000"
proof -
  obtain h1 where h1: "mmap_alloc example_params example_os 0x1010 0x50000 example_heap = Inr (0x8000010, h1)"
    using example_mapped by blast
  have s: "sys_alloc example_params example_os 0x1010 0x50000 example_heap = Inr (0x8000010, h1)"
    using h1 by (simp add: sys_alloc_def use_mmap_def USE_MMAP_BIT_def) (simp add: example_heap_def example_params_def)
  have "use_noncontiguous (ms example_heap)" "footprint_ok (ms example_heap)" "footprint_limit (ms example_heap) = 0x100000"
    by (simp_all add: use_noncontiguous_def USE_NONCONTIGUOUS_BIT_def footprint_ok_def example_heap_def)
  with sys_alloc_keeps_limit [OF s] s show ?thesis by (simp add: example_os_def)
qed

end
