(* ===== verification/Dl_Locks.thy ===== *)
theory Dl_Locks
  imports Dl_Global Dl_System_Props
begin

text \<open>
  The discipline of the locks: what runs between \<^verbatim>\<open>PREACTION\<close> and \<^verbatim>\<open>POSTACTION\<close> leaves the lock alone, so a call that
  returns has released every lock it took.
\<close>

section \<open>Operations inside the lock\<close>

lemma same_lock_of_books: "same_books h h' \<Longrightarrow> same_lock h h'"
  by (rule same_account_lock [OF same_books_account])

lemmas bin_locks = bin_accounts [THEN same_account_lock]

text \<open>Fields that have nothing to do with the lock.\<close>

lemma same_lock_fields [simp]:
  "same_lock h (upd_ms (\<lambda>s. s\<lparr>footprint := f s\<rparr>) h') \<longleftrightarrow> same_lock h h'"
  "same_lock h (upd_ms (\<lambda>s. s\<lparr>dvsize := n\<rparr>) h') \<longleftrightarrow> same_lock h h'"
  "same_lock h (upd_ms (\<lambda>s. s\<lparr>dvsize := n, dv := p\<rparr>) h') \<longleftrightarrow> same_lock h h'"
  "same_lock h (upd_ms (\<lambda>s. s\<lparr>dv := p, dvsize := n\<rparr>) h') \<longleftrightarrow> same_lock h h'"
  "same_lock h (upd_ms (\<lambda>s. s\<lparr>topsize := n, top_chunk := p\<rparr>) h') \<longleftrightarrow> same_lock h h'"
  "same_lock h (upd_ms (\<lambda>s. s\<lparr>top_chunk := p, topsize := n\<rparr>) h') \<longleftrightarrow> same_lock h h'"
  "same_lock h (upd_ms (\<lambda>s. s\<lparr>release_checks := g s\<rparr>) h') \<longleftrightarrow> same_lock h h'"
  "same_lock h (upd_ms (\<lambda>s. s\<lparr>trim_check := n\<rparr>) h') \<longleftrightarrow> same_lock h h'"
  "same_lock h (upd_ms (grow_footprint n) h') \<longleftrightarrow> same_lock h h'"
  "same_lock h (set_segment M sp sg h') \<longleftrightarrow> same_lock h h'"
  "same_lock h (init_top mp p psize h') \<longleftrightarrow> same_lock h h'"
  by (simp_all add: same_lock_def use_lock_def set_segment_def init_top_def Let_def)

lemma same_lock_left [simp]:
  "same_lock (upd_ms (\<lambda>s. s\<lparr>dv := p, dvsize := n\<rparr>) h) h' \<longleftrightarrow> same_lock h h'"
  "same_lock (upd_ms (grow_footprint n) h) h' \<longleftrightarrow> same_lock h h'"
  by (simp_all add: same_lock_def use_lock_def)

lemma dispose_chunk_lock:
  assumes "dispose_chunk munmap M p psize h = Inr h'"
  shows "same_lock h h'"
proof -
  have forward: "same_lock h h2" if "dispose_forward M q n nxt h = Inr h2" for q n nxt h h2
    using that by (auto simp: dispose_forward_def grow_top_def grow_dv_def Let_def res_bind_eq_Inr split: if_splits
        dest!: bin_locks(1,2) intro: same_lock_trans)
  from assms show ?thesis
    by (auto simp: dispose_chunk_def unmap_chunk_def Let_def res_bind_eq_Inr split: if_splits
        dest!: forward bin_locks(1) intro: same_lock_trans)
qed

lemma split_inuse_lock: "split_inuse mp os M p nb rs h = Inr h' \<Longrightarrow> same_lock h h'"
  by (auto simp: split_inuse_def Let_def dest!: dispose_chunk_lock)

lemma mmap_resize_lock: "mmap_resize mp os M p nb can_move h = (q, h') \<Longrightarrow> same_lock h h'"
  by (auto simp: mmap_resize_def Let_def same_lock_def use_lock_def split: if_splits)

lemma try_realloc_lock:
  assumes "try_realloc_chunk mp os M p nb can_move h = Inr (q, h')"
  shows "same_lock h h'"
proof -
  have top: "same_lock h h2" if "extend_into_top mp M p n nb h = (q, h2)" for n h2
    using that by (auto simp: extend_into_top_def Let_def split: if_splits)
  have dv: "same_lock h h2" if "extend_into_dv mp M p n nb h = (q, h2)" for n h2
    using that by (auto simp: extend_into_dv_def Let_def split: if_splits)
  from assms show ?thesis
    by (auto simp: try_realloc_chunk_def Let_def res_bind_eq_Inr split: if_splits
        dest: top dv mmap_resize_lock split_inuse_lock dest!: bin_locks(1) intro: same_lock_trans)
qed

lemma free_locked_lock:
  assumes "free_locked munmap M p h = Inr (e, h')"
  shows "same_lock h h'"
proof -
  have bin: "same_lock h h2" if "free_into_bin M q n h = Inr (e, h2)" for q n h h2
    using that by (auto simp: free_into_bin_def Let_def res_bind_eq_Inr split: if_splits
        dest!: insert_small_books insert_large_books same_lock_of_books)
  have forward: "same_lock h h2" if "free_forward M q n nxt h = Inr (e, h2)" for q n nxt h h2
    using that by (auto simp: free_forward_def grow_top_def grow_dv_def Let_def res_bind_eq_Inr split: if_splits
        dest!: bin bin_locks(1) intro: same_lock_trans)
  from assms show ?thesis
    by (auto simp: free_locked_def unmap_chunk_def Let_def res_bind_eq_Inr split: if_splits
        dest!: forward bin_locks(1) intro: same_lock_trans)
qed

lemma sys_alloc_lock:
  assumes "sys_alloc mp os M nb h = Inr (a, h')"
  shows "same_lock h h'"
proof -
  have noncontiguous: "same_lock h (upd_ms disable_contiguous h)" for h
  proof -
    have "(f OR 4) AND 2 = f AND 2" for f :: uint by (simp add: bit.conj_disj_distrib2)
    then show ?thesis
      by (simp add: same_lock_def use_lock_def disable_contiguous_def USE_LOCK_BIT_def USE_NONCONTIGUOUS_BIT_def)
  qed
  have contiguous: "same_lock h h2" if "contiguous_region mp os M nb n h = Inr (r, k, h2)" for n r k h h2
    using that unfolding contiguous_region_def
    by (auto simp: res_bind_eq_Inr Let_def noncontiguous split: if_split_asm prod.split_asm)
  have obtained: "same_lock h h2" if "obtain_region mp os M nb n h = Inr (r, flag, h2)" for n r flag h h2
    using that unfolding obtain_region_def
    by (auto simp: res_bind_eq_Inr dest: contiguous split: if_split_asm)
  have used: "same_lock h h2" if "use_region mp M nb b n flag h = Inr (a, h2)" for b n flag h a h2
    using use_region_account [OF that, THEN same_account_lock] by simp
  have mapped: "same_lock h h2" if "mmap_alloc mp os M nb h = Inr (a, h2)" for a h h2
    using that by (auto simp: mmap_alloc_def Let_def same_lock_def use_lock_def split: if_splits)
  from assms show ?thesis
    by (auto simp: sys_alloc_def Let_def res_bind_eq_Inr split: if_splits prod.splits
        dest!: obtained used mapped intro: same_lock_trans)
qed

lemma res_while_inv:
  assumes "res_while b c s = Inr t" and "P s" and "\<And>s s'. P s \<Longrightarrow> b s \<Longrightarrow> c s = Inr s' \<Longrightarrow> P s'"
  shows "P t"
proof -
  let ?P = "\<lambda>r. case r of Inl _ \<Rightarrow> True | Inr s \<Rightarrow> P s"
  from assms(1) have "while_option (\<lambda>r. case r of Inl _ \<Rightarrow> False | Inr s \<Rightarrow> b s) (\<lambda>r. res_bind r c) (Inr s) = Some (Inr t)"
    by (simp add: res_while_def split: option.splits)
  from while_option_rule [where P = ?P, OF _ this] assms(2,3) show ?thesis
    by (fastforce split: sum.splits)
qed

lemma release_unused_lock:
  assumes "release_unused_segments os M h = Inr (n, h')"
  shows "same_lock h h'"
proof -
  have seg: "same_lock h h2" if "release_segment os M pred sp h = Inr (p, n, h2)" for pred sp h p n h2
    using that by (auto simp: release_segment_def Let_def res_bind_eq_Inr split: if_splits
        dest!: bin_locks(3,4) intro: same_lock_trans)
  from assms obtain r where r: "same_lock (rl_heap r) h'" and
    loop: "res_while (\<lambda>r. rl_sp r \<noteq> 0)
         (\<lambda>r. let nxt = seg_next (segment_at M (rl_heap r) (rl_sp r)) in
            res_bind (release_segment os M (rl_pred r) (rl_sp r) (rl_heap r)) (\<lambda>(pred, n, h1).
              Inr \<lparr>rl_pred = pred, rl_sp = nxt, rl_released = rl_released r + n, rl_nsegs = Suc (rl_nsegs r), rl_heap = h1\<rparr>))
         \<lparr>rl_pred = seg_ptr M, rl_sp = seg_next (segment_at M h (seg_ptr M)), rl_released = 0, rl_nsegs = 0, rl_heap = h\<rparr>
       = Inr r"
    by (auto simp: release_unused_segments_def res_bind_eq_Inr Let_def)
  have "same_lock h (rl_heap r)"
    by (rule res_while_inv [OF loop]) (auto simp: Let_def res_bind_eq_Inr dest!: seg intro: same_lock_trans)
  then show ?thesis using r by (rule same_lock_trans)
qed

lemma sys_trim_lock:
  assumes "sys_trim mp os M pad h = Inr (r, h')"
  shows "same_lock h h'"
proof -
  have top: "same_lock h h2" if "trim_top mp os M n h = Inr (k, h2)" for n k h2
    using that by (auto simp: trim_top_def Let_def res_bind_eq_Inr split: if_splits)
  from assms show ?thesis
    by (auto simp: sys_trim_def Let_def res_bind_eq_Inr split: if_splits dest!: top release_unused_lock intro: same_lock_trans)
qed

lemma bulk_free_loop_lock: "bulk_free_loop mp os M k a unfreed h = Inr (n, h') \<Longrightarrow> same_lock h h'"
proof (induction k arbitrary: M a unfreed h)
  case (Suc k)
  from Suc.prems show ?case
    by (auto simp: Let_def res_bind_eq_Inr split: if_splits dest!: Suc.IH dispose_chunk_lock intro: same_lock_trans)
qed simp

lemma align_locked_lock: "align_locked mp os M alignment nb a h = Inr (p, h') \<Longrightarrow> same_lock h h'"
  by (auto simp: align_locked_def move_to_spot_def trim_aligned_def Let_def res_bind_eq_Inr split: if_splits
      dest!: dispose_chunk_lock split_inuse_lock intro: same_lock_trans)

section \<open>The contract of an operation inside the lock\<close>

lemma unlocked_again:
  assumes "PREACTION h = Inr h1" and "same_lock h1 h2" and "\<not> mutex (ms h)"
  shows "\<not> mutex (ms (POSTACTION h2))"
  using assms by (auto simp: PREACTION_def POSTACTION_def same_lock_def use_lock_def split: if_splits)

locale lock_neutral =
  fixes f :: "heap \<Rightarrow> ('a \<times> heap) res"
  assumes neutral: "f h = Inr (a, h') \<Longrightarrow> same_lock h h'"
begin

lemma released: "with_lock f h = Inr (a, h') \<Longrightarrow> \<not> mutex (ms h) \<Longrightarrow> \<not> mutex (ms h')"
  by (auto simp: with_lock_def res_bind_eq_Inr dest!: neutral unlocked_again)

end

interpretation realloc_locked: lock_neutral "try_realloc_chunk mp os M p nb can_move" for mp os M p nb can_move
  by unfold_locales (rule try_realloc_lock)


interpretation aligned_locked: lock_neutral "align_locked mp os M alignment nb a" for mp os M alignment nb a
  by unfold_locales (rule align_locked_lock)

interpretation bulk_locked: lock_neutral "bulk_free_locked mp os M array nelem" for mp os M array nelem
  by unfold_locales (auto simp: bulk_free_locked_def res_bind_eq_Inr split: if_splits
      dest!: bulk_free_loop_lock sys_trim_lock intro: same_lock_trans)

interpretation group_locked: lock_neutral "ialloc_locked mp M n sizes all_same zeroed chunks csize asize a"
  for mp M n sizes all_same zeroed chunks csize asize a
  by unfold_locales (auto simp: ialloc_locked_def Let_def split: if_splits)

section \<open>Whole calls\<close>

text \<open>No lock of the process is held.\<close>

definition quiet :: "dl_state \<Rightarrow> bool" where
  "quiet st \<longleftrightarrow> (case st of (s, m, spaces) \<Rightarrow> \<forall>M x. spaces M = Some x \<longrightarrow> \<not> mutex x)"

definition leaves_quiet :: "'a dl \<Rightarrow> bool" where
  "leaves_quiet p \<longleftrightarrow> (\<forall>st a st'. quiet st \<longrightarrow> p st = Returned a st' \<longrightarrow> quiet st')"

named_theorems quiet_intros

lemma leaves_quiet_ret [quiet_intros]: "leaves_quiet (ret a)"
  by (simp add: leaves_quiet_def ret_def)

lemma leaves_quiet_seq [quiet_intros]: "leaves_quiet p \<Longrightarrow> (\<And>a. leaves_quiet (k a)) \<Longrightarrow> leaves_quiet (seq p k)"
  unfolding leaves_quiet_def seq_eq_Returned by metis

lemma leaves_quiet_if [quiet_intros]: "leaves_quiet p \<Longrightarrow> leaves_quiet q \<Longrightarrow> leaves_quiet (if b then p else q)"
  by simp

lemma leaves_quiet_on [quiet_intros]:
  assumes "\<And>h a h'. f h = Inr (a, h') \<Longrightarrow> \<not> mutex (ms h) \<Longrightarrow> \<not> mutex (ms h')"
  shows "leaves_quiet (on_mspace M f)"
  using assms by (fastforce simp: leaves_quiet_def quiet_def on_mspace_def split: option.splits sum.splits prod.splits if_splits)

lemma quiet_upd: "quiet (s, m, spaces) \<Longrightarrow> \<not> mutex x \<Longrightarrow> quiet (s', m', spaces(M \<mapsto> x))"
  by (simp add: quiet_def)

lemma leaves_quiet_words [quiet_intros]: "leaves_quiet (on_words f)" "leaves_quiet (owner_of mp p)"
  by (simp_all add: leaves_quiet_def quiet_def on_words_def owner_of_def split: prod.splits)

lemma leaves_quiet_magic [quiet_intros]: "leaves_quiet (check_magic mp M)"
  unfolding check_magic_def by (rule leaves_quiet_on) auto

lemma locked_malloc_unlocks:
  assumes "locked_malloc mp M req h = Inr (e, h')"
  shows "\<exists>h1 h2. PREACTION h = Inr h1 \<and> same_lock h1 h2 \<and> h' = (case e of Mem _ \<Rightarrow> POSTACTION h2 | Sys_alloc _ \<Rightarrow> h2)"
  using assms by (auto simp: locked_malloc_def res_bind_eq_Inr dest!: malloc_locked_books same_lock_of_books)

lemma complete_malloc_quiet:
  assumes start: "\<And>h e h'. f h = Inr (e, h') \<Longrightarrow> locked_malloc mp M nbytes h = Inr (e, h')"
  shows "leaves_quiet (seq (on_mspace M f) (complete_malloc mp os M))"
proof (unfold leaves_quiet_def, intro allI impI)
  fix st a st'
  assume q: "quiet st" and r: "seq (on_mspace M f) (complete_malloc mp os M) st = Returned a st'"
  obtain s m spaces where st: "st = (s, m, spaces)" by (cases st)
  from r obtain e st1 where one: "on_mspace M f st = Returned e st1"
    and two: "(case e of Mem a \<Rightarrow> ret a
       | Sys_alloc nb \<Rightarrow> seq (in_process BOP_abort_spec) (\<lambda>_.
             on_mspace M (\<lambda>h. res_bind (sys_alloc mp os M nb h) (\<lambda>(a, h1). Inr (a, POSTACTION h1))))) st1 = Returned a st'"
    by (auto simp: complete_malloc_def seq_eq_Returned)
  from one st obtain x h1 where x: "spaces M = Some x" "locked_malloc mp M nbytes (mk_heap m x) = Inr (e, h1)"
    "st1 = (s, heap.mem h1, spaces(M \<mapsto> ms h1))"
    by (auto simp: on_mspace_def split: option.splits sum.splits dest: start)
  with q st have free: "\<not> mutex (ms (mk_heap m x))" by (auto simp: quiet_def)
  from locked_malloc_unlocks [OF x(2)] obtain h0 h2 where h2: "PREACTION (mk_heap m x) = Inr h0" "same_lock h0 h2"
    "h1 = (case e of Mem _ \<Rightarrow> POSTACTION h2 | Sys_alloc _ \<Rightarrow> h2)" by blast
  show "quiet st'"
  proof (cases e)
    case (Mem b)
    with two x(3) h2(3) unlocked_again [OF h2(1,2) free] q st show ?thesis by (auto intro: quiet_upd)
  next
    case (Sys_alloc nb)
    with two x(3) h2(3) obtain s' h3 where h3: "sys_alloc mp os M nb (mk_heap (heap.mem h2) (ms h2)) = Inr (a, h3)"
      "st' = (s', heap.mem (POSTACTION h3), spaces(M \<mapsto> ms (POSTACTION h3)))"
      by (auto simp: seq_eq_Returned in_process_def on_mspace_def res_bind_eq_Inr split: outcome.splits option.splits sum.splits)
    have "same_lock h0 h3" using sys_alloc_lock [OF h3(1)] h2(2) by (simp add: same_lock_def)
    with h3(2) unlocked_again [OF h2(1) _ free, of h3] q st show ?thesis by (auto intro: quiet_upd)
  qed
qed

lemma malloc_call_quiet [quiet_intros]:
  "leaves_quiet (malloc_call mp os M nbytes)" "leaves_quiet (dlmalloc mp os nbytes)" "leaves_quiet (internal_malloc mp os M nbytes)"
proof -
  show call: "leaves_quiet (malloc_call mp os M nbytes)"
    unfolding malloc_call_def by (rule complete_malloc_quiet [of _ _ _ nbytes]) (simp add: mspace_malloc_def)
  show gcall: "leaves_quiet (dlmalloc mp os nbytes)"
    unfolding dlmalloc_def by (rule complete_malloc_quiet)
  show "leaves_quiet (internal_malloc mp os M nbytes)" unfolding internal_malloc_def using call gcall by simp
qed

lemma free_call_quiet [quiet_intros]: "leaves_quiet (free_call mp os a)"
proof (unfold leaves_quiet_def, intro allI impI)
  fix st u st'
  assume q: "quiet st" and r: "free_call mp os a st = Returned u st'"
  obtain s m spaces where st: "st = (s, m, spaces)" by (cases st)
  let ?M = "get_mstate_for mp m (mem2chunk a)"
  from r st obtain m' spaces' where f: "mspace_free_all mp os a (m, spaces) = Inr (m', spaces')" "st' = (s, m', spaces')"
    by (auto simp: free_call_def split: sum.splits)
  then obtain e m1 spaces1 where e: "mspace_free mp (call_munmap os) a (m, spaces) = Inr (e, m1, spaces1)"
    and rest: "if e = Freed then (m', spaces') = (m1, spaces1)
      else \<exists>x h. spaces1 ?M = Some x \<and> finish_free mp os ?M e (mk_heap m1 x) = Inr h \<and> (m', spaces') = (heap.mem h, spaces1(?M \<mapsto> ms h))"
    by (auto simp: mspace_free_all_def res_bind_eq_Inr Let_def split: if_splits option.splits)
  show "quiet st'"
  proof (cases "a = 0")
    case True
    with e rest q st f(2) show ?thesis by (simp add: mspace_free_def)
  next
    case False
    with e obtain x h0 h1 where x: "spaces ?M = Some x" "PREACTION (mk_heap m x) = Inr h0"
      "free_locked (call_munmap os) ?M (mem2chunk a) h0 = Inr (e, h1)"
      "spaces1 = spaces(?M \<mapsto> ms (if e = Freed then POSTACTION h1 else h1))"
      by (auto simp: mspace_free_def Let_def res_bind_eq_Inr mk_heap_def split: option.splits if_splits)
    have free: "\<not> mutex (ms (mk_heap m x))" using q st x(1) by (auto simp: quiet_def)
    note same = free_locked_lock [OF x(3)]
    show ?thesis
    proof (cases "e = Freed")
      case True
      with rest f(2) x(4) unlocked_again [OF x(2) same free] q st show ?thesis by (auto intro: quiet_upd)
    next
      case False
      with rest x(4) f(2) obtain h where h: "finish_free mp os ?M e (mk_heap m1 (ms h1)) = Inr h"
        "st' = (s, heap.mem h, spaces(?M \<mapsto> ms h))" by auto
      from h(1) False obtain h2 where "same_lock (mk_heap m1 (ms h1)) h2" "h = POSTACTION h2"
        by (auto simp: finish_free_def res_bind_eq_Inr split: free_exit.splits dest: sys_trim_lock release_unused_lock)
      moreover from this(1) have "same_lock h0 h2" using same by (simp add: same_lock_def)
      ultimately show ?thesis using unlocked_again [OF x(2) _ free, of h2] h(2) q st by (auto intro: quiet_upd)
    qed
  qed
qed

text \<open>The parts that the calls on mspaces and those on the global heap share.\<close>

lemma shared_calls_quiet [quiet_intros]:
  "leaves_quiet (locked_realloc mp os M p nb can_move)"
  "leaves_quiet (internal_memalign mp oss M alignment nbytes)"
  "leaves_quiet (ialloc mp os M n sizes all_same zeroed chunks)"
  "leaves_quiet (internal_bulk_free mp os M array nelem)"
  "leaves_quiet (posix_result pp a)"
proof -
  show "leaves_quiet (locked_realloc mp os M p nb can_move)"
    unfolding locked_realloc_def by (rule leaves_quiet_on) (auto dest: realloc_locked.released)
  show "leaves_quiet (internal_memalign mp oss M alignment nbytes)"
    unfolding internal_memalign_def Let_def
    by (auto intro!: quiet_intros dest: aligned_locked.released split: option.splits) (simp add: leaves_quiet_def)
  show "leaves_quiet (ialloc mp os M n sizes all_same zeroed chunks)"
    unfolding ialloc_def Let_def
    by (auto intro!: quiet_intros dest: group_locked.released simp: disable_mmap_def enable_mmap_def split: if_splits)
  show "leaves_quiet (internal_bulk_free mp os M array nelem)"
    unfolding internal_bulk_free_def by (rule leaves_quiet_on) (rule bulk_locked.released)
  show "leaves_quiet (posix_result pp a)"
    unfolding posix_result_def by (intro quiet_intros)
qed


end
