(* ===== verification/Dl_Call_Props.thy ===== *)
theory Dl_Call_Props
  imports Dl_Locks
begin

text \<open>
  Properties of the calls of \<open>Dl_Calls\<close>: what \<^verbatim>\<open>calloc\<close> asks for and what its block holds, and how \<^verbatim>\<open>realloc\<close> grows a block
  in place.
\<close>

section \<open>calloc\<close>

lemma calloc_request_exact:
  "unat (calloc_request n e) = (if unat n * unat e < 2 ^ 64 then unat n * unat e else 2 ^ 64 - 1)"
proof (cases "n = 0")
  case False
  then have n: "0 < unat n" by (simp add: unat_gt_0)
  have u: "unat (n * e) = unat n * unat e mod 2 ^ 64" by (simp add: unat_word_ariths)
  have small: "unat n * unat e < 2 ^ 64" if "(n OR e) AND NOT 0xffff = 0"
  proof -
    have "w AND NOT (mask 16) = 0 \<Longrightarrow> unat w < 2 ^ 16" for w :: size_t
    proof -
      assume "w AND NOT (mask 16) = 0"
      then have "2 ^ 16 * (unat w div 2 ^ 16) = 0" using and_not_mask [of 16 w] by simp
      then show ?thesis by (simp add: div_eq_0_iff)
    qed
    moreover have "n AND NOT (mask 16) = 0" "e AND NOT (mask 16) = 0"
      using that by (simp_all add: mask_eq_exp_minus_1 bit.conj_disj_distrib2 or_eq_0_iff)
    ultimately have "unat n * unat e < 2 ^ 16 * 2 ^ 16" by (intro mult_strict_mono) auto
    then show ?thesis by simp
  qed
  have over: "n * e div n = e \<longleftrightarrow> unat n * unat e < 2 ^ 64"
  proof
    assume "n * e div n = e"
    then have "unat n * unat e mod 2 ^ 64 div unat n = unat e" by (metis u unat_div_distrib)
    then have "unat n * unat e \<le> unat n * unat e mod 2 ^ 64" by (metis div_times_less_eq_dividend mult.commute)
    moreover have "unat n * unat e mod 2 ^ 64 < 2 ^ 64" by simp
    ultimately show "unat n * unat e < 2 ^ 64" by linarith
  next
    assume "unat n * unat e < 2 ^ 64"
    then have "unat (n * e div n) = unat e" using u n by (simp add: unat_div_distrib)
    then show "n * e div n = e" by (simp add: word_eq_iff_unsigned [where ?'a = nat])
  qed
  show ?thesis
    using False small over u by (auto simp: calloc_request_def Let_def unsigned_minus_1_eq_mask mask_eq_exp_minus_1)
qed (simp add: calloc_request_def)

lemma max_word: "- 1 \<le> x \<longleftrightarrow> x = - 1" for x :: size_t
  by (auto intro: order.antisym)

lemma sys_alloc_too_big: "sys_alloc mp os M (- 1) h = Inr (0, h)"
  by (simp add: sys_alloc_def mmap_alloc_def Let_def)

lemma malloc_call_too_big:
  assumes "malloc_call mp os M req (s, m, spaces) = Returned a st" and "spaces M = Some x" and "dvsize x \<noteq> MAX_SIZE_T"
    and "MAX_REQUEST \<le> req"
  shows "a = 0"
proof -
  have big: "\<not> req \<le> MAX_SMALL_REQUEST" using assms(4) by (simp add: word_le_nat_alt)
  have top: "malloc_dv_top mp M MAX_SIZE_T h = (Sys_alloc MAX_SIZE_T, h)" if "dvsize (ms h) \<noteq> MAX_SIZE_T" for h
    using that by (simp add: malloc_dv_top_def max_word)
  from assms(1,2) obtain e h1 where one: "mspace_malloc mp M req (mk_heap m x) = Inr (e, h1)"
    and two: "(case e of Mem a \<Rightarrow> ret a
       | Sys_alloc nb \<Rightarrow> seq (in_process BOP_abort_spec) (\<lambda>_.
             on_mspace M (\<lambda>h. res_bind (sys_alloc mp os M nb h) (\<lambda>(a, h1). Inr (a, POSTACTION h1)))))
        (s, heap.mem h1, spaces(M \<mapsto> ms h1)) = Returned a st"
    by (auto simp: malloc_call_def complete_malloc_def seq_eq_Returned on_mspace_def split: sum.splits)
  from one obtain h0 h2 where "PREACTION (mk_heap m x) = Inr h0" "malloc_locked mp M req h0 = Inr (e, h2)"
    by (auto simp: mspace_malloc_def locked_malloc_def res_bind_eq_Inr)
  moreover from this(1) have "dvsize (ms h0) = dvsize x" by (auto simp: PREACTION_def split: if_splits)
  ultimately have "e = Sys_alloc MAX_SIZE_T" using top [of h0] assms(3,4) big by (simp add: malloc_locked_def)
  with two show ?thesis
    by (auto simp: seq_eq_Returned on_mspace_def sys_alloc_too_big in_process_def split: outcome.splits)
qed

text \<open>The bytes of a block, on a little-endian machine.\<close>

definition byte_at :: "words \<Rightarrow> addr_t \<Rightarrow> nat \<Rightarrow> size_t" where
  "byte_at m a i = drop_bit (8 * (i mod 8)) (m (a + 8 * of_nat (i div 8))) AND 0xff"

lemma word_offset_eq:
  fixes a :: addr_t
  assumes "j < 2 ^ 61" and "k < 2 ^ 61"
  shows "a + 8 * of_nat j = a + 8 * of_nat k \<longleftrightarrow> j = k"
proof
  assume "a + 8 * of_nat j = a + 8 * of_nat k"
  then have "(of_nat (8 * j) :: addr_t) = of_nat (8 * k)" by simp
  then have "take_bit 64 (8 * j) = take_bit 64 (8 * k)" by (simp only: word_of_nat_eq_iff) simp
  moreover have "take_bit 64 (8 * j) = 8 * j" "take_bit 64 (8 * k) = 8 * k"
    using assms by (simp_all add: take_bit_nat_eq_self_iff)
  ultimately show "j = k" by simp
qed simp

lemma clear_words_other: "(\<And>j. j < n \<Longrightarrow> w \<noteq> a + 8 * of_nat j) \<Longrightarrow> clear_words a n m w = m w"
proof (induction n arbitrary: a m)
  case (Suc n)
  have "w \<noteq> a + 8 + 8 * of_nat j" if "j < n" for j using Suc.prems [of "Suc j"] that by (simp add: algebra_simps)
  moreover have "w \<noteq> a" using Suc.prems [of 0] by simp
  ultimately show ?case using Suc.IH [of "a + 8"] by simp
qed simp

lemma clear_words_zero: "j < n \<Longrightarrow> n \<le> 2 ^ 61 \<Longrightarrow> clear_words a n m (a + 8 * of_nat j) = 0"
proof (induction n arbitrary: a m j)
  case (Suc n)
  show ?case
  proof (cases j)
    case 0
    have "a \<noteq> a + 8 + 8 * of_nat i" if "i < n" for i
      using word_offset_eq [of 0 "Suc i" a] that Suc.prems(2) by (simp add: algebra_simps)
    with 0 clear_words_other [of n a "a + 8" "m(a := 0)"] show ?thesis by simp
  next
    case (Suc i)
    moreover have "a + 8 * of_nat (Suc i) = a + 8 + 8 * of_nat i" by (simp add: algebra_simps)
    moreover have "clear_words (a + 8) n (m(a := 0)) (a + 8 + 8 * of_nat i) = 0" using Suc Suc.IH Suc.prems by simp
    ultimately show ?thesis by (simp only: clear_words.simps)
  qed
qed simp

lemma clear_bytes_zero:
  assumes "i < unat n"
  shows "byte_at (clear_bytes a n m) a i = 0"
proof -
  let ?k = "unat n div 8"
  have k: "?k < 2 ^ 61" using unsigned_less [of n, where ?'a = nat] by (simp add: less_mult_imp_div_less)
  have low: "unat (n AND 7) = unat n mod 8"
  proof -
    have "n AND 7 = take_bit 3 n" by (simp add: take_bit_eq_mask mask_eq_exp_minus_1)
    moreover have "unat (take_bit 3 n) = unat n mod 8" unfolding unsigned_take_bit_eq by (simp add: take_bit_eq_mod)
    ultimately show ?thesis by simp
  qed
  show ?thesis
  proof (cases "i div 8 < ?k")
    case True
    then have "clear_bytes a n m (a + 8 * of_nat (i div 8)) = 0"
      using clear_words_zero [of "i div 8" ?k a m] word_offset_eq [of "i div 8" ?k a] k
      by (simp add: clear_bytes_def Let_def)
    then show ?thesis by (simp add: byte_at_def)
  next
    case False
    then have i: "i div 8 = ?k" using assms div_le_mono [of i "unat n" 8] by simp
    then have ii: "i mod 8 < unat n mod 8" using assms div_mult_mod_eq [of i 8] div_mult_mod_eq [of "unat n" 8] by linarith
    then have "n AND 7 \<noteq> 0" using low by (metis less_nat_zero_code unat_eq_zero)
    then have "clear_bytes a n m (a + 8 * of_nat (i div 8)) = w AND NOT (mask (8 * (unat n mod 8)))"
      if "w = clear_words a ?k m (a + 8 * of_nat ?k)" for w
      using that i by (simp add: clear_bytes_def Let_def low_bytes_def low)
    moreover have "drop_bit (8 * r) (w AND NOT (mask (8 * q))) AND 0xff = 0" if "r < q" for r q and w :: size_t
    proof -
      have "drop_bit (8 * r) (w AND NOT (mask (8 * q))) AND mask 8 = 0"
        using that by (intro bit_word_eqI) (auto simp: bit_simps)
      then show ?thesis by (simp add: mask_eq_exp_minus_1)
    qed
    ultimately show ?thesis using ii by (simp add: byte_at_def)
  qed
qed

lemma clear_bytes_before:
  assumes "unat n < 2 ^ 64 - 128"
  shows "clear_bytes a n m (a - 8) = m (a - 8)"
proof -
  have "a - 8 \<noteq> a + 8 * of_nat j" if "j \<le> unat n div 8" for j
  proof
    assume "a - 8 = a + 8 * of_nat j"
    then have "a - 8 + 8 * of_nat 0 = (a - 8) + 8 * of_nat (Suc j)" by (simp add: algebra_simps)
    moreover have "Suc j < 2 ^ 61" using that assms by (simp add: less_eq_div_iff_mult_less_eq)
    ultimately show False using word_offset_eq [of 0 "Suc j" "a - 8"] by simp
  qed
  then show ?thesis by (simp add: clear_bytes_def Let_def clear_words_other)
qed

text \<open>
  C22: A block from \<^verbatim>\<open>calloc\<close> is one whose size did not overflow and is below \<^verbatim>\<open>MAX_REQUEST\<close>, also where the product of the
  two sizes wraps around, and all its bytes are zero unless it was mapped directly, where the system has
  cleared it.
\<close>
theorem calloc_zeroes:
  assumes "mspace_calloc mp os M n e (s, m, spaces) = Returned a (s', m', spaces')" and "a \<noteq> 0"
    and "spaces M = Some x" and "dvsize x \<noteq> MAX_SIZE_T"
  shows "unat n * unat e < 2 ^ 64 - 128
    \<and> (is_mmapped m' (mem2chunk a) \<or> (\<forall>i < unat n * unat e. byte_at m' a i = 0))"
proof -
  let ?req = "calloc_request n e"
  have "spaces(M \<mapsto> x) = spaces" using assms(3) by (rule map_upd_triv)
  with assms(1,3) obtain m1 where call: "malloc_call mp os M ?req (s, m, spaces) = Returned a (s', m1, spaces')"
    and m': "m' = (if a \<noteq> 0 \<and> calloc_must_clear m1 (mem2chunk a) then clear_bytes a ?req m1 else m1)"
    by (auto simp: mspace_calloc_def check_magic_def on_mspace_def on_words_def seq_eq_Returned Let_def internal_malloc_eq
        split: sum.splits prod.splits)
  have "\<not> MAX_REQUEST \<le> ?req" using malloc_call_too_big [OF call assms(3,4)] assms(2) by blast
  then have req: "unat ?req < 2 ^ 64 - 128" by (simp add: word_le_nat_alt)
  then have eq: "unat ?req = unat n * unat e" using calloc_request_exact [of n e] by (auto split: if_splits)
  have "is_mmapped m' (mem2chunk a) \<or> (\<forall>i < unat ?req. byte_at m' a i = 0)"
    using m' assms(2) clear_bytes_zero [of _ ?req a m1] clear_bytes_before [OF req, of a m1]
    by (auto simp: calloc_must_clear_def is_mmapped_def head_def mem2chunk_def)
  with req eq show ?thesis by simp
qed

theorem calloc_zeroes_witness:
  "\<exists>M (h :: heap) a s' m' spaces'.
    mspace_calloc example_params example_os M 10 10 (example_group, heap.mem h, [M \<mapsto> ms h]) = Returned a (s', m', spaces')
    \<and> (is_mmapped m' (mem2chunk a) \<or> byte_at m' a 99 = 0)"
proof -
  obtain M h where h: "create_mspace example_params example_mmap 0 True True (\<lambda>_. 0) = Some (M, h)"
    "only_top example_params h" "topsize (ms h) = 3056" by (rule example_mspace) auto
  have size: "request2size 100 = 128" "(100 :: size_t) < MAX_REQUEST" "calloc_request 10 10 = 100" by code_simp+
  from malloc_from_top [OF h(2) size(2), of M] h(3) size(1) obtain h1 where
    h1: "mspace_malloc example_params M 100 h = Inr (Mem (chunk2mem (top_chunk (ms h))), h1)" by auto
  let ?a = "chunk2mem (top_chunk (ms h))"
  from h1 h(2) size(3) obtain m' spaces' where
    call: "mspace_calloc example_params example_os M 10 10 (example_group, heap.mem h, [M \<mapsto> ms h])
      = Returned ?a (example_group, m', spaces')"
    by (auto simp: mspace_calloc_def check_magic_def on_mspace_def on_words_def internal_malloc_eq malloc_call_def complete_malloc_def
        seq_def Let_def only_top_def ret_def)
  have "unat ?a = unat (top_chunk (ms h)) + 16"
    using h(2) by (simp add: only_top_def chunk2mem_def unat_word_ariths)
  then have "?a \<noteq> 0" by auto
  moreover have "dvsize (ms h) \<noteq> MAX_SIZE_T" using h(2) by (simp add: only_top_def)
  ultimately have "is_mmapped m' (mem2chunk ?a) \<or> (\<forall>i < unat (10 :: size_t) * unat (10 :: size_t). byte_at m' ?a i = 0)"
    using calloc_zeroes [OF call, of "ms h"] by simp
  then have "is_mmapped m' (mem2chunk ?a) \<or> byte_at m' ?a 99 = 0" by auto
  with call show ?thesis by blast
qed

section \<open>realloc\<close>

text \<open>Growing the block that was allocated last, in the top behind it.\<close>

lemma try_realloc_top:
  assumes "only_top mp h" and "r1 < MAX_REQUEST" and "r2 < MAX_REQUEST" and "request2size r1 < request2size r2"
    and "request2size r2 < topsize (ms h)"
  defines "p \<equiv> top_chunk (ms h)" and "n1 \<equiv> request2size r1" and "n2 \<equiv> request2size r2"
  assumes h0: "heap.mem h0 = heap.mem (take_top mp M n1 h)" "ms h0 = (ms (take_top mp M n1 h))\<lparr>mutex := b\<rparr>"
  shows "\<exists>h2. try_realloc_chunk mp os M p n2 can_move h0 = Inr (p, h2)
    \<and> ms h2 = (ms (take_top mp M n2 h))\<lparr>mutex := b\<rparr>
    \<and> head (heap.mem h2) p = n2 OR 3 \<and> prev_foot (heap.mem h2) (p + n2) = M XOR mp_magic mp
    \<and> head (heap.mem h2) (p + n2) = (topsize (ms h) - n2) OR 1
    \<and> (\<forall>w. w \<notin> {p + 8, p + n2, p + n2 + 8} \<longrightarrow> heap.mem h2 w = heap.mem h0 w)"
proof -
  note size = request2size_spec [OF assms(2), folded n1_def] and size2 = request2size_spec [OF assms(3), folded n2_def]
  have less: "unat n1 < unat n2" "unat n2 < unat (topsize (ms h))"
    using assms(4,5) by (simp_all add: n1_def n2_def word_less_nat_alt)
  have top: "unat p + unat (topsize (ms h)) + 80 < 2 ^ 64" "least_addr (ms h) \<le> p" "16 dvd unat (topsize (ms h))"
    using assms(1) by (simp_all add: only_top_def p_def)
  have sum: "unat (p + n1) = unat p + unat n1" using top(1) less by (simp add: unat_word_ariths)
  have "unat (top_chunk (ms h)) + unat n1 + 8 < 2 ^ 64" using top(1) less by (simp add: p_def)
  note w = take_top_words [OF size(2) this, where mp = mp and M = M, folded p_def, folded h0(1)]
  have "unat (p + 16) = unat p + 16" using top(1) by (simp add: unat_word_ariths)
  then have "p + 16 \<noteq> 0" by auto
  note own = chunk_owner [OF size(1) w(1,2) this]
  have "16 dvd unat (topsize (ms h) - n1)" using top(3) size(1) less by (simp add: unat_sub_if' dvd_diff_nat)
  note rest = head_bits(6) [OF this]
  have ms0: "ms h0 = (ms h)\<lparr>topsize := topsize (ms h) - n1, top_chunk := p + n1, mutex := b\<rparr>"
    by (simp add: h0(2) take_top_def p_def)
  have next_ok: "ok_next p (p + n1)" using size(2) sum by (auto simp: ok_next_def word_less_nat_alt)
  have big: "\<not> n2 \<le> n1" "n1 + (topsize (ms h) - n1) > n2" using less by (auto simp: word_le_nat_alt word_less_nat_alt)
  let ?h2 = "snd (extend_into_top mp M p n1 n2 h0)"
  have ext: "extend_into_top mp M p n1 n2 h0 = (p, ?h2)" using big(2) by (simp add: extend_into_top_def ms0 Let_def)
  have "try_realloc_chunk mp os M p n2 can_move h0 = Inr (p, ?h2)"
    using own(3-5) top(2) next_ok w(1,3) rest head_bits(3) [OF size(1)] big(1) ext
    by (simp add: try_realloc_chunk_def Let_def chunk_plus_offset_def ms0 ok_address_def pinuse_def is_mmapped_def)
  moreover have "ms ?h2 = (ms (take_top mp M n2 h))\<lparr>mutex := b\<rparr>"
    using big(2) by (simp add: extend_into_top_def ms0 Let_def chunk_plus_offset_def take_top_def p_def)
  moreover have "heap.mem ?h2 =
      (heap.mem h0)(p + 8 := n2 OR 3, p + n2 := M XOR mp_magic mp, p + n2 + 8 := (topsize (ms h) - n2) OR 1)"
  proof -
    have ne: "n2 \<noteq> 0" "n2 \<noteq> 8" using size2(2) by auto
    have "1 OR n2 OR 2 = n2 OR (1 OR 2)" by (simp only: or.assoc or.left_commute or.commute)
    then have "1 OR n2 OR 2 = n2 OR 3" by simp
    then show ?thesis using big(2) ne w(1) head_bits(4) [OF size(1)]
      by (simp add: extend_into_top_def ms0 Let_def chunk_plus_offset_def set_inuse_def mark_inuse_foot_def
          set_head_def head_def set_prev_foot_def fun_eq_iff)
  qed
  moreover have "p + n2 \<noteq> p + 8" "p + n2 + 8 \<noteq> p + 8" using size2(2) by auto
  ultimately show ?thesis by (intro exI [of _ ?h2]) (simp add: head_def prev_foot_def)
qed

text \<open>
  C21: Growing the block that was allocated last works in place whenever the top has room: \<^verbatim>\<open>realloc\<close> returns the same
  address, the mspace is in the state it would have if the larger block had been asked for at once, the
  block still leads to its mspace and has room for the new size, and no word of its old contents changes.
\<close>
theorem realloc_grows_in_place:
  fixes os :: "nat \<Rightarrow> os_answers" and s :: bop_state
  assumes "only_top mp h" and "r1 < MAX_REQUEST" and "r2 < MAX_REQUEST" and "request2size r1 < request2size r2"
    and "request2size r2 < topsize (ms h)"
  shows "\<exists>a h1 m2 s2. mspace_malloc mp M r1 h = Inr (Mem a, h1)
    \<and> mspace_realloc mp os M a r2 (s, heap.mem h1, [M \<mapsto> ms h1]) = Returned a (s, m2, [M \<mapsto> s2])
    \<and> (\<exists>h3. mspace_malloc mp M r2 h = Inr (Mem a, h3) \<and> s2 = ms h3)
    \<and> get_mspace mp m2 a = M \<and> usable_size m2 a = request2size r2 - 16
    \<and> (\<forall>w. unat a \<le> unat w \<and> unat w < unat a + unat (usable_size (heap.mem h1) a) \<longrightarrow> m2 w = heap.mem h1 w)"
proof -
  let ?p = "top_chunk (ms h)" and ?n1 = "request2size r1" and ?n2 = "request2size r2"
  let ?a = "chunk2mem ?p" and ?h1 = "take_top mp M ?n1 h"
  have r1: "?n1 < topsize (ms h)" using assms(4,5) by (rule less_trans)
  note m1 = malloc_from_top [OF assms(1,2) r1, of M] and m3 = malloc_from_top [OF assms(1,3,5), of M]
  note size = request2size_spec [OF assms(2)] and size2 = request2size_spec [OF assms(3)]
  have top: "unat ?p + unat (topsize (ms h)) + 80 < 2 ^ 64" "\<not> mutex (ms h)" "ok_magic mp (ms h)"
    using assms(1) by (simp_all add: only_top_def)
  have less: "unat ?n1 < unat ?n2" "unat ?n2 < unat (topsize (ms h))" using assms(4,5) by (simp_all add: word_less_nat_alt)
  have a: "unat ?a = unat ?p + 16" "mem2chunk ?a = ?p" using top(1) by (simp_all add: chunk2mem_def mem2chunk_def unat_word_ariths)
  then have ne: "?p + 16 \<noteq> 0" "?a \<noteq> 0" by (auto simp: chunk2mem_def)
  have p0: "?p \<noteq> 0" using assms(1) by (auto simp: only_top_def)
  have "unat ?p + unat ?n1 + 8 < 2 ^ 64" using top(1) less by simp
  note w1 = take_top_words [OF size(2) this, where mp = mp and M = M]
  note own1 = chunk_owner [OF size(1) w1(1,2) ne(1)]
  let ?h0 = "upd_ms (\<lambda>s. s\<lparr>mutex := use_lock (ms h)\<rparr>) ?h1"
  have pre: "PREACTION ?h1 = Inr ?h0"
    using top(2) by (cases h, cases "ms h") (auto simp: PREACTION_def take_top_def upd_ms_def upd_mem_def use_lock_def)
  from try_realloc_top [OF assms, of ?h0 M "use_lock (ms h)" "os 0" True] obtain h2 where
    h2: "try_realloc_chunk mp (os 0) M ?p ?n2 True ?h0 = Inr (?p, h2)"
      "ms h2 = (ms (take_top mp M ?n2 h))\<lparr>mutex := use_lock (ms h)\<rparr>"
      "head (heap.mem h2) ?p = ?n2 OR 3" "prev_foot (heap.mem h2) (?p + ?n2) = M XOR mp_magic mp"
      "\<forall>w. w \<notin> {?p + 8, ?p + ?n2, ?p + ?n2 + 8} \<longrightarrow> heap.mem h2 w = heap.mem ?h1 w" by auto
  note own2 = chunk_owner [OF size2(1) h2(3,4) ne(1)]
  have post: "ms (POSTACTION h2) = ms (take_top mp M ?n2 h)" "heap.mem (POSTACTION h2) = heap.mem h2"
    using h2(2) top(2) by (cases "ms h", auto simp: POSTACTION_def use_lock_def take_top_def)+
  have "with_lock (try_realloc_chunk mp (os 0) M ?p ?n2 True) ?h1 = Inr (?p, POSTACTION h2)"
    by (simp add: with_lock_def pre h2(1))
  moreover have "get_mstate_for mp (heap.mem ?h1) ?p = M" using own1(1) ne(2) a(2) by (simp add: get_mspace_def)
  moreover have "ok_magic mp (ms ?h1)" using top(3) by (simp add: take_top_def ok_magic_def)
  ultimately have "mspace_realloc mp os M ?a r2 (s, heap.mem ?h1, [M \<mapsto> ms ?h1])
      = Returned ?a (s, heap.mem h2, [M \<mapsto> ms (take_top mp M ?n2 h)])"
    using ne(2) p0 assms(3) post
    by (simp add: mspace_realloc_def owner_of_def locked_realloc_def on_mspace_def a(2) Let_def not_le)
  moreover have "heap.mem h2 x = heap.mem ?h1 x"
    if "unat ?a \<le> unat x" "unat x < unat ?a + unat (usable_size (heap.mem ?h1) ?a)" for x
  proof -
    have "unat (usable_size (heap.mem ?h1) ?a) = unat ?n1 - 16"
      using own1(2) size(2) by (simp add: unat_sub word_le_nat_alt)
    then have "unat ?p + 16 \<le> unat x" "unat x < unat ?p + unat ?n1" using that a(1) size(2) by auto
    moreover have "unat (?p + 8) = unat ?p + 8" "unat (?p + ?n2) = unat ?p + unat ?n2" "unat (?p + ?n2 + 8) = unat ?p + unat ?n2 + 8"
      using top(1) less by (simp_all add: unat_word_ariths)
    ultimately have "x \<notin> {?p + 8, ?p + ?n2, ?p + ?n2 + 8}" using less by auto
    with h2(5) show ?thesis by blast
  qed
  ultimately show ?thesis using m1 m3 own2(1,2) by blast
qed

theorem realloc_grows_in_place_witness:
  "\<exists>M (h :: heap) a h1 m2 s2. create_mspace example_params example_mmap 0 True True (\<lambda>_. 0) = Some (M, h)
    \<and> mspace_malloc example_params M 24 h = Inr (Mem a, h1)
    \<and> mspace_realloc example_params (\<lambda>_. example_os) M a 100 (example_group, heap.mem h1, [M \<mapsto> ms h1])
        = Returned a (example_group, m2, [M \<mapsto> s2])"
proof -
  obtain M h where h: "create_mspace example_params example_mmap 0 True True (\<lambda>_. 0) = Some (M, h)"
    "only_top example_params h" "topsize (ms h) = 3056" by (rule example_mspace) auto
  have size: "(24 :: size_t) < MAX_REQUEST" "(100 :: size_t) < MAX_REQUEST" "request2size 24 < request2size 100"
    "request2size 100 = 128" by code_simp+
  with realloc_grows_in_place [OF h(2) size(1-3), of M "\<lambda>_. example_os" example_group] h(3)
  obtain a h1 m2 s2 where "mspace_malloc example_params M 24 h = Inr (Mem a, h1)"
    "mspace_realloc example_params (\<lambda>_. example_os) M a 100 (example_group, heap.mem h1, [M \<mapsto> ms h1])
      = Returned a (example_group, m2, [M \<mapsto> s2])" by auto
  with h(1) show ?thesis by blast
qed

end
