(* ===== verification/Dl_Special_Props.thy ===== *)
theory Dl_Special_Props
  imports Dl_Special
begin

text \<open>
  Properties of the calls of \<open>Dl_Special\<close>: the alignment that is used and the room an aligned block has, the
  agreement of the two statistics, and the parameters that \<^verbatim>\<open>mallopt\<close> can reach.
\<close>

section \<open>Statistics\<close>

definition res_map :: "('a \<Rightarrow> 'b) \<Rightarrow> 'a res \<Rightarrow> 'b res" where
  "res_map f r = res_bind r (\<lambda>x. Inr (f x))"

lemma res_map_simps [simp]: "res_map f (Inl e) = Inl e" "res_map f (Inr x) = Inr (f x)"
  by (simp_all add: res_map_def)

lemma res_map_of_bind: "res_map g (res_bind r f) = res_bind r (\<lambda>x. res_map g (f x))"
  by (cases r) simp_all

lemma res_bind_of_map: "res_bind (res_map f r) g = res_bind r (\<lambda>x. g (f x))"
  by (cases r) simp_all

lemma res_bind_assoc: "res_bind (res_bind r f) g = res_bind r (\<lambda>x. res_bind (f x) g)"
  by (cases r) simp_all

lemmas res_map_bind = res_map_of_bind res_bind_of_map res_bind_assoc

lemma res_while_commute:
  assumes "\<And>s. b s = b' (f s)" and "\<And>s. b s \<Longrightarrow> res_map f (c s) = c' (f s)"
  shows "res_map f (res_while b c s) = res_while b' c' (f s)"
proof -
  let ?b = "\<lambda>b r. case r of Inl _ \<Rightarrow> False | Inr s \<Rightarrow> b s"
  have "map_option (res_map f) (while_option (?b b) (\<lambda>r. res_bind r c) (Inr s))
      = while_option (?b b') (\<lambda>r. res_bind r c') (res_map f (Inr s))"
  proof (rule while_option_commute)
    show "?b b r = ?b b' (res_map f r)" for r :: "'a res" using assms(1) by (cases r) simp_all
    show "?b b r \<Longrightarrow> res_map f (res_bind r c) = res_bind (res_map f r) c'" for r using assms(2) by (cases r) simp_all
  qed
  then show ?thesis
    by (cases "while_option (?b b) (\<lambda>r. res_bind r c) (Inr s)") (auto simp: res_while_def split: option.splits)
qed

lemma walk_segment_commute:
  assumes "\<And>q s. f (g q s) = g' q (f s)"
  shows "res_map f (walk_segment h g sg s) = walk_segment h g' sg (f s)"
proof -
  let ?b = "\<lambda>(q, s). segment_holds sg q \<and> q \<noteq> top_chunk (ms h) \<and> head (heap.mem h) q \<noteq> FENCEPOST_HEAD"
  let ?q0 = "align_as_chunk (seg_base sg)"
  have "map_option (map_prod id f) (while_option ?b (\<lambda>(q, s). (next_chunk (heap.mem h) q, g q s)) (?q0, s))
      = while_option ?b (\<lambda>(q, s). (next_chunk (heap.mem h) q, g' q s)) (map_prod id f (?q0, s))"
    by (rule while_option_commute) (auto simp: assms)
  from this [symmetric] show ?thesis by (auto simp: walk_segment_def split: option.splits)
qed

lemma walk_segments_commute:
  assumes "\<And>q s. f (g q s) = g' q (f s)"
  shows "res_map f (walk_segments M h g s) = walk_segments M h g' (f s)"
proof -
  let ?c = "\<lambda>g (sp, s). let sg = segment_at M h sp in res_bind (walk_segment h g sg s) (\<lambda>s1. Inr (seg_next sg, s1))"
  have "res_map (map_prod id f) (res_while (\<lambda>(sp, s). sp \<noteq> 0) (?c g) (seg_ptr M, s))
      = res_while (\<lambda>(sp, s). sp \<noteq> 0) (?c g') (map_prod id f (seg_ptr M, s))"
    by (rule res_while_commute)
      (auto simp: Let_def walk_segment_commute [of f g g', OF assms, symmetric] res_map_bind split: prod.splits)
  from this [symmetric] show ?thesis by (auto simp: walk_segments_def res_map_bind case_prod_beta)
qed

text \<open>
  C33: \<^verbatim>\<open>malloc_stats\<close> and \<^verbatim>\<open>mallinfo\<close> walk the chunks of an mspace separately and count different things; what they
  report agrees on every heap, and each ends exactly when the other does: the bytes in use are the
  allocated space, and the footprint is what is allocated and what is free together.
\<close>
theorem stats_agree:
  "internal_malloc_stats M h =
     res_map (\<lambda>(i, h'). ((usmblks i, uordblks i + fordblks i, uordblks i), h')) (internal_mallinfo M h)"
proof -
  have "walk_segments M h (\<lambda>q used. if \<not> is_inuse (heap.mem h) q then used - chunksize (heap.mem h) q else used) (fp - n)
      = res_map (\<lambda>(nfree, mfree, tot). fp - mfree) (walk_segments M h (count_chunk (heap.mem h)) (1, n, n))" for fp n h
    by (subst walk_segments_commute [where g' = "\<lambda>q used. if \<not> is_inuse (heap.mem h) q
          then used - chunksize (heap.mem h) q else used"]) (auto simp: count_chunk_def Let_def)
  note walk = this
  show ?thesis
    unfolding internal_malloc_stats_def internal_mallinfo_def with_lock_def Let_def walk res_map_of_bind
    by (auto simp: no_mallinfo_def res_map_bind case_prod_beta intro!: arg_cong [where f = "res_bind (PREACTION h)"] ext)
qed

section \<open>Aligned blocks\<close>

lemma unat_exp: "unat (2 ^ j :: size_t) = 2 ^ j" if "j < 64"
proof -
  have "(2 :: nat) ^ j < 2 ^ 64" using that by (intro power_strict_increasing) auto
  then have "take_bit 64 (2 ^ j :: nat) = 2 ^ j" by (simp only: take_bit_nat_eq_self_iff)
  moreover have "(2 ^ j :: size_t) = of_nat (2 ^ j)" by simp
  ultimately show ?thesis by (simp only: unsigned_of_nat) simp
qed

lemma power_of_two:
  fixes x :: size_t
  assumes "power_of_two_or_zero x" and "x \<noteq> 0"
  obtains k where "x = 2 ^ k" and "k < 64"
proof -
  have "1 \<le> unat x" using assms(2) by (simp add: Suc_le_eq unat_gt_0)
  from ex_power_ivl1 [OF _ this, of 2] obtain j where j: "2 ^ j \<le> unat x" "unat x < 2 ^ (j + 1)" by auto
  have "j < 64"
  proof (rule ccontr)
    assume "\<not> j < 64"
    then have "(2 :: nat) ^ 64 \<le> 2 ^ j" by (intro power_increasing) auto
    then show False using j(1) unsigned_less [of x, where ?'a = nat] by simp
  qed
  moreover have "unat x = 2 ^ j"
  proof (rule ccontr)
    assume "unat x \<noteq> 2 ^ j"
    then have "2 ^ j \<le> unat (x - 1)" "unat (x - 1) < 2 ^ (j + 1)"
      using j \<open>1 \<le> unat x\<close> by (simp_all add: unat_sub word_le_nat_alt)
    then have "unat (x - 1) div 2 ^ j = 1" "unat x div 2 ^ j = 1" using j by (auto intro!: div_nat_eqI)
    moreover have "bit w j \<longleftrightarrow> odd (unat w div 2 ^ j)" for w :: size_t
      unfolding bit_iff_odd [of "unat w", symmetric] by (simp add: bit_unsigned_iff)
    ultimately have "bit x j \<and> bit (x - 1) j" by simp
    then have "bit (x AND (x - 1)) j" by (simp add: bit_and_iff)
    then show False using assms(1) by (simp add: power_of_two_or_zero_def)
  qed
  moreover from this have "x = 2 ^ j" using \<open>j < 64\<close>
    by (simp add: word_eq_iff_unsigned [where ?'a = nat] unat_exp)
  ultimately show ?thesis using that by blast
qed


lemma double_loop:
  fixes al :: size_t
  assumes "unat al \<le> 2 ^ 63" and "j \<le> 63" and "5 \<le> j" and "j = 5 \<or> 2 ^ (j - 1) < unat al"
  shows "\<exists>k. while_option (\<lambda>a. a < al) (push_bit 1) (2 ^ j) = Some (2 ^ k) \<and> 5 \<le> k \<and> k \<le> 63 \<and> unat al \<le> 2 ^ k
    \<and> (k = 5 \<or> 2 ^ (k - 1) < unat al)"
  using assms(2-)
proof (induction "63 - j" arbitrary: j)
  case 0
  then have "j = 63" by simp
  then show ?case using assms(1) 0 unat_exp [of 63]
    by (intro exI [of _ 63], subst while_option_unfold) (auto simp: word_less_nat_alt)
next
  case (Suc n)
  have ex: "(2 ^ j :: size_t) < al \<longleftrightarrow> 2 ^ j < unat al" using unat_exp [of j] Suc.prems(1) by (simp add: word_less_nat_alt)
  show ?case
  proof (cases "2 ^ j < unat al")
    case True
    with Suc have "\<exists>k. while_option (\<lambda>a. a < al) (push_bit 1) (2 ^ Suc j) = Some (2 ^ k) \<and> 5 \<le> k \<and> k \<le> 63
        \<and> unat al \<le> 2 ^ k \<and> (k = 5 \<or> 2 ^ (k - 1) < unat al)"
      by (intro Suc.hyps) auto
    moreover have "while_option (\<lambda>a. a < al) (push_bit 1) (2 ^ j) = while_option (\<lambda>a. a < al) (push_bit 1) (2 ^ Suc j)"
      using True ex by (subst while_option_unfold) (simp add: push_bit_eq_mult mult.commute)
    ultimately show ?thesis by (simp only:)
  next
    case False
    with Suc.prems ex show ?thesis by (intro exI [of _ j]) (simp add: while_option_unfold)
  qed
qed

lemma double_loop_forever:
  fixes al :: size_t
  assumes "2 ^ 63 < unat al"
  shows "while_option (\<lambda>a. a < al) (push_bit 1) 32 = None"
proof (rule ccontr)
  let ?P = "\<lambda>a :: size_t. a = 0 \<or> (\<exists>j \<le> 63. a = 2 ^ j)"
  assume "while_option (\<lambda>a. a < al) (push_bit 1) 32 \<noteq> None"
  then obtain t where t: "while_option (\<lambda>a. a < al) (push_bit 1) 32 = Some t" by blast
  have "?P t"
  proof (rule while_option_rule [OF _ t])
    fix a assume "?P a"
    then consider "a = 0" | j where "j < 63" "a = 2 ^ j" | "a = 2 ^ 63" by (metis le_neq_implies_less)
    then show "?P (push_bit 1 a)"
    proof cases
      case (2 j)
      then show ?thesis by (intro disjI2 exI [of _ "Suc j"]) (simp add: push_bit_eq_mult)
    qed simp_all
  qed (rule disjI2, rule exI [of _ 5], simp)
  then have "t < al"
  proof
    assume "t = 0"
    with assms show ?thesis by (simp add: word_less_nat_alt)
  next
    assume "\<exists>j \<le> 63. t = 2 ^ j"
    then obtain j where j: "j \<le> 63" "t = 2 ^ j" by blast
    then have "(2 :: nat) ^ j \<le> 2 ^ 63" by (intro power_increasing) auto
    with assms j unat_exp [of j] show ?thesis by (simp add: word_less_nat_alt)
  qed
  with while_option_stop [OF t] show False by simp
qed


text \<open>
  The alignment that \<^verbatim>\<open>memalign\<close> uses is the least power of two that is at least 32 and at least the one asked
  for; the loop that looks for it ends exactly for alignments of at most half the address space.
\<close>
lemma memalign_power_exact:
  "(if unat al \<le> 2 ^ 63
    then \<exists>k. memalign_power al = Some (2 ^ k) \<and> 5 \<le> k \<and> k \<le> 63 \<and> unat al \<le> 2 ^ k \<and> (k = 5 \<or> 2 ^ (k - 1) < unat al)
    else memalign_power al = None)"
proof (cases "unat al < 32")
  case True
  then have "memalign_power al = Some 32" by (simp add: memalign_power_def word_less_nat_alt)
  then show ?thesis using True by (auto intro: exI [of _ 5])
next
  case False
  then have al: "memalign_power al = (if al AND (al - 1) \<noteq> 0 then while_option (\<lambda>a. a < al) (push_bit 1) 32 else Some al)"
    by (simp add: memalign_power_def MALLOC_ALIGNMENT_def word_less_nat_alt)
  show ?thesis
  proof (cases "al AND (al - 1) = 0")
    case True
    moreover have "al \<noteq> 0" using False by auto
    ultimately obtain k where k: "al = 2 ^ k" "k < 64" using power_of_two [of al] by (auto simp: power_of_two_or_zero_def)
    have u: "unat al = 2 ^ k" using k unat_exp by simp
    have "5 \<le> k"
    proof (rule ccontr)
      assume "\<not> 5 \<le> k"
      then have "(2 :: nat) ^ k \<le> 2 ^ 4" by (intro power_increasing) auto
      then show False using u False by simp
    qed
    moreover have "(2 :: nat) ^ k \<le> 2 ^ 63" using k(2) by (intro power_increasing) auto
    moreover have "(2 :: nat) ^ (k - 1) < 2 ^ k" using \<open>5 \<le> k\<close> by (intro power_strict_increasing) auto
    ultimately show ?thesis using al True k u by auto
  next
    case nonzero: False
    show ?thesis
    proof (cases "unat al \<le> 2 ^ 63")
      case True
      from double_loop [OF True, of 5] show ?thesis using al nonzero True by auto
    next
      case False
      with double_loop_forever [of al] al nonzero show ?thesis by auto
    qed
  qed
qed


lemma round_up_word:
  fixes a :: size_t
  assumes "k < 64" and "unat a + 2 ^ k \<le> 2 ^ 64" and "1 \<le> unat a"
  shows "unat ((a + 2 ^ k - 1) AND - (2 ^ k)) = 2 ^ k * ((unat a + (2 ^ k - 1)) div 2 ^ k)"
proof -
  have "- (2 ^ k) = NOT (mask k :: size_t)" by (simp add: mask_eq_exp_minus_1 minus_eq_not_minus_1)
  moreover have "a + 2 ^ k - 1 = a + mask k" by (simp add: mask_eq_exp_minus_1)
  moreover have "unat (a + mask k) = unat a + (2 ^ k - 1)"
    using assms by (simp add: unat_word_ariths unat_mask_size)
  ultimately show ?thesis by (simp only: and_not_mask [OF assms(1)])
qed

lemma and_mask_zero: "k < 64 \<Longrightarrow> (a :: size_t) AND (2 ^ k - 1) = 0 \<longleftrightarrow> 2 ^ k dvd unat a"
proof -
  assume k: "k < 64"
  have "a AND (2 ^ k - 1) = take_bit k a" by (simp add: take_bit_eq_mask mask_eq_exp_minus_1)
  moreover have "unat (take_bit k a) = unat a mod 2 ^ k" unfolding unsigned_take_bit_eq by (simp add: take_bit_eq_mod)
  ultimately show ?thesis by (metis dvd_eq_mod_eq_0 unat_eq_zero unsigned_0)
qed

text \<open>
  In a chunk of the size that \<^verbatim>\<open>memalign\<close> requests there is always a place for the aligned block, as the
  comment in the code claims: the place found has the alignment, leaves a leading part that is a chunk of
  its own, and what follows it is larger than the block.
\<close>
lemma aligned_spot_room:
  fixes nb sz :: size_t
  assumes "5 \<le> k" and "k < 63" and "16 dvd unat a" and "16 \<le> unat a" and "unat a + unat nb + 2 * 2 ^ k + 64 \<le> 2 ^ 64"
    and "a AND (2 ^ k - 1) \<noteq> 0" and "unat nb + 2 ^ k + 32 \<le> unat sz"
  shows "unat MIN_CHUNK_SIZE \<le> unat (aligned_spot (2 ^ k) a - mem2chunk a)
    \<and> unat nb + unat (aligned_spot (2 ^ k) a - mem2chunk a) < unat sz
    \<and> chunk2mem (aligned_spot (2 ^ k) a) AND (2 ^ k - 1) = 0"
proof -
  let ?A = "(2 :: nat) ^ k"
  let ?up = "?A * ((unat a + (?A - 1)) div ?A)"
  have pos: "0 < ?A" by simp
  have A: "32 dvd ?A" using le_imp_power_dvd [OF assms(1), of "2 :: nat"] by simp
  then have A16: "16 dvd ?A" by (rule dvd_trans [rotated]) simp
  have k: "k < 64" using assms(2) by simp
  have "\<not> ?A dvd unat a" using assms(6) and_mask_zero [OF k] by simp
  then have ne: "unat a \<noteq> ?up" by (metis dvd_triv_left)
  have up: "unat a < ?up" "?up < unat a + ?A"
    using mult_div_mod_eq [of ?A "unat a + (?A - 1)"] mod_less_divisor [OF pos, of "unat a + (?A - 1)"] pos ne by linarith+
  have "16 dvd ?up - unat a" using A16 assms(3) by (intro dvd_diff_nat) auto
  then have gap: "16 \<le> ?up - unat a" using up(1) by (intro dvd_imp_le) auto
  define r where "r = (a + 2 ^ k - 1) AND - (2 ^ k)"
  have r: "unat r = ?up" unfolding r_def using assms(4,5) by (intro round_up_word k) auto
  have lead: "unat (r - a) = ?up - unat a" using up(1) r by (simp add: unat_sub word_le_nat_alt)
  have spot: "aligned_spot (2 ^ k) a = (if 32 \<le> r - a then r - 16 else r - 16 + 2 ^ k)"
    by (simp add: aligned_spot_def r_def [symmetric] mem2chunk_def Let_def)
  have big: "unat (r + 2 ^ k) = ?up + ?A" "unat (r - a + 2 ^ k) = ?up - unat a + ?A"
    using r lead up assms(5) unat_exp [OF k] by (simp_all add: unat_word_ariths)
  show ?thesis
  proof (cases "32 \<le> r - a")
    case True
    then have "aligned_spot (2 ^ k) a - mem2chunk a = r - a" "chunk2mem (aligned_spot (2 ^ k) a) = r"
      by (simp_all add: spot mem2chunk_def chunk2mem_def)
    then show ?thesis using True lead up gap assms(7) r and_mask_zero [OF k, of r] by (simp add: word_le_nat_alt)
  next
    case False
    then have "aligned_spot (2 ^ k) a - mem2chunk a = r - a + 2 ^ k" "chunk2mem (aligned_spot (2 ^ k) a) = r + 2 ^ k"
      by (simp_all add: spot mem2chunk_def chunk2mem_def)
    moreover have "?up - unat a < 32" using False lead by (simp add: word_le_nat_alt)
    then have "?up - unat a = 16" using gap \<open>16 dvd ?up - unat a\<close> by (auto elim!: dvdE)
    ultimately show ?thesis using big assms(7) and_mask_zero [OF k, of "r + 2 ^ k"] dvd_imp_le [OF A pos] by simp
  qed
qed

section \<open>Limits and parameters\<close>

text \<open>
  Setting a limit of the footprint rounds it up to the granularity, and the limit reads back as it was set;
  a limit of zero is not the least one but none at all.
\<close>
lemma footprint_limit_readback:
  assumes "ok_magic mp (ms h)" and "granularity mp = 2 ^ k" and "4 \<le> k" and "k < 64" and "unat n + 2 ^ k \<le> 2 ^ 64"
  shows "\<exists>r h'. mspace_set_footprint_limit mp n h = Inr (r, h')
    \<and> (if n = 0 then r = 0 \<and> mspace_footprint_limit mp h' = Inr MAX_SIZE_T
        else unat n \<le> unat r \<and> unat r < unat n + 2 ^ k \<and> mspace_footprint_limit mp h' = Inr r)"
proof -
  note align = granularity_align_spec [OF assms(2-5)]
  have ne: "n \<noteq> MAX_SIZE_T"
  proof
    assume "n = MAX_SIZE_T"
    then have "unat n = 2 ^ 64 - 1" by (simp add: unsigned_minus_1_eq_mask mask_eq_exp_minus_1)
    moreover have "(2 :: nat) ^ 1 \<le> 2 ^ k" using assms(3) by (intro power_increasing) auto
    ultimately show False using assms(5) by simp
  qed
  have zero: "granularity_align mp 0 = 0" by (simp add: granularity_align_def)
  have "granularity_align mp n \<noteq> 0" if "n \<noteq> 0"
  proof
    assume "granularity_align mp n = 0"
    with align(2) have "unat n = 0" by simp
    with that show False by (simp add: unat_eq_zero)
  qed
  with zero ne align(2,3) assms(1) show ?thesis
    by (intro exI [of _ "granularity_align mp n"] exI [of _ "upd_ms (\<lambda>s. s\<lparr>footprint_limit := granularity_align mp n\<rparr>) h"])
      (auto simp: mspace_set_footprint_limit_def mspace_footprint_limit_def ok_magic_def Let_def)
qed

definition params_ok :: "malloc_params \<Rightarrow> bool" where
  "params_ok mp \<longleftrightarrow> mp_magic mp \<noteq> 0 \<and> page_size mp \<noteq> 0 \<and> power_of_two_or_zero (page_size mp)
     \<and> power_of_two_or_zero (granularity mp) \<and> page_size mp \<le> granularity mp"

lemma make_magic_nonzero: "make_magic now \<noteq> 0"
proof -
  have "bit (make_magic now) 3" by (simp add: make_magic_def bit_simps)
  then show ?thesis by auto
qed

lemma change_mparam_ok: "params_ok mp \<Longrightarrow> params_ok (snd (change_mparam n x mp))"
  by (auto simp: change_mparam_def Let_def params_ok_def)

text \<open>
  Whatever is done with \<^verbatim>\<open>mallopt\<close>, with any numbers and any values, the parameters stay usable: the granularity is
  a power of two and not below the page size, which is what all rounding in the allocator relies on.
\<close>
lemma mallopt_keeps_params:
  assumes "power_of_two_or_zero psize" and "psize \<noteq> 0" and "mp_magic mp0 = 0"
  shows "\<exists>mp j k. init_mparams psize now mp0 = Inr mp
    \<and> page_size (fold (\<lambda>(n, x) mp. snd (change_mparam n x mp)) opts mp) = 2 ^ j
    \<and> granularity (fold (\<lambda>(n, x) mp. snd (change_mparam n x mp)) opts mp) = 2 ^ k \<and> j \<le> k \<and> k < 64
    \<and> mp_magic (fold (\<lambda>(n, x) mp. snd (change_mparam n x mp)) opts mp) \<noteq> 0"
proof -
  obtain mp where mp: "init_mparams psize now mp0 = Inr mp" "params_ok mp"
    using assms make_magic_nonzero by (auto simp: init_mparams_def Let_def params_ok_def)
  have "params_ok (fold (\<lambda>(n, x) mp. snd (change_mparam n x mp)) opts mp)" (is "params_ok ?mp")
    using mp(2) by (induction opts arbitrary: mp) (auto simp: change_mparam_ok)
  then obtain j k where "page_size ?mp = 2 ^ j" "j < 64" "granularity ?mp = 2 ^ k" "k < 64"
    "page_size ?mp \<le> granularity ?mp" "mp_magic ?mp \<noteq> 0"
    unfolding params_ok_def by (metis power_of_two word_le_0_iff)
  moreover from this have "(2 :: nat) ^ j \<le> 2 ^ k" by (simp add: word_le_nat_alt unat_exp)
  then have "j \<le> k" by simp
  ultimately show ?thesis using mp(1) by blast
qed

end
