(* ===== verification/Dl_Checks.thy ===== *)
theory Dl_Checks
  imports Dl_Special
begin

text \<open>
  The debugging checks of \<^verbatim>\<open>external/malloc.c\<close>: the allocator's own statement of what a well-formed mspace is,
  from \<^verbatim>\<open>do_check_any_chunk\<close> to \<^verbatim>\<open>do_check_malloc_state\<close>.  A check that only asserts is a predicate; one
  with loops is a result, in which a failing assertion is \<open>AssertFailed\<close> and a cycle is \<open>Diverges\<close>.
\<close>

section \<open>Single chunks\<close>

definition next_pinuse :: "words \<Rightarrow> addr_t \<Rightarrow> bool" where
  "next_pinuse m p \<longleftrightarrow> head m (next_chunk m p) AND PINUSE_BIT \<noteq> 0"

definition is_initialized :: "malloc_state \<Rightarrow> bool" where "is_initialized s \<longleftrightarrow> top_chunk s \<noteq> 0"

definition MIN_LARGE_SIZE :: size_t where "MIN_LARGE_SIZE = push_bit 8 1"

definition do_check_any_chunk :: "heap \<Rightarrow> addr_t \<Rightarrow> bool" where
  "do_check_any_chunk h p \<longleftrightarrow>
     (is_aligned (chunk2mem p) \<or> head (heap.mem h) p = FENCEPOST_HEAD) \<and> ok_address (ms h) p"

definition do_check_top_chunk :: "addr_t \<Rightarrow> heap \<Rightarrow> addr_t \<Rightarrow> unit res" where
  "do_check_top_chunk M h p =
     res_bind (segment_holding M h p) (\<lambda>sp.
       let m = heap.mem h; sg = segment_at M h sp; sz = head m p AND NOT INUSE_BITS in
       abort_unless
         (sp \<noteq> 0 \<and> do_check_any_chunk h p \<and> sz = topsize (ms h) \<and> sz > 0
          \<and> sz = ((seg_base sg + seg_size sg) - p) - TOP_FOOT_SIZE
          \<and> pinuse m p \<and> \<not> pinuse m (chunk_plus_offset p sz))
         (Inr ()))"

definition do_check_mmapped_chunk :: "malloc_params \<Rightarrow> heap \<Rightarrow> addr_t \<Rightarrow> bool" where
  "do_check_mmapped_chunk mp h p \<longleftrightarrow>
     (let m = heap.mem h; sz = chunksize m p; len = sz + prev_foot m p + MMAP_FOOT_PAD in
      is_mmapped m p \<and> use_mmap (ms h) \<and> do_check_any_chunk h p \<and> \<not> is_small sz
      \<and> len AND (page_size mp - 1) = 0
      \<and> head m (chunk_plus_offset p sz) = FENCEPOST_HEAD
      \<and> head m (chunk_plus_offset p (sz + SIZE_T_SIZE)) = 0)"

definition do_check_inuse_chunk :: "malloc_params \<Rightarrow> heap \<Rightarrow> addr_t \<Rightarrow> bool" where
  "do_check_inuse_chunk mp h p \<longleftrightarrow>
     (let m = heap.mem h in
      do_check_any_chunk h p \<and> is_inuse m p \<and> next_pinuse m p
      \<and> (is_mmapped m p \<or> pinuse m p \<or> next_chunk m (prev_chunk m p) = p)
      \<and> (is_mmapped m p \<longrightarrow> do_check_mmapped_chunk mp h p))"

definition do_check_free_chunk :: "heap \<Rightarrow> addr_t \<Rightarrow> bool" where
  "do_check_free_chunk h p \<longleftrightarrow>
     (let m = heap.mem h; sz = chunksize m p; nxt = chunk_plus_offset p sz in
      do_check_any_chunk h p \<and> \<not> is_inuse m p \<and> \<not> next_pinuse m p \<and> \<not> is_mmapped m p
      \<and> (p \<noteq> dv (ms h) \<and> p \<noteq> top_chunk (ms h) \<longrightarrow>
           (if sz \<ge> MIN_CHUNK_SIZE then
              sz AND CHUNK_ALIGN_MASK = 0 \<and> is_aligned (chunk2mem p) \<and> prev_foot m nxt = sz \<and> pinuse m p
              \<and> (nxt = top_chunk (ms h) \<or> is_inuse m nxt)
              \<and> bk m (fd m p) = p \<and> fd m (bk m p) = p
            else sz = SIZE_T_SIZE)))"

definition do_check_malloced_chunk :: "malloc_params \<Rightarrow> heap \<Rightarrow> addr_t \<Rightarrow> size_t \<Rightarrow> bool" where
  "do_check_malloced_chunk mp h a s \<longleftrightarrow>
     (a \<noteq> 0 \<longrightarrow>
       (let m = heap.mem h; p = mem2chunk a; sz = head m p AND NOT INUSE_BITS in
        do_check_inuse_chunk mp h p \<and> sz AND CHUNK_ALIGN_MASK = 0 \<and> sz \<ge> MIN_CHUNK_SIZE \<and> sz \<ge> s
        \<and> (is_mmapped m p \<or> sz < s + MIN_CHUNK_SIZE)))"

section \<open>Bins\<close>

text \<open>
  \<^verbatim>\<open>do_check_tree\<close> calls itself for the children of a node while it goes round the chain of chunks of the
  same size; the fuel bounds the depth of both, and a chain that is longer than the fuel counts as one
  that never closes.
\<close>

definition tree_size_ok :: "words \<Rightarrow> addr_t \<Rightarrow> bool" where
  "tree_size_ok m t \<longleftrightarrow>
     (let tsize = chunksize m t; idx = compute_tree_index tsize in
      tindex m t = idx \<and> tsize \<ge> MIN_LARGE_SIZE \<and> tsize \<ge> minsize_for_tree_index idx
      \<and> (idx = 31 \<or> tsize < minsize_for_tree_index (idx + 1)))"

definition chain_chunk_ok :: "heap \<Rightarrow> uint \<Rightarrow> size_t \<Rightarrow> addr_t \<Rightarrow> bool" where
  "chain_chunk_ok h tidx tsize u \<longleftrightarrow>
     (let m = heap.mem h in
      do_check_any_chunk h u \<and> tindex m u = tidx \<and> chunksize m u = tsize \<and> \<not> is_inuse m u
      \<and> \<not> next_pinuse m u \<and> bk m (fd m u) = u \<and> fd m (bk m u) = u)"

definition head_chunk_ok :: "words \<Rightarrow> addr_t \<Rightarrow> bool" where
  "head_chunk_ok m u \<longleftrightarrow>
     parent m u \<noteq> u
     \<and> (child m (parent m u) 0 = u \<or> child m (parent m u) 1 = u \<or> m (parent m u) = u)"

definition child_link_ok :: "words \<Rightarrow> addr_t \<Rightarrow> addr_t \<Rightarrow> bool" where
  "child_link_ok m u c \<longleftrightarrow> parent m c = u \<and> c \<noteq> u"

fun do_check_tree :: "nat \<Rightarrow> heap \<Rightarrow> addr_t \<Rightarrow> unit res"
  and check_chain :: "nat \<Rightarrow> heap \<Rightarrow> addr_t \<Rightarrow> addr_t \<Rightarrow> addr_t \<Rightarrow> unit res"
  and check_child :: "nat \<Rightarrow> heap \<Rightarrow> addr_t \<Rightarrow> addr_t \<Rightarrow> unit res" where
  "do_check_tree 0 h t = Inl Diverges"
| "do_check_tree (Suc k) h t = abort_unless (tree_size_ok (heap.mem h) t) (check_chain k h t 0 t)"
| "check_chain 0 h t hp u = Inl Diverges"
| "check_chain (Suc k) h t hp u =
     (let m = heap.mem h in
      abort_unless (chain_chunk_ok h (tindex m t) (chunksize m t) u)
        (res_bind
          (if parent m u = 0 then abort_unless (child m u 0 = 0 \<and> child m u 1 = 0) (Inr hp)
           else
             abort_unless (hp = 0 \<and> head_chunk_ok m u)
               (res_bind (check_child k h u (child m u 0)) (\<lambda>_.
                res_bind (check_child k h u (child m u 1)) (\<lambda>_.
                  abort_unless
                    (child m u 0 \<noteq> 0 \<and> child m u 1 \<noteq> 0 \<longrightarrow> chunksize m (child m u 0) < chunksize m (child m u 1))
                    (Inr u)))))
          (\<lambda>hp'. if fd m u \<noteq> t then check_chain k h t hp' (fd m u) else abort_unless (hp' \<noteq> 0) (Inr ()))))"
| "check_child 0 h u c = (if c = 0 then Inr () else Inl Diverges)"
| "check_child (Suc k) h u c =
     (if c \<noteq> 0 then abort_unless (child_link_ok (heap.mem h) u c) (do_check_tree k h c) else Inr ())"

definition do_check_treebin :: "nat \<Rightarrow> addr_t \<Rightarrow> heap \<Rightarrow> uint \<Rightarrow> unit res" where
  "do_check_treebin fuel M h i =
     (let t = heap.mem h (treebin_at M i); empty = (treemap (ms h) AND idx2bit i = 0) in
      abort_unless (t = 0 \<longrightarrow> empty) (if \<not> empty then do_check_tree fuel h t else Inr ()))"

definition do_check_smallbin :: "malloc_params \<Rightarrow> addr_t \<Rightarrow> heap \<Rightarrow> uint \<Rightarrow> unit res" where
  "do_check_smallbin mp M h i =
     (let m = heap.mem h; b = smallbin_at M i; p0 = bk m b; empty = (smallmap (ms h) AND idx2bit i = 0) in
      abort_unless (p0 = b \<longrightarrow> empty)
        (if \<not> empty then
           res_bind
             (res_while (\<lambda>p. p \<noteq> b)
               (\<lambda>p. let q = next_chunk m p in
                  abort_unless
                    (do_check_free_chunk h p \<and> small_index (chunksize m p) = i
                     \<and> (bk m p = b \<or> chunksize m (bk m p) = chunksize m p)
                     \<and> (head m q \<noteq> FENCEPOST_HEAD \<longrightarrow> do_check_inuse_chunk mp h q))
                    (Inr (bk m p)))
               p0)
             (\<lambda>_. Inr ())
         else Inr ()))"

text \<open>Going round a ring from \<open>b\<close> in search of \<open>x\<close>: each member is looked at, \<open>b\<close> first.\<close>

definition ring_find :: "words \<Rightarrow> addr_t \<Rightarrow> addr_t \<Rightarrow> bool res" where
  "ring_find m x b =
     (case while_option (\<lambda>(first, p). p \<noteq> x \<and> (first \<or> p \<noteq> b)) (\<lambda>(first, p). (False, fd m p)) (True, b) of
        None \<Rightarrow> Inl Diverges
      | Some (_, p) \<Rightarrow> Inr (p = x))"

definition bin_find :: "addr_t \<Rightarrow> heap \<Rightarrow> addr_t \<Rightarrow> bool res" where
  "bin_find M h x =
     (let m = heap.mem h; sz = chunksize m x in
      if is_small sz then
        if smallmap_is_marked (ms h) (small_index sz) then ring_find m x (smallbin_at M (small_index sz)) else Inr False
      else
        let tidx = compute_tree_index sz in
        if treemap_is_marked (ms h) tidx then
          (case while_option (\<lambda>(t, bits). t \<noteq> 0 \<and> chunksize m t \<noteq> sz)
                  (\<lambda>(t, bits). (child m t (child_bit bits), push_bit 1 bits))
                  (m (treebin_at M tidx), push_bit (leftshift_for_tree_index tidx) sz) of
             None \<Rightarrow> Inl Diverges
           | Some (t, _) \<Rightarrow> if t \<noteq> 0 then ring_find m x t else Inr False)
        else Inr False)"

section \<open>The whole state\<close>

text \<open>The chunk \<open>q\<close> of the walk over a segment, after the chunk \<open>lastq\<close> or at its beginning.\<close>

definition check_walked :: "malloc_params \<Rightarrow> addr_t \<Rightarrow> heap \<Rightarrow> addr_t \<Rightarrow> addr_t \<Rightarrow> unit res" where
  "check_walked mp M h lastq q =
     (let m = heap.mem h in
      if is_inuse m q then
        res_bind (bin_find M h q) (\<lambda>found. abort_unless (\<not> found \<and> do_check_inuse_chunk mp h q) (Inr ()))
      else
        res_bind (if q = dv (ms h) then Inr True else bin_find M h q) (\<lambda>found.
          abort_unless (found \<and> (lastq = 0 \<or> is_inuse m lastq) \<and> do_check_free_chunk h q) (Inr ())))"

definition check_segment :: "malloc_params \<Rightarrow> addr_t \<Rightarrow> heap \<Rightarrow> msegment \<Rightarrow> size_t \<Rightarrow> size_t res" where
  "check_segment mp M h sg sum0 =
     (let m = heap.mem h; q0 = align_as_chunk (seg_base sg) in
      abort_unless (pinuse m q0)
        (res_bind
          (res_while (\<lambda>(q, lastq, total). segment_holds sg q \<and> q \<noteq> top_chunk (ms h) \<and> head m q \<noteq> FENCEPOST_HEAD)
            (\<lambda>(q, lastq, total). res_bind (check_walked mp M h lastq q) (\<lambda>_.
               Inr (next_chunk m q, q, total + chunksize m q)))
            (q0, 0, sum0))
          (\<lambda>(_, _, total). Inr total)))"

definition traverse_and_check :: "malloc_params \<Rightarrow> addr_t \<Rightarrow> heap \<Rightarrow> size_t res" where
  "traverse_and_check mp M h =
     (if is_initialized (ms h) then
        res_bind
          (res_while (\<lambda>(sp, total). sp \<noteq> 0)
            (\<lambda>(sp, total). let sg = segment_at M h sp in
               res_bind (check_segment mp M h sg total) (\<lambda>total'. Inr (seg_next sg, total')))
            (seg_ptr M, topsize (ms h) + TOP_FOOT_SIZE))
          (\<lambda>(_, total). Inr total)
      else Inr 0)"

definition check_dv :: "addr_t \<Rightarrow> heap \<Rightarrow> unit res" where
  "check_dv M h =
     (if dvsize (ms h) \<noteq> 0 then
        abort_unless
          (do_check_any_chunk h (dv (ms h)) \<and> dvsize (ms h) = chunksize (heap.mem h) (dv (ms h))
           \<and> dvsize (ms h) \<ge> MIN_CHUNK_SIZE)
          (res_bind (bin_find M h (dv (ms h))) (\<lambda>found. abort_unless (\<not> found) (Inr ())))
      else Inr ())"

definition check_top :: "addr_t \<Rightarrow> heap \<Rightarrow> unit res" where
  "check_top M h =
     (if top_chunk (ms h) \<noteq> 0 then
        res_bind (do_check_top_chunk M h (top_chunk (ms h))) (\<lambda>_.
          abort_unless (topsize (ms h) > 0)
            (res_bind (bin_find M h (top_chunk (ms h))) (\<lambda>found. abort_unless (\<not> found) (Inr ()))))
      else Inr ())"

definition do_check_malloc_state :: "nat \<Rightarrow> malloc_params \<Rightarrow> addr_t \<Rightarrow> heap \<Rightarrow> unit res" where
  "do_check_malloc_state fuel mp M h =
     res_bind (res_fold (\<lambda>i _. do_check_smallbin mp M h (of_nat i)) [0..<32] ()) (\<lambda>_.
     res_bind (res_fold (\<lambda>i _. do_check_treebin fuel M h (of_nat i)) [0..<32] ()) (\<lambda>_.
     res_bind (check_dv M h) (\<lambda>_.
     res_bind (check_top M h) (\<lambda>_.
     res_bind (traverse_and_check mp M h) (\<lambda>total.
       abort_unless (total \<le> footprint (ms h) \<and> footprint (ms h) \<le> max_footprint (ms h)) (Inr ()))))))"

end
