(* ===== verification/Dl_Check_Props.thy ===== *)
theory Dl_Check_Props
  imports Dl_Checks
begin

text \<open>
  The debugging checks on an mspace from which nothing has been freed: creating it and any number of
  allocations from its top leave a state that passes all of them.
\<close>

section \<open>Loops that can abort\<close>

lemma res_while_unfold: "res_while b c s = (if b s then res_bind (c s) (res_while b c) else Inr s)"
proof (cases "b s")
  case True
  have "res_while b c s = (case while_option (\<lambda>r. case r of Inl _ \<Rightarrow> False | Inr s \<Rightarrow> b s) (\<lambda>r. res_bind r c) (c s) of
      None \<Rightarrow> Inl Diverges | Some r \<Rightarrow> r)"
    unfolding res_while_def using True by (subst while_option_unfold) simp
  also have "\<dots> = res_bind (c s) (res_while b c)"
  proof (cases "c s")
    case (Inl e)
    then show ?thesis by (simp add: while_option_unfold [of _ _ "Inl e"])
  next
    case (Inr s')
    then show ?thesis by (simp add: res_while_def)
  qed
  finally show ?thesis using True by simp
next
  case False
  then show ?thesis by (simp add: res_while_def while_option_unfold [of _ _ "Inr s"])
qed

section \<open>Consecutive chunks in use\<close>

text \<open>
  From \<open>p\<close> to \<open>e\<close> the memory is cut into chunks of the sizes \<open>ss\<close>, all in use.
\<close>

fun in_use_run :: "words \<Rightarrow> addr_t \<Rightarrow> size_t list \<Rightarrow> addr_t \<Rightarrow> bool" where
  "in_use_run m p [] e \<longleftrightarrow> p = e"
| "in_use_run m p (s # ss) e \<longleftrightarrow>
     head m p = s OR INUSE_BITS \<and> 16 dvd unat s \<and> 32 \<le> unat s \<and> unat p + unat s < 2 ^ 64 \<and> in_use_run m (p + s) ss e"

lemma in_use_run_append:
  "in_use_run m p (ss @ ts) e \<longleftrightarrow> (\<exists>q. in_use_run m p ss q \<and> in_use_run m q ts e)"
  by (induction ss arbitrary: p) auto

lemma in_use_run_end: "in_use_run m p ss e \<Longrightarrow> unat e = unat p + sum_list (map unat ss)"
proof (induction ss arbitrary: p)
  case (Cons s ss)
  then have "unat (p + s) = unat p + unat s" by (simp add: unat_word_ariths)
  then show ?case using Cons by auto
qed simp

lemma in_use_run_cong:
  "in_use_run m p ss e \<Longrightarrow> (\<And>a. unat p < unat a \<Longrightarrow> unat a < unat e \<Longrightarrow> m' a = m a) \<Longrightarrow> in_use_run m' p ss e"
proof (induction ss arbitrary: p)
  case (Cons s ss)
  then have run: "in_use_run m (p + s) ss e" and s: "32 \<le> unat s" "unat p + unat s < 2 ^ 64" by auto
  have ps: "unat (p + s) = unat p + unat s" "unat (p + 8) = unat p + 8" using s by (simp_all add: unat_word_ariths)
  have "unat (p + 8) < unat e" using in_use_run_end [OF run] ps s(1) by linarith
  then have "head m' p = head m p" using Cons.prems(2) [of "p + 8"] ps by (simp add: head_def)
  moreover have "in_use_run m' (p + s) ss e" by (rule Cons.IH [OF run]) (use Cons.prems(2) ps s in auto)
  ultimately show ?case using Cons.prems(1) by simp
qed simp

text \<open>
  An mspace with one segment, cut into chunks of the sizes \<open>ss\<close> that are in use and the top.
\<close>

definition tidy :: "malloc_params \<Rightarrow> addr_t \<Rightarrow> size_t list \<Rightarrow> heap \<Rightarrow> bool" where
  "tidy mp M ss h \<longleftrightarrow>
     only_top mp h \<and> ss \<noteq> []
     \<and> (let sg = seg (ms h); m = heap.mem h; t = top_chunk (ms h) in
        seg_ptr M \<noteq> 0 \<and> seg_next sg = 0 \<and> 16 dvd unat (seg_base sg) \<and> least_addr (ms h) \<le> seg_base sg
        \<and> in_use_run m (seg_base sg) ss t \<and> 0 < topsize (ms h) \<and> head m t = topsize (ms h) OR PINUSE_BIT
        \<and> head m (t + topsize (ms h)) = TOP_FOOT_SIZE
        \<and> unat t + unat (topsize (ms h)) + unat TOP_FOOT_SIZE = unat (seg_base sg) + unat (seg_size sg)
        \<and> footprint (ms h) = seg_size sg \<and> seg_size sg \<le> max_footprint (ms h))"

section \<open>Chunks of a run pass the checks\<close>

lemma aligned_chunk: "16 dvd unat p \<Longrightarrow> unat p + 16 < 2 ^ 64 \<Longrightarrow> is_aligned (chunk2mem p)"
  using aligned_and [of "p + 16"] by (simp add: is_aligned_def chunk2mem_def unat_word_ariths)

lemma run_chunk_facts:
  fixes s :: size_t
  assumes "head m p = s OR INUSE_BITS" "16 dvd unat s" "32 \<le> unat s"
  shows "chunksize m p = s" "is_inuse m p" "pinuse m p" "\<not> is_mmapped m p" "next_chunk m p = p + s"
    "head m p \<noteq> FENCEPOST_HEAD"
proof -
  have "s OR 3 \<noteq> 11"
  proof
    assume "s OR 3 = 11"
    then have "s = 11 AND - 8" using head_bits(1) [OF assms(2)] by simp
    then have "s = 8" by simp
    with assms(3) show False by simp
  qed
  then show "chunksize m p = s" "is_inuse m p" "pinuse m p" "\<not> is_mmapped m p" "next_chunk m p = p + s"
    "head m p \<noteq> FENCEPOST_HEAD"
    using assms(1) head_bits [OF assms(2)]
    by (auto simp: chunksize_def is_inuse_def pinuse_def is_mmapped_def next_chunk_def FENCEPOST_HEAD_def SIZE_T_SIZE_def)
qed


lemma run_head_pinuse:
  assumes "in_use_run m p ss e" "pinuse m e"
  shows "pinuse m p"
proof (cases ss)
  case (Cons s ss')
  then show ?thesis using assms(1) run_chunk_facts(3) [of m p s] by simp
qed (use assms in simp)

lemma or_low_bits:
  fixes s :: size_t
  assumes "16 dvd unat s"
  shows "(s OR 3) AND - 4 = s" and "(s OR 1) AND - 4 = s"
proof -
  have "(push_bit 4 t OR mask 2) AND NOT (mask 2) = push_bit 4 t" "(push_bit 4 t OR mask 1) AND NOT (mask 2) = push_bit 4 t" for t :: size_t
    by (rule bit_word_eqI; (simp only: bit_simps; auto))+
  moreover have "NOT (mask 2 :: size_t) = - 4" by (simp add: mask_eq_exp_minus_1)
  ultimately show "(s OR 3) AND - 4 = s" "(s OR 1) AND - 4 = s"
    using aligned_push [OF assms] by (metis mask_values(1,2))+
qed

lemma run_chunk_checked:
  assumes "in_use_run (heap.mem h) p (s # ss) e" "pinuse (heap.mem h) e" "16 dvd unat p" "unat p + 16 < 2 ^ 64"
    and "least_addr (ms h) \<le> p" and e: "unat e + 32 < 2 ^ 64"
  shows "do_check_inuse_chunk mp h p"
    and "p + 16 \<noteq> 0 \<Longrightarrow> do_check_malloced_chunk mp h (chunk2mem p) s"
proof -
  have s: "head (heap.mem h) p = s OR INUSE_BITS" "16 dvd unat s" "32 \<le> unat s" and run: "in_use_run (heap.mem h) (p + s) ss e"
    using assms(1) by auto
  note f = run_chunk_facts [OF s]
  have nxt: "pinuse (heap.mem h) (p + s)" by (rule run_head_pinuse [OF run assms(2)])
  show inuse: "do_check_inuse_chunk mp h p"
    using f nxt aligned_chunk [OF assms(3,4)] assms(5)
    by (simp add: do_check_inuse_chunk_def do_check_any_chunk_def ok_address_def next_pinuse_def pinuse_def)
  show "do_check_malloced_chunk mp h (chunk2mem p) s" if "p + 16 \<noteq> 0"
  proof -
    have "(s OR 3) AND - 4 = s" by (rule or_low_bits(1) [OF s(2)])
    moreover have "s AND 15 = 0" by (rule aligned_and [OF s(2)])
    moreover have "s < s + 32" "32 \<le> s"
    proof -
      have "unat s + 32 < 2 ^ 64" using in_use_run_end [OF assms(1)] e by simp
      then have "unat (s + 32) = unat s + 32" by (simp add: unat_word_ariths)
      then show "s < s + 32" "32 \<le> s" using s(3) by (simp_all add: word_less_nat_alt word_le_nat_alt)
    qed
    ultimately show ?thesis using inuse s(1) by (simp add: do_check_malloced_chunk_def mem2chunk_def chunk2mem_def Let_def)
  qed
qed

lemma bin_find_empty:
  "smallmap (ms h) = 0 \<Longrightarrow> treemap (ms h) = 0 \<Longrightarrow> bin_find M h x = Inr False"
  by (simp add: bin_find_def Let_def smallmap_is_marked_def treemap_is_marked_def)

lemma run_walked:
  assumes h: "smallmap (ms h) = 0" "treemap (ms h) = 0" "top_chunk (ms h) = e" "pinuse (heap.mem h) e" "unat e + 32 < 2 ^ 64"
    and sg: "unat e < unat (seg_base sg) + unat (seg_size sg)" "unat (seg_base sg) + unat (seg_size sg) < 2 ^ 64"
    and run: "in_use_run (heap.mem h) p ss e" "16 dvd unat p" "least_addr (ms h) \<le> p" "seg_base sg \<le> p"
  shows "\<exists>l. res_while (\<lambda>(q, lastq, total). segment_holds sg q \<and> q \<noteq> top_chunk (ms h) \<and> head (heap.mem h) q \<noteq> FENCEPOST_HEAD)
      (\<lambda>(q, lastq, total). res_bind (check_walked mp M h lastq q) (\<lambda>_.
         Inr (next_chunk (heap.mem h) q, q, total + chunksize (heap.mem h) q))) (p, last0, total0)
    = Inr (e, l, total0 + sum_list ss)"
  using run
proof (induction ss arbitrary: p last0 total0)
  case Nil
  then show ?case using h(3) by (simp add: res_while_unfold)
next
  case (Cons s ss)
  have s: "head (heap.mem h) p = s OR INUSE_BITS" "16 dvd unat s" "32 \<le> unat s" and run: "in_use_run (heap.mem h) (p + s) ss e"
    and fits: "unat p + unat s < 2 ^ 64" using Cons.prems(1) by auto
  note f = run_chunk_facts [OF s]
  have ps: "unat (p + s) = unat p + unat s" using fits by (simp add: unat_word_ariths)
  have e: "unat p + 32 \<le> unat e" using in_use_run_end [OF Cons.prems(1)] s(3) by simp
  then have "unat p + 16 < 2 ^ 64" using h(5) by simp
  note ok = run_chunk_checked(1) [OF Cons.prems(1) h(4) Cons.prems(2) this Cons.prems(3) h(5)]
  have "unat (seg_base sg + seg_size sg) = unat (seg_base sg) + unat (seg_size sg)"
    using sg(2) by (simp add: unat_word_ariths)
  then have b: "segment_holds sg p" "p \<noteq> top_chunk (ms h)"
    using e sg(1) Cons.prems(4) h(3) by (auto simp: segment_holds_def word_less_nat_alt)
  have walked: "check_walked mp M h last0 p = Inr ()"
    using f(2) ok h(1,2) by (simp add: check_walked_def Let_def bin_find_empty)
  have "p \<le> p + s" using ps by (simp add: word_le_nat_alt)
  then have next_prems: "16 dvd unat (p + s)" "least_addr (ms h) \<le> p + s" "seg_base sg \<le> p + s"
    using ps Cons.prems(2-4) s(2) by auto
  from Cons.IH [OF run next_prems, of p "total0 + s"]
  show ?case using f(1,5,6) b walked by (subst res_while_unfold) (simp add: add.assoc)
qed


lemma in_use_run_sum: "in_use_run m p ss e \<Longrightarrow> e = p + sum_list ss"
proof (induction ss arbitrary: p)
  case (Cons s ss)
  then show ?case using Cons.IH [of "p + s"] by (simp add: add.assoc)
qed simp

section \<open>A tidy mspace passes all the checks\<close>

lemma tidyD:
  assumes "tidy mp M ss h"
  shows "only_top mp h" "ss \<noteq> []" "seg_ptr M \<noteq> 0" "seg_next (seg (ms h)) = 0" "16 dvd unat (seg_base (seg (ms h)))"
    "least_addr (ms h) \<le> seg_base (seg (ms h))"
    "in_use_run (heap.mem h) (seg_base (seg (ms h))) ss (top_chunk (ms h))" "0 < topsize (ms h)"
    "head (heap.mem h) (top_chunk (ms h)) = topsize (ms h) OR 1" "head (heap.mem h) (top_chunk (ms h) + topsize (ms h)) = 80"
    "unat (top_chunk (ms h)) + unat (topsize (ms h)) + 80 = unat (seg_base (seg (ms h))) + unat (seg_size (seg (ms h)))"
    "footprint (ms h) = seg_size (seg (ms h))" "seg_size (seg (ms h)) \<le> max_footprint (ms h)"
    "smallmap (ms h) = 0" "treemap (ms h) = 0" "dvsize (ms h) = 0" "top_chunk (ms h) \<noteq> 0"
    "16 dvd unat (topsize (ms h))" "16 dvd unat (top_chunk (ms h))" "least_addr (ms h) \<le> top_chunk (ms h)"
    "unat (top_chunk (ms h)) + unat (topsize (ms h)) + 80 < 2 ^ 64" "pinuse (heap.mem h) (top_chunk (ms h))"
  using assms head_bits(6) [of "topsize (ms h)"] by (auto simp: tidy_def only_top_def Let_def pinuse_def)

lemma segment_end:
  assumes "tidy mp M ss h"
  shows "seg_base (seg (ms h)) + seg_size (seg (ms h)) = top_chunk (ms h) + topsize (ms h) + 80"
proof -
  have "of_nat (unat (seg_base (seg (ms h))) + unat (seg_size (seg (ms h))))
      = (of_nat (unat (top_chunk (ms h)) + unat (topsize (ms h)) + 80) :: addr_t)"
    using tidyD(11) [OF assms] by simp
  then show ?thesis by simp
qed

lemma top_checked:
  assumes t: "tidy mp M ss h"
  shows "do_check_top_chunk M h (top_chunk (ms h)) = Inr ()"
proof -
  note d = tidyD [OF t]
  have "unat (seg_base (seg (ms h)) + seg_size (seg (ms h))) = unat (seg_base (seg (ms h))) + unat (seg_size (seg (ms h)))"
    using d(11,21) by (simp add: unat_word_ariths)
  moreover have "seg_base (seg (ms h)) \<le> top_chunk (ms h)"
    using in_use_run_end [OF d(7)] by (simp add: word_le_nat_alt)
  ultimately have holds: "segment_holds (seg (ms h)) (top_chunk (ms h))"
    using d(11) by (simp add: segment_holds_def word_less_nat_alt)
  have at: "segment_at M h (seg_ptr M) = seg (ms h)" by (simp add: segment_at_def)
  have found: "segment_holding M h (top_chunk (ms h)) = Inr (seg_ptr M)"
    unfolding segment_holding_def find_segment_def using holds at by (subst while_option_unfold) simp
  have "unat (top_chunk (ms h)) + 16 < 2 ^ 64" using d(21) by simp
  note aligned = aligned_chunk [OF d(19) this]
  show ?thesis
    using aligned d(3,8,9,10,20,22) or_low_bits(2) [OF d(18)] segment_end [OF t]
    by (simp add: do_check_top_chunk_def found at Let_def do_check_any_chunk_def ok_address_def pinuse_def chunk_plus_offset_def)
qed

lemma traversal_checked:
  assumes t: "tidy mp M ss h"
  shows "traverse_and_check mp M h = Inr (footprint (ms h))"
proof -
  note d = tidyD [OF t]
  define sg where "sg = seg (ms h)"
  note sg = d [folded sg_def]
  have at: "segment_at M h (seg_ptr M) = sg" by (simp add: segment_at_def sg_def)
  have "unat (seg_base sg) + 16 < 2 ^ 64" using in_use_run_end [OF sg(7)] sg(21) by simp
  then have q0: "align_as_chunk (seg_base sg) = seg_base sg"
    using aligned_offset [OF sg(5)] by (simp add: align_as_chunk_def)
  have e: "unat (top_chunk (ms h)) + 32 < 2 ^ 64" "unat (top_chunk (ms h)) < unat (seg_base sg) + unat (seg_size sg)"
    "unat (seg_base sg) + unat (seg_size sg) < 2 ^ 64" using sg(11,21) by auto
  define total where "total = topsize (ms h) + 80 + sum_list ss"
  from run_walked [OF d(14,15) refl d(22) e sg(7,5,6) order_refl, of mp M 0 "topsize (ms h) + 80"]
  have seg_ok: "check_segment mp M h sg (topsize (ms h) + 80) = Inr total"
    using run_head_pinuse [OF sg(7) sg(22)] by (auto simp: check_segment_def q0 Let_def total_def)
  have "top_chunk (ms h) = seg_base sg + sum_list ss" by (rule in_use_run_sum [OF sg(7)])
  then have "total = seg_size sg" using segment_end [OF t, folded sg_def] by (simp add: total_def algebra_simps)
  then show ?thesis
    using seg_ok sg(3,4,12,17) at
    by (simp add: traverse_and_check_def is_initialized_def res_while_unfold [of _ _ "(seg_ptr M, _)"] Let_def res_while_unfold [of _ _ "(0, _)"])
qed

lemma res_fold_unit: "(\<And>i. i \<in> set is \<Longrightarrow> f i = Inr ()) \<Longrightarrow> res_fold (\<lambda>i _. f i) is () = Inr ()"
  by (induction "is") auto

lemma tidy_checked:
  assumes t: "tidy mp M ss h"
  shows "do_check_malloc_state fuel mp M h = Inr ()"
proof -
  note d = tidyD [OF t]
  have "res_fold (\<lambda>i _. do_check_smallbin mp M h (of_nat i)) [0..<32] () = Inr ()"
    by (rule res_fold_unit) (simp add: do_check_smallbin_def Let_def d(14))
  moreover have "res_fold (\<lambda>i _. do_check_treebin fuel M h (of_nat i)) [0..<32] () = Inr ()"
    by (rule res_fold_unit) (simp add: do_check_treebin_def Let_def d(15))
  ultimately show ?thesis
    using d(8,12,13,16,17) top_checked [OF t] traversal_checked [OF t] bin_find_empty [OF d(14,15)]
    by (simp add: do_check_malloc_state_def check_dv_def check_top_def)
qed


section \<open>Allocation keeps an mspace tidy\<close>

lemma tidy_take_top:
  assumes t: "tidy mp M ss h" and req: "req < MAX_REQUEST" "request2size req < topsize (ms h)"
  shows "tidy mp M (ss @ [request2size req]) (take_top mp M (request2size req) h)"
proof -
  note d = tidyD [OF t]
  define nb where "nb = request2size req"
  define p where "p = top_chunk (ms h)"
  define h1 where "h1 = take_top mp M nb h"
  note top1 = only_top_take [OF d(1) req, of M, folded nb_def p_def, folded h1_def]
  note size = request2size_spec [OF req(1), folded nb_def]
  have less: "unat nb < unat (topsize (ms h))" using req(2) by (simp add: nb_def word_less_nat_alt)
  have fits: "unat (top_chunk (ms h)) + unat nb + 8 < 2 ^ 64" using d(21) less by simp
  note w = take_top_words [OF size(2) fits, where mp = mp and M = M, folded p_def h1_def]
  have ms1: "ms h1 = (ms h)\<lparr>topsize := topsize (ms h) - nb, top_chunk := p + nb\<rparr>"
    by (simp add: h1_def take_top_def p_def)
  have "in_use_run (heap.mem h1) (seg_base (seg (ms h))) ss p"
    using d(7) [folded p_def] w(5) by (rule in_use_run_cong) simp_all
  then have run: "in_use_run (heap.mem h1) (seg_base (seg (ms h))) (ss @ [nb]) (p + nb)"
    using w(1) size(1,2) fits by (auto simp: in_use_run_append p_def)
  have foot: "heap.mem h1 (p + topsize (ms h) + 8) = heap.mem h (p + topsize (ms h) + 8)"
  proof (rule w(4))
    have u: "unat (p + topsize (ms h) + 8) = unat p + unat (topsize (ms h)) + 8" "unat (p + 8) = unat p + 8"
      "unat (p + nb) = unat p + unat nb" "unat (p + nb + 8) = unat p + unat nb + 8"
      using d(21) less by (simp_all add: p_def unat_word_ariths)
    show "p + topsize (ms h) + 8 \<notin> {p + 8, p + nb, p + nb + 8}"
      by (simp only: insert_iff empty_iff word_unat_eq_iff u) (use less in auto)
  qed
  have "unat (top_chunk (ms h1)) + unat (topsize (ms h1)) = unat p + unat (topsize (ms h))"
    using top1(2,3) less by simp
  moreover have "0 < topsize (ms h) - nb" using less by (simp add: word_less_nat_alt unat_sub_if')
  ultimately show ?thesis
    unfolding nb_def [symmetric] h1_def [symmetric] tidy_def Let_def
    using top1(1) run w(3) foot d(3-6,10-13) by (simp add: ms1 head_def p_def)
qed

lemma tidy_malloc_all:
  assumes "tidy mp M ss h" and "\<forall>req \<in> set reqs. req < MAX_REQUEST" and "requested reqs < unat (topsize (ms h))"
    and "malloc_all mp M reqs h = Inr (es, h')"
  shows "tidy mp M (ss @ map request2size reqs) h'"
  using assms
proof (induction reqs arbitrary: h ss es)
  case (Cons req reqs)
  define nb where "nb = request2size req"
  have req: "req < MAX_REQUEST" using Cons.prems(2) by simp
  have sum: "requested (req # reqs) = unat nb + requested reqs" by (simp add: requested_def nb_def)
  then have less: "nb < topsize (ms h)" using Cons.prems(3) by (simp add: word_less_nat_alt)
  define h1 where "h1 = take_top mp M nb h"
  note step = malloc_from_top [OF tidyD(1) [OF Cons.prems(1)] req less [unfolded nb_def], of M, folded nb_def, folded h1_def]
  have t1: "tidy mp M (ss @ [nb]) h1"
    using tidy_take_top [OF Cons.prems(1) req less [unfolded nb_def]] by (simp add: h1_def nb_def)
  have "requested reqs < unat (topsize (ms h1))"
    using Cons.prems(3) sum less by (simp add: h1_def take_top_def unat_sub_if' word_less_nat_alt)
  moreover obtain es1 where "malloc_all mp M reqs h1 = Inr (es1, h')"
    using Cons.prems(4) step by (auto simp: res_bind_eq_Inr)
  ultimately show ?case using Cons.IH [OF t1] Cons.prems(2) by (simp add: nb_def)
qed simp


section \<open>A new mspace is tidy\<close>

lemma init_user_mstate_tidy:
  assumes "maps_region t n" and "16 dvd unat n" and "1040 < unat n" and "init_user_mstate mp t n m = (t + 16, h)"
  shows "tidy mp (t + 16) [960] (upd_ms (own_region locked) h)"
proof -
  have t: "16 dvd unat t" "0 < t" "unat t + unat n < 2 ^ 64" using assms(1) by (auto simp: maps_region_def)
  have n: "unat (n - 1040) = unat n - 1040" using assms(3) by (simp add: unat_sub_if')
  have u: "unat (t + 960) = unat t + 960" "unat (t + 16 + 888) = unat t + 904"
    using t(3) assms(3) by (simp_all add: unat_word_ariths)
  note w = init_user_mstate_words [OF t(1,3) assms(3,4)]
  have top: "only_top mp (upd_ms (own_region locked) h)"
    using init_user_mstate_top [OF t(1,2) assms(2) t(3), of mp m] assms(3,4)
    by (auto simp: only_top_def own_region_def set_lock_def ok_magic_def)
  have "seg_ptr (t + 16) \<noteq> 0" using u(2) by (auto simp: seg_ptr_def)
  then show ?thesis
    unfolding tidy_def Let_def using top t u n assms(3) w(3)
    by (simp add: w own_region_def set_lock_def word_less_nat_alt)
qed

section \<open>Blocks of a tidy mspace\<close>

lemma in_use_run_dvd: "in_use_run m p ss e \<Longrightarrow> 16 dvd unat p \<Longrightarrow> 16 dvd unat e"
proof (induction ss arbitrary: p)
  case (Cons s ss)
  then have "unat (p + s) = unat p + unat s" by (simp add: unat_word_ariths)
  then show ?case using Cons by auto
qed simp

lemma map_split: "i < length xs \<Longrightarrow> map f xs = map f (take i xs) @ f (xs ! i) # map f (drop (Suc i) xs)"
  using id_take_nth_drop [of i "map f xs"] by (simp add: take_map drop_map)

lemma tidy_block:
  assumes t: "tidy mp M (xs @ s # ys) h"
  shows "do_check_malloced_chunk mp h (of_nat (unat (seg_base (seg (ms h))) + sum_list (map unat xs) + 16)) s"
proof -
  note d = tidyD [OF t]
  obtain q where q: "in_use_run (heap.mem h) (seg_base (seg (ms h))) xs q" "in_use_run (heap.mem h) q (s # ys) (top_chunk (ms h))"
    using d(7) unfolding in_use_run_append by blast
  have uq: "unat q = unat (seg_base (seg (ms h))) + sum_list (map unat xs)" by (rule in_use_run_end [OF q(1)])
  have e: "unat (top_chunk (ms h)) + 32 < 2 ^ 64" "unat q + 16 < 2 ^ 64"
    using d(21) in_use_run_end [OF q(2)] by auto
  have "least_addr (ms h) \<le> q" using d(6) uq by (simp add: word_le_nat_alt)
  note ok = run_chunk_checked(2) [OF q(2) d(22) in_use_run_dvd [OF q(1) d(5)] e(2) this e(1)]
  have "unat (q + 16) = unat q + 16" using e(2) by (simp add: unat_word_ariths)
  then have "q + 16 \<noteq> 0" by auto
  moreover have "of_nat (unat q + 16) = chunk2mem q" by (simp add: chunk2mem_def)
  ultimately show ?thesis using ok uq by simp
qed

section \<open>Properties\<close>

text \<open>
  C27: The allocator's own consistency checks pass: after creating an mspace and any sequence of requests
  that fits into it, \<^verbatim>\<open>do_check_malloc_state\<close> finds the bins, the top and every chunk of the segment in
  order and the sizes of all chunks within the footprint, and each block that was handed out passes
  \<^verbatim>\<open>do_check_malloced_chunk\<close>.
\<close>
theorem malloc_passes_checks:
  assumes "granularity mp = 2 ^ k" and "12 \<le> k" and "k \<le> 30" and "unat (page_size mp) \<le> 2 ^ 30"
    and "unat capacity < 2 ^ 62"
    and "maps_region (mmap is_shared (region_size mp capacity)) (region_size mp capacity)"
    and "\<forall>req \<in> set reqs. req < MAX_REQUEST" and "requested reqs < unat capacity"
  shows "\<exists>M (h :: heap) as h'. create_mspace mp mmap capacity locked is_shared m = Some (M, h)
    \<and> malloc_all mp M reqs h = Inr (map Mem as, h') \<and> length as = length reqs
    \<and> do_check_malloc_state fuel mp M h' = Inr ()
    \<and> (\<forall>i < length reqs. do_check_malloced_chunk mp h' (as ! i) (request2size (reqs ! i)))"
proof (rule create_mspace_region [where mmap = mmap and is_shared = is_shared and m = m and locked = locked, OF assms(1-6)])
  fix t n
  assume region: "maps_region t n" "16 dvd unat n" "1040 + unat capacity \<le> unat n" "1040 < unat n"
    and made: "\<And>h. init_user_mstate mp t n m = (t + 16, h) \<Longrightarrow>
       create_mspace mp mmap capacity locked is_shared m = Some (t + 16, upd_ms (own_region locked) h)"
  obtain h0 where h0: "init_user_mstate mp t n m = (t + 16, h0)" "topsize (ms h0) = n - 1040"
    using init_user_mstate_top [of t n mp m] region by (auto simp: maps_region_def)
  define h where "h = upd_ms (own_region locked) h0"
  have tidy: "tidy mp (t + 16) [960] h" unfolding h_def by (rule init_user_mstate_tidy [OF region(1,2,4) h0(1)])
  have room: "requested reqs < unat (topsize (ms h))"
    using h0(2) region(3) assms(8) by (simp add: h_def own_region_def set_lock_def unat_sub_if')
  from malloc_all_bump [OF tidyD(1) [OF tidy] assms(7) room, of "t + 16"] obtain h' where
    h': "malloc_all mp (t + 16) reqs h = Inr (map (Mem \<circ> of_nat) (bump (unat (top_chunk (ms h))) reqs), h')"
    "unat (top_chunk (ms h')) = unat (top_chunk (ms h)) + requested reqs" by blast
  have tidy': "tidy mp (t + 16) ([960] @ map request2size reqs) h'"
    by (rule tidy_malloc_all [OF tidy assms(7) room h'(1)])
  have seg': "unat (seg_base (seg (ms h'))) + 960 = unat (top_chunk (ms h))"
    using in_use_run_end [OF tidyD(7) [OF tidy']] h'(2) by (simp add: requested_def comp_def)
  have blocks: "\<forall>i < length reqs. do_check_malloced_chunk mp h' (of_nat (bump (unat (top_chunk (ms h))) reqs ! i)) (request2size (reqs ! i))"
  proof (intro allI impI)
    fix i assume i: "i < length reqs"
    have "[960] @ map request2size reqs
        = (960 # map request2size (take i reqs)) @ request2size (reqs ! i) # map request2size (drop (Suc i) reqs)"
      using map_split [OF i] by simp
    note block = tidy_block [OF tidy' [unfolded this]]
    have "bump (unat (top_chunk (ms h))) reqs ! i
        = unat (seg_base (seg (ms h'))) + sum_list (map unat (960 # map request2size (take i reqs))) + 16"
      unfolding bump_nth [OF i] requested_def seg' [symmetric] by (simp add: comp_def)
    then show "do_check_malloced_chunk mp h' (of_nat (bump (unat (top_chunk (ms h))) reqs ! i)) (request2size (reqs ! i))"
      using block by (simp only:)
  qed
  show ?thesis
    using made [OF h0(1), folded h_def] h'(1) tidy_checked [OF tidy'] blocks
    by (intro exI [of _ "t + 16"] exI [of _ h] exI [of _ "map of_nat (bump (unat (top_chunk (ms h))) reqs)"] exI [of _ h']) simp
qed


theorem malloc_passes_checks_witness:
  "\<exists>M (h :: heap) as h'. create_mspace example_params example_mmap 1000 True True (\<lambda>_. 0) = Some (M, h)
    \<and> malloc_all example_params M [24, 100] h = Inr (map Mem as, h') \<and> do_check_malloc_state 9 example_params M h' = Inr ()
    \<and> do_check_malloced_chunk example_params h' (as ! 0) 48 \<and> do_check_malloced_chunk example_params h' (as ! 1) 128"
proof -
  have n: "region_size example_params 1000 = 4096" "requested [24, 100] = 176" "request2size 24 = 48" "request2size 100 = 128"
    by code_simp+
  have region: "maps_region (example_mmap True (region_size example_params 1000)) (region_size example_params 1000)"
    unfolding n by (simp add: maps_region_def example_mmap_def MFAIL_def)
  have small: "\<forall>req \<in> set [24, 100]. req < MAX_REQUEST" by code_simp
  have "\<exists>M (h :: heap) as h'. create_mspace example_params example_mmap 1000 True True (\<lambda>_. 0) = Some (M, h)
    \<and> malloc_all example_params M [24, 100] h = Inr (map Mem as, h') \<and> length as = length [24, 100 :: size_t]
    \<and> do_check_malloc_state 9 example_params M h' = Inr ()
    \<and> (\<forall>i < length [24, 100 :: size_t]. do_check_malloced_chunk example_params h' (as ! i) (request2size ([24, 100] ! i)))"
    by (rule malloc_passes_checks [where k = 12 and mmap = example_mmap and is_shared = True, OF _ _ _ _ _ region small]) (simp_all add: example_params_def n)
  then obtain M h as h' where w: "create_mspace example_params example_mmap 1000 True True (\<lambda>_. 0) = Some (M, h)"
    "malloc_all example_params M [24, 100] h = Inr (map Mem as, h')" "do_check_malloc_state 9 example_params M h' = Inr ()"
    and blocks: "\<forall>i < length [24, 100 :: size_t]. do_check_malloced_chunk example_params h' (as ! i) (request2size ([24, 100] ! i))"
    by blast
  have "do_check_malloced_chunk example_params h' (as ! 0) 48" "do_check_malloced_chunk example_params h' (as ! 1) 128"
    using blocks [rule_format, of 0] blocks [rule_format, of 1] n(3,4) by simp_all
  with w show ?thesis by blast
qed

end
