(* ===== verification/Spec2Isabelle.thy ===== *)
theory Spec2Isabelle
  imports Range_Props Range_Array Speculation Protocol Key_Value Ary_Bitmap Dl_Tree_Insert Dl_Call_Props Dl_Special_Props Dl_Check_Props
begin

text \<open>
  Verification of cbop, a runtime for behaviour-oriented parallelism.  A program marks regions that are
  likely to be independent.  The runtime forks a process per region; the processes of a group run the
  regions speculatively side by side, while an understudy runs them again without speculation.
  A speculative task records which bytes it reads and writes.  At its end it checks, in the order of the
  tasks, that no byte it read was written by an earlier task, and stores its writes as a patch; the last
  task of the group applies all the patches and goes on as the program.

  \<^bold>\<open>Parts of the program and the theories that model them.\<close>

  \<^item> \<^verbatim>\<open>Bop_Prelude\<close>: machine types (addresses and sizes are 64-bit words, \<^verbatim>\<open>unsigned\<close> is a
    32-bit word; all arithmetic wraps), results with the ways a call can fail to return, ranges, memory.
  \<^item> \<^verbatim>\<open>Range_Tree\<close>, \<^verbatim>\<open>Range_Ops\<close>, \<^verbatim>\<open>Range_Props\<close>: \<^verbatim>\<open>range_tree/dtree.c\<close> with \<^verbatim>\<open>bop_map.h\<close>,
    splay trees of address ranges.  A tree is a value, a map a record with its root; a function that changes
    a map returns it.  The lemmas show the order invariant and which bytes each operation leaves in the map.
    \<^verbatim>\<open>Range_Array\<close>: two operations that the runtime does not call.
  \<^item> \<^verbatim>\<open>Bop_State\<close>: the global variables of a process in one record, and programs over it with their
    outcomes (returned, blocked, exited, aborted).
  \<^item> \<^verbatim>\<open>Sync\<close>: \<^verbatim>\<open>bop_ppr_sync.c\<close> and \<^verbatim>\<open>atomic.h\<close>, the shared record of a group and its locks.
  \<^item> \<^verbatim>\<open>Utils\<close>: \<^verbatim>\<open>utils.c\<close>.  \<^verbatim>\<open>Ports\<close>: \<^verbatim>\<open>bop_ports.c\<close>, callbacks of the components, in order of
    registration.  \<^verbatim>\<open>Processes\<close>: the process side of \<^verbatim>\<open>bop_ppr.c\<close> (reaping, aborts, signal handlers,
    the monitor loop).
  \<^item> \<^verbatim>\<open>Task_Ranges\<close> and \<^verbatim>\<open>Postwait\<close>: \<^verbatim>\<open>postwait.c\<close>, data passed between tasks by posts and waits.
    \<^verbatim>\<open>Ordered\<close>: \<^verbatim>\<open>bop_ordered.c\<close>.  \<^verbatim>\<open>Bop_IO\<close>: \<^verbatim>\<open>bop_io.c\<close>, output kept back until it is known which
    processes win.
  \<^item> \<^verbatim>\<open>Merge\<close>: \<^verbatim>\<open>bop_merge.c\<close>, read and write sets, the check, patches.  \<^verbatim>\<open>Speculation\<close>: what it
    is for; a committed group leaves the memory of the sequential execution.
  \<^item> \<^verbatim>\<open>Ary_Bitmap\<close>: \<^verbatim>\<open>ary_bitmap.c\<close> and \<^verbatim>\<open>libc_overrides.c\<close>, bit maps behind arrays.
    \<^verbatim>\<open>Key_Value\<close>: \<^verbatim>\<open>key_value_checks.c\<close>, the monitor of objects.
  \<^item> \<^verbatim>\<open>Ppr\<close>: the life of a task in \<^verbatim>\<open>bop_ppr.c\<close> with \<^verbatim>\<open>ipa_hooks.c\<close>, from \<^verbatim>\<open>BOP_init\<close> over
    the regions to \<^verbatim>\<open>BOP_fini\<close>, calling the ports of all the components above.  \<^verbatim>\<open>Protocol\<close>: the commit
    protocol of a group as a step relation over the stages of \<^verbatim>\<open>ppr_task_commit\<close>, every access to the
    sync data a step, with invariants over all interleavings, progress and a measure.
  \<^item> \<^verbatim>\<open>Dl_Chunks\<close>, \<^verbatim>\<open>Dl_Bins\<close>, \<^verbatim>\<open>Dl_Malloc\<close>: the allocator \<^verbatim>\<open>external/malloc.c\<close> as the Makefile
    builds it: chunks in a memory of words and bin indices; the state of an mspace, its small bins and
    tree bins; allocating, freeing, creating and destroying.
  \<^item> \<^verbatim>\<open>Dl_Trees\<close>, \<^verbatim>\<open>Dl_Tree_Insert\<close>: the tree bins as tries of chunk addresses in memory; the
    searches for a free chunk find the best fit of all the trees, and linking a chunk is inserting it.
  \<^item> \<^verbatim>\<open>Dl_System\<close>, \<^verbatim>\<open>Dl_System_Props\<close>: the exchange of memory with the system, \<^verbatim>\<open>sys_alloc\<close> and
    \<^verbatim>\<open>sys_trim\<close> with the segments of an mspace; the lemmas show the limit of the footprint and the round
    trip of a mapped chunk.
  \<^item> \<^verbatim>\<open>Dl_Calls\<close>, \<^verbatim>\<open>Dl_Special\<close>: the whole calls on the state of the process, its memory and all its
    mspaces: malloc, free, calloc and realloc; aligned blocks, groups of blocks, limits, statistics and
    parameters.  \<^verbatim>\<open>Dl_Locks\<close>: every call that returns has released the locks it took.
    \<^verbatim>\<open>Dl_Call_Props\<close>, \<^verbatim>\<open>Dl_Special_Props\<close>: what these calls give and keep.
  \<^item> \<^verbatim>\<open>Dl_Checks\<close>, \<^verbatim>\<open>Dl_Check_Props\<close>: the consistency checks of the allocator's \<^verbatim>\<open>DEBUG\<close> build, its own
    statement of what a well-formed mspace is; new mspaces and the blocks taken from them pass them.
  \<^item> This theory: a property that spans the allocator and the abort of a task.

  \<^bold>\<open>Interfaces.\<close>  \<^verbatim>\<open>ascending_step\<close> (the loops of intersection and subtraction share it),
  \<^verbatim>\<open>byte_sets\<close> (what channels need of range maps), \<^verbatim>\<open>steady_ports\<close> (what the life of a task needs of
  the registered ports), \<^verbatim>\<open>free_lists\<close> (what the allocator needs of its bins) and \<^verbatim>\<open>lock_neutral\<close> (what may
  run inside the lock of an mspace) are locales, each interpreted on the model's definitions.

  \<^bold>\<open>Loops, fuel and blocking.\<close>  The loops of range maps run on fuel one larger than the size of the range in
  bytes, each round consumes a byte, and the lemmas show that the fuel is enough; out of fuel is
  \<^verbatim>\<open>Diverges\<close>.  Walks through linked structures in memory are \<^verbatim>\<open>while_option\<close>, with no value for a
  cycle; the check of a tree, which calls itself inside such a walk, runs on fuel.  Waiting for a lock is a blocked outcome or \<^verbatim>\<open>Diverges\<close>, never a value.

  \<^bold>\<open>Parameters.\<close>  What is not in the sources is an argument: the results of \<^verbatim>\<open>fork\<close>, \<^verbatim>\<open>tcsetpgrp\<close>,
  \<^verbatim>\<open>mmap\<close>, \<^verbatim>\<open>munmap\<close>, \<^verbatim>\<open>mremap\<close> and \<^verbatim>\<open>sbrk\<close> (one record of answers, \<^verbatim>\<open>os_answers\<close>), the text that \<^verbatim>\<open>vsnprintf\<close> yields, the environment, the content of memory
  from \<^verbatim>\<open>realloc\<close>, the user's code, and the allocator library behind \<^verbatim>\<open>ipa_hooks.c\<close> (a submodule).

  \<^bold>\<open>Not modelled.\<close>  Tests and examples; the release of the memory of range maps; time stamps, signal dispositions and backtraces.  Of the
  allocator: \<^verbatim>\<open>inspect_all\<close> (not compiled) and the calls on the global heap, \<^verbatim>\<open>dlmalloc\<close>
  and its relatives, which repeat the code of the mspace calls and which the runtime does not use.
  Processes are interleaved at the accesses to the sync data only; other shared data is passed between
  tasks in their order.
\<close>

section \<open>Allocation in a speculative task\<close>

text \<open>
  C38: \<^verbatim>\<open>mspace_malloc\<close> calls \<^verbatim>\<open>sys_alloc\<close> while it holds the lock of the mspace, and \<^verbatim>\<open>sys_alloc\<close> begins with
  \<^verbatim>\<open>BOP_abort_spec\<close>, which ends a speculative task: the process ends with the lock of the mspace held, and
  if that is a shared one, such as the one that holds the patches of a group, every later allocation from
  it by any process spins for ever.
\<close>
theorem speculative_malloc_locks_out:
  assumes "spaces M = Some x" and "mspace_malloc mp M req (mk_heap m x) = Inr (Sys_alloc nb, h1)" and "use_lock x"
    and "task_status s = SPEC" and "bop_mode s = PARALLEL" and "sync_data s = Some sd" and "sync_ok sd"
    and "spec_order s = int k" and "1 \<le> k" and "k < length (sync_status sd)" and "k \<le> 100"
  shows "\<exists>c s' m' spaces'. malloc_call mp os M req (s, m, spaces) = Exited c (s', m', spaces')
    \<and> (\<forall>other os' req'. malloc_call mp os' M req' (other, m', spaces') = Aborted Diverges)"
proof -
  obtain c s' where exited: "BOP_abort_spec s = Exited c s'" by (rule abort_spec_by_spec [OF assms(4-11)]) blast
  have "malloc_call mp os M req (s, m, spaces) = Exited c (s', heap.mem h1, spaces(M \<mapsto> ms h1))"
    using assms(1,2) exited by (simp add: malloc_call_def complete_malloc_def on_mspace_def in_process_def)
  moreover have "mspace_malloc mp M req' (mk_heap (heap.mem h1) (ms h1)) = Inl Diverges" for req'
    using held_lock_spins [OF sys_alloc_called_locked [OF assms(2)]] assms(3) by simp
  then have "malloc_call mp os' M req' (other, heap.mem h1, spaces(M \<mapsto> ms h1)) = Aborted Diverges" for other os' req'
    by (simp add: malloc_call_def complete_malloc_def on_mspace_def)
  ultimately show ?thesis by blast
qed

theorem speculative_malloc_locks_out_witness:
  "\<exists>M (h :: heap) c s' m' spaces'. create_mspace example_params example_mmap 0 True True (\<lambda>_. 0) = Some (M, h)
    \<and> malloc_call example_params example_os M 4000
        (example_group\<lparr>task_status := SPEC, spec_order := 1\<rparr>, heap.mem h, [M \<mapsto> ms h]) = Exited c (s', m', spaces')
    \<and> malloc_call example_params example_os M 8 (example_group, m', spaces') = Aborted Diverges"
proof -
  obtain M h where h: "create_mspace example_params example_mmap 0 True True (\<lambda>_. 0) = Some (M, h)"
    "only_top example_params h" "use_lock (ms h)" "topsize (ms h) = 3056" by (rule example_mspace) auto
  have len: "Suc 0 < length (sync_status example_sync)" using sync_ok_example by (simp add: sync_ok_def)
  have size: "request2size 4000 = 4016" "(4000 :: size_t) < MAX_REQUEST" by code_simp+
  obtain nb h1 where h1: "mspace_malloc example_params M 4000 (mk_heap (heap.mem h) (ms h)) = Inr (Sys_alloc nb, h1)"
    using malloc_no_room [OF h(2) size(2), of M] h(4) size(1) by auto
  have "[M \<mapsto> ms h] M = Some (ms h)" by simp
  from speculative_malloc_locks_out [where spaces = "[M \<mapsto> ms h]" and M = M, OF this h1 h(3), of "example_group\<lparr>task_status := SPEC, spec_order := 1\<rparr>"
      example_sync 1 example_os]
  obtain c s' m' spaces' where
    "malloc_call example_params example_os M 4000
      (example_group\<lparr>task_status := SPEC, spec_order := 1\<rparr>, heap.mem h, [M \<mapsto> ms h]) = Exited c (s', m', spaces')"
    "malloc_call example_params example_os M 8 (example_group, m', spaces') = Aborted Diverges"
    using sync_ok_example len by (auto simp: fresh_sync_def example_group_def program_start_def)
  with h(1) show ?thesis by blast
qed

end
